(* ===== verification/Xv6_Prelude.thy ===== *)
theory Xv6_Prelude
  imports Main "HOL-Library.Word" "HOL-Library.While_Combinator"
begin

text \<open>
  The prelude of the xv6 development: the C types of \<open>types.h\<close>, the outcome of a kernel call and
  the combinators the handlers are written with, the weakest precondition that the component
  contracts are stated in, little-endian byte layouts, and the generic lemmas on loops, lists and
  words the components share.
\<close>

unbundle bit_operations_syntax

named_theorems wp_rules "weakest preconditions of the kernel combinators and calls"

named_theorems flag_simps "tests and updates of single-bit flags"

section \<open>C types\<close>

text \<open>\<open>types.h\<close>: \<open>uchar\<close> and \<open>uint\<close>. A C \<open>int\<close> whose range matters is a \<^typ>\<open>32 word\<close> read by
  \<open>sint\<close>; the kernel's small counters are \<^typ>\<open>int\<close>.\<close>

type_synonym byte = "8 word"
type_synonym uint = "32 word"

lemma unat_lt32: "unat (w :: uint) < 2 ^ 32"
  using unsigned_less [of w] by simp

lemma sint_nat_small: "unat (x :: uint) < 2 ^ 31 \<Longrightarrow> sint x = int (unat x)"
proof -
  assume x: "unat x < 2 ^ 31"
  have u: "uint x = int (unat x)" by simp
  have "signed_take_bit (LENGTH(32) - Suc 0) (int (unat x)) = int (unat x)"
  proof (rule signed_take_bit_int_eq_self)
    show "- (2 ^ (LENGTH(32) - Suc 0)) \<le> int (unat x)" by (rule order.trans [of _ 0]) simp_all
    have "int (unat x) < int (2 ^ 31)" using x by (simp only: of_nat_less_iff)
    then show "int (unat x) < 2 ^ (LENGTH(32) - Suc 0)" by simp
  qed
  then show ?thesis by (simp only: sint_uint u)
qed

section \<open>Outcomes of a kernel call\<close>

text \<open>
  A kernel call runs on a state until it returns (\<open>Ret\<close>), until it calls \<open>panic\<close> (\<open>Panic\<close>), until it
  gives the CPU to the scheduler inside \<open>sched\<close> (\<open>Switch\<close>, with the state it leaves behind), until it
  busy-waits on something only another CPU can change (\<open>Spin\<close>), or it is in a loop that never ends
  (\<open>Hang\<close>).
\<close>

datatype ('a, 's) res = Ret 'a 's | Panic string | Switch 's | Spin 's | Hang

type_synonym ('s, 'a) kern = "'s \<Rightarrow> ('a, 's) res"

abbreviation ret :: "'a \<Rightarrow> ('s, 'a) kern" where
  "ret \<equiv> Ret"

definition bnd :: "('s, 'a) kern \<Rightarrow> ('a \<Rightarrow> ('s, 'b) kern) \<Rightarrow> ('s, 'b) kern" where
  "bnd m f s =
     (case m s of
        Ret x s' \<Rightarrow> f x s'
      | Panic e \<Rightarrow> Panic e
      | Switch s' \<Rightarrow> Switch s'
      | Spin s' \<Rightarrow> Spin s'
      | Hang \<Rightarrow> Hang)"

abbreviation skip :: "('s, unit) kern" where
  "skip \<equiv> ret ()"

definition kpanic :: "string \<Rightarrow> ('s, 'a) kern" where
  "kpanic msg s = Panic msg"

definition gets :: "('s \<Rightarrow> 'a) \<Rightarrow> ('s, 'a) kern" where
  "gets f s = Ret (f s) s"

definition modify :: "('s \<Rightarrow> 's) \<Rightarrow> ('s, unit) kern" where
  "modify f s = Ret () (f s)"

definition whenk :: "bool \<Rightarrow> ('s, unit) kern \<Rightarrow> ('s, unit) kern" where
  "whenk c m = (if c then m else skip)"

text \<open>A C block of statements, run in order, and a \<open>for\<close> loop over the listed indices.\<close>

fun block :: "('s, unit) kern list \<Rightarrow> ('s, unit) kern" where
  "block [] = skip"
| "block (m # ms) = bnd m (\<lambda>_. block ms)"

fun foreach :: "('i \<Rightarrow> ('s, unit) kern) \<Rightarrow> 'i list \<Rightarrow> ('s, unit) kern" where
  "foreach f [] = skip"
| "foreach f (i # is) = bnd (f i) (\<lambda>_. foreach f is)"

text \<open>A \<open>for\<close> loop whose body may \<open>return\<close> or \<open>break\<close> with a value, and a \<open>while\<close> loop on a local
  variable, which may run forever.\<close>

fun forexit :: "('i \<Rightarrow> ('s, 'r option) kern) \<Rightarrow> 'i list \<Rightarrow> ('s, 'r option) kern" where
  "forexit f [] = ret None"
| "forexit f (i # is) =
     bnd (f i) (\<lambda>r. case r of None \<Rightarrow> forexit f is | Some v \<Rightarrow> ret (Some v))"

definition kwhile :: "('x \<Rightarrow> 's \<Rightarrow> bool) \<Rightarrow> ('x \<Rightarrow> ('s, 'x) kern) \<Rightarrow> 'x \<Rightarrow> ('s, 'x) kern" where
  "kwhile b c x s =
     (case while_option
        (\<lambda>r. case r of Ret y t \<Rightarrow> b y t | _ \<Rightarrow> False)
        (\<lambda>r. case r of Ret y t \<Rightarrow> c y t | _ \<Rightarrow> r) (Ret x s) of
        Some r \<Rightarrow> r
      | None \<Rightarrow> Hang)"

lemma gets_apply [simp]: "gets f s = Ret (f s) s"
  by (simp add: gets_def)

lemma modify_apply [simp]: "modify f s = Ret () (f s)"
  by (simp add: modify_def)

lemma kpanic_apply [simp]: "kpanic msg s = Panic msg"
  by (simp add: kpanic_def)

lemma bnd_Ret: "m s = Ret x s' \<Longrightarrow> bnd m f s = f x s'"
  by (simp add: bnd_def)

lemma bnd_Panic: "m s = Panic e \<Longrightarrow> bnd m f s = Panic e"
  by (simp add: bnd_def)

lemma bnd_Switch: "m s = Switch s' \<Longrightarrow> bnd m f s = Switch s'"
  by (simp add: bnd_def)

lemma bnd_Spin: "m s = Spin s' \<Longrightarrow> bnd m f s = Spin s'"
  by (simp add: bnd_def)

lemma bnd_Hang: "m s = Hang \<Longrightarrow> bnd m f s = Hang"
  by (simp add: bnd_def)

lemmas bnd_run = bnd_Ret bnd_Panic bnd_Switch bnd_Spin bnd_Hang

lemma bnd_simps [simp]:
  "bnd (ret x) f = f x"
  "bnd (gets g) f s = f (g s) s"
  "bnd (modify h) f' s = f' () (h s)"
  "bnd (kpanic e) f s = Panic e"
  by (simp_all add: bnd_def fun_eq_iff)

lemma bnd_if [simp]: "bnd (if c then m else m') f s = (if c then bnd m f s else bnd m' f s)"
  by simp

lemma bnd_assoc: "bnd (bnd m f) g = bnd m (\<lambda>x. bnd (f x) g)"
  by (rule ext) (simp add: bnd_def split: res.splits)

lemma bnd_RetE:
  assumes "bnd m f s = Ret x s'"
  obtains y t where "m s = Ret y t" and "f y t = Ret x s'"
  using assms by (auto simp: bnd_def split: res.splits)

lemma block_append: "block (ms @ ns) = bnd (block ms) (\<lambda>_. block ns)"
  by (induction ms) (simp_all add: bnd_assoc)

lemma foreach_append: "foreach f (is @ js) = bnd (foreach f is) (\<lambda>_. foreach f js)"
  by (induction "is") (simp_all add: bnd_assoc)

lemma foreach_modify: "foreach (\<lambda>i. modify (f i)) is s = Ret () (fold f is s)"
  by (induction "is" arbitrary: s) simp_all

lemma kwhile_unfold: "kwhile b c x s = (if b x s then bnd (c x) (kwhile b c) s else Ret x s)"
proof -
  let ?b = "\<lambda>r. case r of Ret y t \<Rightarrow> b y t | _ \<Rightarrow> False"
  let ?c = "\<lambda>r. case r of Ret y t \<Rightarrow> c y t | _ \<Rightarrow> r"
  have stop: "while_option ?b ?c r = Some r" if "\<not> ?b r" for r
    using that by (subst while_option_unfold) simp
  show ?thesis
  proof (cases "b x s")
    case True
    then have "while_option ?b ?c (Ret x s) = while_option ?b ?c (c x s)"
      by (subst while_option_unfold) simp
    then show ?thesis
      using True stop [of "c x s"] by (cases "c x s") (simp_all add: kwhile_def bnd_def)
  next
    case False
    then show ?thesis using stop [of "Ret x s"] by (simp add: kwhile_def)
  qed
qed

section \<open>Weakest preconditions\<close>

text \<open>
  \<open>wp m Q s\<close>: run from \<open>s\<close>, the call returns, and its value and final state satisfy \<open>Q\<close>. It is total
  correctness: a call that panics, sleeps or spins satisfies no postcondition.
\<close>

definition wp :: "('s, 'a) kern \<Rightarrow> ('a \<Rightarrow> 's \<Rightarrow> bool) \<Rightarrow> 's \<Rightarrow> bool" where
  "wp m Q s = (case m s of Ret x s' \<Rightarrow> Q x s' | _ \<Rightarrow> False)"

lemma wp_iff: "wp m Q s \<longleftrightarrow> (\<exists>x s'. m s = Ret x s' \<and> Q x s')"
  by (simp add: wp_def split: res.splits)

lemma wp_unit: "wp m Q s \<longleftrightarrow> (\<exists>s'. m s = Ret () s' \<and> Q () s')"
  by (simp add: wp_iff)

lemma wp_bnd [wp_rules]: "wp (bnd m f) Q s \<longleftrightarrow> wp m (\<lambda>x. wp (f x) Q) s"
  by (simp add: wp_def bnd_def split: res.splits)

lemma wp_ret [wp_rules]: "wp (ret x) Q s \<longleftrightarrow> Q x s"
  by (simp add: wp_def)

lemma wp_skip [wp_rules]: "(\<lambda>_. wp skip Q) = Q"
  by (simp add: wp_def fun_eq_iff)

lemma wp_gets [wp_rules]: "wp (gets f) Q s \<longleftrightarrow> Q (f s) s"
  by (simp add: wp_def)

lemma wp_modify [wp_rules]: "wp (modify f) Q s \<longleftrightarrow> Q () (f s)"
  by (simp add: wp_def)

lemma wp_kpanic [wp_rules]: "wp (kpanic e) Q s \<longleftrightarrow> False"
  by (simp add: wp_def)

lemma wp_whenk [wp_rules]: "wp (whenk c m) Q s \<longleftrightarrow> (if c then wp m Q s else Q () s)"
  by (simp add: whenk_def wp_ret)

lemma wp_if [wp_rules]: "wp (if c then m else m') Q s \<longleftrightarrow> (if c then wp m Q s else wp m' Q s)"
  by simp

lemma wp_block [wp_rules]:
  "wp (block []) Q s \<longleftrightarrow> Q () s"
  "wp (block (m # ms)) Q s \<longleftrightarrow> wp m (\<lambda>_. wp (block ms) Q) s"
  by (simp_all add: wp_ret wp_bnd)

lemma wp_mono: "wp m Q s \<Longrightarrow> (\<And>x s'. Q x s' \<Longrightarrow> R x s') \<Longrightarrow> wp m R s"
  by (auto simp: wp_iff)

lemma wp_conj: "wp m (\<lambda>x s'. Q x s' \<and> R x s') s \<longleftrightarrow> wp m Q s \<and> wp m R s"
  by (auto simp: wp_iff)

lemma wp_Ret: "m s = Ret x s' \<Longrightarrow> wp m Q s \<longleftrightarrow> Q x s'"
  by (simp add: wp_def)

text \<open>The loop rule: an invariant indexed by the part of the list already done.\<close>

lemma wp_foreach:
  assumes "I [] s"
    and "\<And>pre i rest s. is = pre @ i # rest \<Longrightarrow> I pre s \<Longrightarrow> wp (f i) (\<lambda>_. I (pre @ [i])) s"
  shows "wp (foreach f is) (\<lambda>_. I is) s"
proof -
  have "is = pre @ rest \<Longrightarrow> I pre s \<Longrightarrow> wp (foreach f rest) (\<lambda>_. I is) s" for pre rest s
  proof (induction rest arbitrary: pre s)
    case Nil
    then show ?case by (simp add: wp_ret)
  next
    case (Cons i rest)
    from Cons.prems have "wp (f i) (\<lambda>_. I (pre @ [i])) s" by (rule assms(2))
    then show ?case
      unfolding foreach.simps wp_bnd
      by (rule wp_mono) (rule Cons.IH, use Cons.prems in auto)
  qed
  from this [of "[]" "is" s] assms(1) show ?thesis by simp
qed

lemma wp_foreach_upt:
  assumes "I 0 s" and "\<And>i s. i < n \<Longrightarrow> I i s \<Longrightarrow> wp (f i) (\<lambda>_. I (Suc i)) s"
  shows "wp (foreach f [0..<n]) (\<lambda>_. I n) s"
proof -
  have "wp (foreach f [0..<n]) (\<lambda>_. I (length [0..<n])) s"
  proof (rule wp_foreach [where I = "\<lambda>pre. I (length pre)"])
    show "I (length []) s" using assms(1) by simp
  next
    fix pre i rest s assume u: "[0..<n] = pre @ i # rest" and "I (length pre) s"
    moreover have "length pre < n" using arg_cong [OF u, of length] by simp
    moreover have "i = length pre" using u \<open>length pre < n\<close>
      by (metis add_0 nth_append_length nth_upt)
    ultimately show "wp (f i) (\<lambda>_. I (length (pre @ [i]))) s" using assms(2) by simp
  qed
  then show ?thesis by simp
qed

lemma wp_forexit:
  assumes "I [] s"
    and "\<And>pre i rest s. is = pre @ i # rest \<Longrightarrow> I pre s \<Longrightarrow>
      wp (f i) (\<lambda>r. case r of None \<Rightarrow> I (pre @ [i]) | Some v \<Rightarrow> Q v) s"
  shows "wp (forexit f is) (\<lambda>r. case r of None \<Rightarrow> I is | Some v \<Rightarrow> Q v) s"
proof -
  have "is = pre @ rest \<Longrightarrow> I pre s \<Longrightarrow>
      wp (forexit f rest) (\<lambda>r. case r of None \<Rightarrow> I is | Some v \<Rightarrow> Q v) s" for pre rest s
  proof (induction rest arbitrary: pre s)
    case Nil
    then show ?case by (simp add: wp_ret)
  next
    case (Cons i rest)
    from Cons.prems have "wp (f i) (\<lambda>r. case r of None \<Rightarrow> I (pre @ [i]) | Some v \<Rightarrow> Q v) s"
      by (rule assms(2))
    then show ?case
      unfolding forexit.simps wp_bnd
      by (rule wp_mono) (use Cons in \<open>auto simp: wp_ret split: option.splits\<close>)
  qed
  from this [of "[]" "is" s] assms(1) show ?thesis by simp
qed

text \<open>Total correctness of a \<open>while\<close> loop, by an invariant and a variant that decreases.\<close>

lemma wp_kwhile:
  assumes "I x s"
    and "\<And>x s. I x s \<Longrightarrow> b x s \<Longrightarrow> wp (c x) (\<lambda>y t. I y t \<and> V y t < (V x s :: nat)) s"
    and "\<And>x s. I x s \<Longrightarrow> \<not> b x s \<Longrightarrow> Q x s"
  shows "wp (kwhile b c x) Q s"
  using assms(1)
proof (induction "V x s" arbitrary: x s rule: less_induct)
  case less
  show ?case
  proof (cases "b x s")
    case True
    then have "wp (kwhile b c x) Q s \<longleftrightarrow> wp (c x) (\<lambda>y. wp (kwhile b c y) Q) s"
      by (subst wp_bnd [symmetric]) (simp add: wp_def, subst kwhile_unfold, simp)
    moreover have "wp (c x) (\<lambda>y. wp (kwhile b c y) Q) s"
      using assms(2) [OF less.prems True] by (rule wp_mono) (use less.hyps in blast)
    ultimately show ?thesis by blast
  next
    case False
    then have "kwhile b c x s = Ret x s" by (subst kwhile_unfold) simp
    with False assms(3) [OF less.prems] show ?thesis by (simp add: wp_def)
  qed
qed

section \<open>Little-endian layouts\<close>

text \<open>The x86 byte order of \<open>ushort\<close> and \<open>uint\<close> objects, in memory and in disk blocks.\<close>

definition le16 :: "16 word \<Rightarrow> byte list" where
  "le16 w = [ucast w, ucast (drop_bit 8 w)]"

definition le32 :: "uint \<Rightarrow> byte list" where
  "le32 w = [ucast w, ucast (drop_bit 8 w), ucast (drop_bit 16 w), ucast (drop_bit 24 w)]"

fun de16 :: "byte list \<Rightarrow> 16 word" where
  "de16 (a # b # _) = ucast a OR push_bit 8 (ucast b)"
| "de16 _ = 0"

fun de32 :: "byte list \<Rightarrow> uint" where
  "de32 (a # b # c # d # _) =
     ucast a OR push_bit 8 (ucast b) OR push_bit 16 (ucast c) OR push_bit 24 (ucast d)"
| "de32 _ = 0"

lemma length_le16 [simp]: "length (le16 w) = 2"
  by (simp add: le16_def)

lemma length_le32 [simp]: "length (le32 w) = 4"
  by (simp add: le32_def)

lemma de16_le16 [simp]: "de16 (le16 w @ xs) = w"
proof (rule bit_word_eqI)
  fix n assume "n < LENGTH(16)"
  then show "bit (de16 (le16 w @ xs)) n = bit w n"
    by (cases "n < 8") (auto simp: le16_def bit_simps)
qed

lemma de32_le32 [simp]: "de32 (le32 w @ xs) = w"
proof (rule bit_word_eqI)
  fix n assume n: "n < LENGTH(32)"
  consider "n < 8" | "8 \<le> n" "n < 16" | "16 \<le> n" "n < 24" | "24 \<le> n" by linarith
  then show "bit (de32 (le32 w @ xs)) n = bit w n"
    using n by cases (auto simp: le32_def bit_simps)
qed

lemmas de_le_exact [simp] = de16_le16 [of _ "[]", simplified] de32_le32 [of _ "[]", simplified]

lemma le32_inj: "le32 v = le32 w \<longleftrightarrow> v = w"
  by (metis de_le_exact(2))

text \<open>\<open>splice bs off new\<close> overwrites \<open>bs\<close> from byte \<open>off\<close> with \<open>new\<close>: \<open>memmove(bs+off, new, n)\<close>.\<close>

definition splice :: "'a list \<Rightarrow> nat \<Rightarrow> 'a list \<Rightarrow> 'a list" where
  "splice bs off new = take off bs @ new @ drop (off + length new) bs"

definition rd32 :: "byte list \<Rightarrow> nat \<Rightarrow> uint" where
  "rd32 bs off = de32 (drop off bs)"

definition wr32 :: "byte list \<Rightarrow> nat \<Rightarrow> uint \<Rightarrow> byte list" where
  "wr32 bs off w = splice bs off (le32 w)"

definition rd16 :: "byte list \<Rightarrow> nat \<Rightarrow> 16 word" where
  "rd16 bs off = de16 (drop off bs)"

definition wr16 :: "byte list \<Rightarrow> nat \<Rightarrow> 16 word \<Rightarrow> byte list" where
  "wr16 bs off w = splice bs off (le16 w)"

lemma length_splice [simp]: "off + length new \<le> length bs \<Longrightarrow> length (splice bs off new) = length bs"
  by (simp add: splice_def)

lemma nth_splice:
  assumes "off + length new \<le> length bs" and "i < length bs"
  shows "splice bs off new ! i =
    (if i < off then bs ! i else if i < off + length new then new ! (i - off) else bs ! i)"
  using assms by (auto simp: splice_def nth_append min_def)

lemma drop_splice_same:
  "off \<le> length bs \<Longrightarrow> drop off (splice bs off new) = new @ drop (off + length new) bs"
  by (simp add: splice_def)

lemma splice_eqI:
  assumes "off + length new \<le> length bs" and "length cs = length bs"
    and "\<And>i. i < length bs \<Longrightarrow>
      cs ! i = (if i < off then bs ! i else if i < off + length new then new ! (i - off) else bs ! i)"
  shows "splice bs off new = cs"
  using assms by (intro nth_equalityI) (simp_all add: nth_splice)

lemma de32_cong:
  assumes "4 \<le> length xs" and "length ys = length xs" and "\<And>i. i < 4 \<Longrightarrow> xs ! i = ys ! i"
  shows "de32 xs = de32 ys"
proof -
  have e: "zs = zs ! 0 # zs ! 1 # zs ! 2 # zs ! 3 # drop 4 zs" if "4 \<le> length zs" for zs :: "byte list"
    using that by (cases zs; cases "tl zs"; cases "tl (tl zs)"; cases "tl (tl (tl zs))") auto
  show ?thesis
    using e [of xs] e [of ys] assms(1,2) assms(3) [of 0] assms(3) [of 1] assms(3) [of 2] assms(3) [of 3]
    by (metis de32.simps(1) one_less_numeral_iff semiring_norm(76) zero_less_numeral
        numeral_less_iff semiring_norm(78) semiring_norm(81) semiring_norm(80))
qed

lemma length_wr32 [simp]: "off + 4 \<le> length bs \<Longrightarrow> length (wr32 bs off w) = length bs"
  by (simp add: wr32_def)

lemma length_wr16 [simp]: "off + 2 \<le> length bs \<Longrightarrow> length (wr16 bs off w) = length bs"
  by (simp add: wr16_def)

lemma rd32_wr32_same [simp]: "off \<le> length bs \<Longrightarrow> rd32 (wr32 bs off w) off = w"
  by (simp add: rd32_def wr32_def drop_splice_same)

lemma rd16_wr16_same [simp]: "off \<le> length bs \<Longrightarrow> rd16 (wr16 bs off w) off = w"
  by (simp add: rd16_def wr16_def drop_splice_same)

text \<open>A read is not affected by a write that does not overlap it.\<close>

lemma rd32_splice_other:
  assumes "off + length new \<le> length bs" and "a + 4 \<le> length bs"
    and "a + 4 \<le> off \<or> off + length new \<le> a"
  shows "rd32 (splice bs off new) a = rd32 bs a"
  unfolding rd32_def using assms
  by (intro de32_cong) (auto simp: nth_splice)

lemma rd32_wr32_other:
  "off + 4 \<le> length bs \<Longrightarrow> a + 4 \<le> length bs \<Longrightarrow> a + 4 \<le> off \<or> off + 4 \<le> a \<Longrightarrow>
   rd32 (wr32 bs off w) a = rd32 bs a"
  by (simp add: wr32_def rd32_splice_other)

section \<open>Byte-addressed memory\<close>

type_synonym memory = "uint \<Rightarrow> byte"

definition load32 :: "memory \<Rightarrow> uint \<Rightarrow> uint" where
  "load32 m a = de32 [m a, m (a + 1), m (a + 2), m (a + 3)]"

definition store32 :: "memory \<Rightarrow> uint \<Rightarrow> uint \<Rightarrow> memory" where
  "store32 m a w =
     m(a := ucast w, a + 1 := ucast (drop_bit 8 w), a + 2 := ucast (drop_bit 16 w),
       a + 3 := ucast (drop_bit 24 w))"

lemma word_add_neq [simp]:
  fixes a :: uint
  shows "a + 1 \<noteq> a" "a + 2 \<noteq> a" "a + 3 \<noteq> a" "a + 1 \<noteq> a + 2" "a + 1 \<noteq> a + 3"
    "a + 2 \<noteq> a + 3"
proof -
  have "(1 :: uint) \<noteq> 0" "(2 :: uint) \<noteq> 0" "(3 :: uint) \<noteq> 0" "(1 :: uint) \<noteq> 2" "(1 :: uint) \<noteq> 3"
    "(2 :: uint) \<noteq> 3"
    by simp_all
  then show "a + 1 \<noteq> a" "a + 2 \<noteq> a" "a + 3 \<noteq> a" "a + 1 \<noteq> a + 2" "a + 1 \<noteq> a + 3"
    "a + 2 \<noteq> a + 3"
    by (simp_all only: add_left_cancel add_cancel_left_right not_False_eq_True)
qed

lemmas word_add_neq' [simp] = word_add_neq [symmetric]

lemma load32_store32_same [simp]: "load32 (store32 m a w) a = w"
proof -
  have "load32 (store32 m a w) a = de32 (le32 w)"
    by (simp add: load32_def store32_def le32_def del: de32.simps)
  then show ?thesis by simp
qed

lemma load32_cong: "m a = m' a \<Longrightarrow> m (a+1) = m' (a+1) \<Longrightarrow> m (a+2) = m' (a+2) \<Longrightarrow> m (a+3) = m' (a+3)
   \<Longrightarrow> load32 m a = load32 m' a"
  by (simp add: load32_def)

lemma store32_other:
  "b \<noteq> a \<Longrightarrow> b \<noteq> a + 1 \<Longrightarrow> b \<noteq> a + 2 \<Longrightarrow> b \<noteq> a + 3 \<Longrightarrow> store32 m a w b = m b"
  by (simp add: store32_def)

section \<open>Flags\<close>

text \<open>Tests, sets and clears of single-bit masks, as the kernel writes them:
  \<open>f & M\<close>, \<open>f |= M\<close> and \<open>f &= ~M\<close>.\<close>

lemma and_bit_test [flag_simps]:
  "(f :: uint) AND 1 = 0 \<longleftrightarrow> \<not> bit f 0"
  "f AND 2 = 0 \<longleftrightarrow> \<not> bit f 1"
  "f AND 4 = 0 \<longleftrightarrow> \<not> bit f 2"
  using and_exp_eq_0_iff_not_bit [of f 0] and_exp_eq_0_iff_not_bit [of f 1]
    and_exp_eq_0_iff_not_bit [of f 2]
  by simp_all

lemma bit_small_consts [flag_simps]:
  "bit (1 :: uint) n \<longleftrightarrow> n = 0"
  "bit (2 :: uint) n \<longleftrightarrow> n = 1"
  "bit (4 :: uint) n \<longleftrightarrow> n = 2"
  using bit_2_iff [where 'a = uint, of n]
    bit_exp_iff [where 'a = uint, of 2 n]
  by (auto simp: bit_1_iff)

lemma bit_updates [flag_simps]:
  "bit (f OR g) n \<longleftrightarrow> bit f n \<or> bit (g :: uint) n"
  "n < 32 \<Longrightarrow> bit (f AND NOT g) n \<longleftrightarrow> bit f n \<and> \<not> bit g n"
  by (simp_all add: bit_or_iff bit_and_iff bit_not_iff)

section \<open>Lists and searches\<close>

lemma find_SomeD: "find P xs = Some x \<Longrightarrow> x \<in> set xs \<and> P x"
  by (induction xs) (auto split: if_splits)

lemma find_first_Some:
  "find P [0..<n] = Some i \<longleftrightarrow> i < n \<and> P i \<and> (\<forall>j<i. \<not> P j)"
  by (auto simp: find_Some_iff)

lemma find_first_None: "find P [0..<n] = None \<longleftrightarrow> (\<forall>i<n. \<not> P i)"
  by (auto simp: find_None_iff)

lemma fold_fun_upd_upt:
  "fold (\<lambda>i f. f(i := g i (f i))) [0..<n] f = (\<lambda>i. if i < n then g i (f i) else f i)"
  by (induction n) (auto simp: fun_eq_iff)

end
