(* ===== verification/Spinlock.thy ===== *)
theory Spinlock
  imports Xv6_Prelude
begin

text \<open>
  Spin locks and interrupt masking (\<open>spinlock.c\<close>, \<open>spinlock.h\<close>, the \<open>struct cpu\<close> of \<open>proc.h\<close>).

  \<open>machine\<close> is what one CPU sees: its own \<open>struct cpu\<close> and the locks it shares with the others. The
  records of the other components extend it, so that \<open>acquire\<close> and \<open>release\<close> apply to all of them.
  The call stack that \<open>acquire\<close> records in \<open>lk->pcs\<close> and the lock's name are for debugging output
  only and are left out. The last section puts several CPUs side by side.
\<close>

section \<open>State\<close>

text \<open>The spin locks of the kernel; \<open>Lk_pipe\<close> is the lock inside the pipe at an address.\<close>

datatype lockid = Lk_ptable | Lk_kmem | Lk_bcache | Lk_log | Lk_icache | Lk_ftable | Lk_cons
  | Lk_ide | Lk_ticks | Lk_pipe uint

text \<open>\<open>struct spinlock\<close>: \<open>lk_cpu\<close> is the index of the holder in \<open>cpus\<close>.\<close>

record spinlock =
  locked :: uint
  lk_cpu :: "nat option"

text \<open>\<open>struct cpu\<close>: \<open>cpu_id\<close> is its index in \<open>cpus\<close>, \<open>fl_if\<close> the \<open>FL_IF\<close> bit of its \<open>%eflags\<close>,
  \<open>cr3\<close> its page-table register, \<open>ts_esp0\<close> the kernel stack pointer in its task state, and \<open>curproc\<close>
  the per-CPU variable \<open>proc\<close>, as an index into \<open>ptable.proc\<close>.\<close>

record cpu =
  cpu_id :: nat
  ncli :: int
  intena :: bool
  fl_if :: bool
  cr3 :: uint
  ts_esp0 :: uint
  curproc :: "nat option"

definition free_lock :: spinlock where
  "free_lock = \<lparr>locked = 0, lk_cpu = None\<rparr>"

record machine =
  cpu :: cpu
  locks :: "lockid \<Rightarrow> spinlock"

lemma free_lock_simps [simp]: "locked free_lock = 0" "lk_cpu free_lock = None"
  by (simp_all add: free_lock_def)

section \<open>Operations\<close>

definition initlock :: "lockid \<Rightarrow> ('z machine_scheme, unit) kern" where
  "initlock lk = modify (\<lambda>s. s\<lparr>locks := (locks s)(lk := free_lock)\<rparr>)"

definition cli :: "('z machine_scheme, unit) kern" where
  "cli = modify (\<lambda>s. s\<lparr>cpu := (cpu s)\<lparr>fl_if := False\<rparr>\<rparr>)"

definition sti :: "('z machine_scheme, unit) kern" where
  "sti = modify (\<lambda>s. s\<lparr>cpu := (cpu s)\<lparr>fl_if := True\<rparr>\<rparr>)"

definition pushcli :: "('z machine_scheme, unit) kern" where
  "pushcli =
     bnd (gets (\<lambda>s. fl_if (cpu s))) (\<lambda>eflags. block [
       cli,
       \<lambda>s. whenk (ncli (cpu s) = 0) (modify (\<lambda>s. s\<lparr>cpu := (cpu s)\<lparr>intena := eflags\<rparr>\<rparr>)) s,
       modify (\<lambda>s. s\<lparr>cpu := (cpu s)\<lparr>ncli := ncli (cpu s) + 1\<rparr>\<rparr>)])"

definition popcli :: "('z machine_scheme, unit) kern" where
  "popcli = block [
     \<lambda>s. whenk (fl_if (cpu s)) (kpanic ''popcli - interruptible'') s,
     modify (\<lambda>s. s\<lparr>cpu := (cpu s)\<lparr>ncli := ncli (cpu s) - 1\<rparr>\<rparr>),
     \<lambda>s. whenk (ncli (cpu s) < 0) (kpanic ''popcli'') s,
     \<lambda>s. whenk (ncli (cpu s) = 0 \<and> intena (cpu s)) sti s]"

definition holding :: "lockid \<Rightarrow> 'z machine_scheme \<Rightarrow> bool" where
  "holding lk s \<longleftrightarrow> locked (locks s lk) \<noteq> 0 \<and> lk_cpu (locks s lk) = Some (cpu_id (cpu s))"

text \<open>\<open>while(xchg(&lk->locked, 1) != 0) ;\<close> followed by \<open>lk->cpu = cpu\<close>. The exchange is atomic; a
  CPU that finds the lock taken keeps spinning until another CPU clears it.\<close>

definition acquire_spin :: "lockid \<Rightarrow> ('z machine_scheme, unit) kern" where
  "acquire_spin lk s =
     (if locked (locks s lk) \<noteq> 0 then Spin s
      else Ret () (s\<lparr>locks := (locks s)(lk := \<lparr>locked = 1, lk_cpu = Some (cpu_id (cpu s))\<rparr>)\<rparr>))"

definition acquire :: "lockid \<Rightarrow> ('z machine_scheme, unit) kern" where
  "acquire lk = block [
     pushcli,
     \<lambda>s. whenk (holding lk s) (kpanic ''acquire'') s,
     acquire_spin lk]"

definition release :: "lockid \<Rightarrow> ('z machine_scheme, unit) kern" where
  "release lk = block [
     \<lambda>s. whenk (\<not> holding lk s) (kpanic ''release'') s,
     modify (\<lambda>s. s\<lparr>locks := (locks s)(lk := (locks s lk)\<lparr>lk_cpu := None\<rparr>)\<rparr>),
     modify (\<lambda>s. s\<lparr>locks := (locks s)(lk := (locks s lk)\<lparr>locked := 0\<rparr>)\<rparr>),
     popcli]"

section \<open>The effect of each operation on one CPU\<close>

text \<open>The CPU after \<open>pushcli\<close> and after a \<open>popcli\<close> that does not panic.\<close>

definition pushed :: "cpu \<Rightarrow> cpu" where
  "pushed c = c\<lparr>fl_if := False, intena := (if ncli c = 0 then fl_if c else intena c),
     ncli := ncli c + 1\<rparr>"

definition popped :: "cpu \<Rightarrow> cpu" where
  "popped c = c\<lparr>ncli := ncli c - 1, fl_if := (ncli c = 1 \<and> intena c)\<rparr>"

lemma pushcli_run: "pushcli s = Ret () (s\<lparr>cpu := pushed (cpu s)\<rparr>)"
  by (cases "ncli (cpu s) = 0") (simp_all add: pushcli_def pushed_def cli_def whenk_def bnd_def)

lemma popcli_run:
  "popcli s =
     (if fl_if (cpu s) then Panic ''popcli - interruptible''
      else if ncli (cpu s) \<le> 0 then Panic ''popcli''
      else Ret () (s\<lparr>cpu := popped (cpu s)\<rparr>))"
  by (auto simp: popcli_def popped_def sti_def whenk_def bnd_def)

lemma acquire_run:
  "acquire lk s =
     (if holding lk s then Panic ''acquire''
      else if locked (locks s lk) \<noteq> 0 then Spin (s\<lparr>cpu := pushed (cpu s)\<rparr>)
      else Ret () (s\<lparr>cpu := pushed (cpu s),
        locks := (locks s)(lk := \<lparr>locked = 1, lk_cpu = Some (cpu_id (cpu s))\<rparr>)\<rparr>))"
  by (auto simp: acquire_def pushcli_run bnd_def whenk_def acquire_spin_def holding_def pushed_def)

lemma release_run:
  "release lk s =
     (if \<not> holding lk s then Panic ''release''
      else if fl_if (cpu s) then Panic ''popcli - interruptible''
      else if ncli (cpu s) \<le> 0 then Panic ''popcli''
      else Ret () (s\<lparr>cpu := popped (cpu s),
        locks := (locks s)(lk := free_lock)\<rparr>))"
  by (auto simp: release_def popcli_run bnd_def whenk_def fun_eq_iff free_lock_def)

section \<open>Balanced use\<close>

text \<open>
  \<open>cpu_ok\<close>: interrupts are off whenever a \<open>pushcli\<close> is outstanding. \<open>settle c\<close> is what a balanced
  \<open>pushcli\<close>/\<open>popcli\<close> pair leaves: the CPU as it was, except that \<open>intena\<close> is refreshed when the
  outermost level is left.
\<close>

definition cpu_ok :: "cpu \<Rightarrow> bool" where
  "cpu_ok c \<longleftrightarrow> 0 \<le> ncli c \<and> (0 < ncli c \<longrightarrow> \<not> fl_if c)"

definition settle :: "cpu \<Rightarrow> cpu" where
  "settle c = (if ncli c = 0 then c\<lparr>intena := fl_if c\<rparr> else c)"

lemma pushed_simps [simp]:
  "cpu_id (pushed c) = cpu_id c" "curproc (pushed c) = curproc c" "fl_if (pushed c) = False"
  "ncli (pushed c) = ncli c + 1"
  by (simp_all add: pushed_def)

lemma popped_simps [simp]:
  "cpu_id (popped c) = cpu_id c" "curproc (popped c) = curproc c" "ncli (popped c) = ncli c - 1"
  by (simp_all add: popped_def)

lemma settle_simps [simp]:
  "cpu_id (settle c) = cpu_id c" "curproc (settle c) = curproc c" "ncli (settle c) = ncli c"
  "fl_if (settle c) = fl_if c" "settle (settle c) = settle c" "cpu_ok (settle c) = cpu_ok c"
  by (simp_all add: settle_def cpu_ok_def)

lemma cpu_ok_pushed [simp]: "cpu_ok c \<Longrightarrow> cpu_ok (pushed c)"
  by (simp add: cpu_ok_def)

lemma popped_pushed [simp]: "cpu_ok c \<Longrightarrow> popped (pushed c) = settle c"
  by (auto simp: popped_def pushed_def settle_def cpu_ok_def)

lemma settle_pushed [simp]: "cpu_ok c \<Longrightarrow> settle (pushed c) = pushed c"
  by (auto simp: settle_def cpu_ok_def)

lemma pushed_settle [simp]: "pushed (settle c) = pushed c"
  by (simp add: pushed_def settle_def)

text \<open>A lock nobody holds, and a lock this CPU holds.\<close>

abbreviation idle :: "lockid \<Rightarrow> 'z machine_scheme \<Rightarrow> bool" where
  "idle lk s \<equiv> locks s lk = free_lock"

definition held_by :: "nat \<Rightarrow> spinlock" where
  "held_by c = \<lparr>locked = 1, lk_cpu = Some c\<rparr>"

lemma held_by_simps [simp]: "locked (held_by c) = 1" "lk_cpu (held_by c) = Some c"
  by (simp_all add: held_by_def)

lemma acquire_idle:
  "idle lk s \<Longrightarrow> acquire lk s =
     Ret () (s\<lparr>cpu := pushed (cpu s), locks := (locks s)(lk := held_by (cpu_id (cpu s)))\<rparr>)"
  by (simp add: acquire_run holding_def held_by_def)

lemma release_held:
  "locks s lk = held_by (cpu_id (cpu s)) \<Longrightarrow> cpu_ok (cpu s) \<Longrightarrow> 0 < ncli (cpu s) \<Longrightarrow>
   release lk s = Ret () (s\<lparr>cpu := popped (cpu s), locks := (locks s)(lk := free_lock)\<rparr>)"
  by (simp add: release_run holding_def cpu_ok_def)

lemma release_pushed:
  "cpu s = pushed c \<Longrightarrow> locks s lk = held_by (cpu_id c) \<Longrightarrow> cpu_ok c \<Longrightarrow>
   release lk s = Ret () (s\<lparr>cpu := settle c, locks := (locks s)(lk := free_lock)\<rparr>)"
proof -
  assume "cpu s = pushed c" "locks s lk = held_by (cpu_id c)" and c: "cpu_ok c"
  moreover have "0 < ncli (pushed c)" using c by (simp add: cpu_ok_def)
  ultimately show ?thesis using release_held [of s lk] by simp
qed

lemma idle_upd: "idle lk s \<Longrightarrow> (locks s)(lk := free_lock) = locks s"
  by auto

lemmas lock_run = acquire_idle release_pushed idle_upd

lemma wp_acquire [wp_rules]:
  "idle lk s \<Longrightarrow> wp (acquire lk) Q s \<longleftrightarrow>
     Q () (s\<lparr>cpu := pushed (cpu s), locks := (locks s)(lk := held_by (cpu_id (cpu s)))\<rparr>)"
  by (simp add: wp_def acquire_idle)

lemma wp_release [wp_rules]:
  "locks s lk = held_by (cpu_id (cpu s)) \<Longrightarrow> cpu_ok (cpu s) \<Longrightarrow> 0 < ncli (cpu s) \<Longrightarrow>
   wp (release lk) Q s \<longleftrightarrow>
     Q () (s\<lparr>cpu := popped (cpu s), locks := (locks s)(lk := free_lock)\<rparr>)"
  by (auto simp: wp_def release_run holding_def cpu_ok_def)

text \<open>A critical section whose body leaves the CPU and the locks alone puts them back as they were.\<close>

lemma acquire_release_run:
  assumes "idle lk s" and "cpu_ok (cpu s)"
    and "\<And>t. t = s\<lparr>cpu := pushed (cpu s), locks := (locks s)(lk := held_by (cpu_id (cpu s)))\<rparr> \<Longrightarrow>
      body t = Ret x (f t) \<and> cpu (f t) = cpu t \<and> locks (f t) = locks t"
  shows "bnd (acquire lk) (\<lambda>_. bnd body (\<lambda>x. bnd (release lk) (\<lambda>_. ret x))) s =
    Ret x ((f (s\<lparr>cpu := pushed (cpu s), locks := (locks s)(lk := held_by (cpu_id (cpu s)))\<rparr>))
      \<lparr>cpu := settle (cpu s), locks := locks s\<rparr>)"
proof -
  let ?t = "s\<lparr>cpu := pushed (cpu s), locks := (locks s)(lk := held_by (cpu_id (cpu s)))\<rparr>"
  have a: "acquire lk s = Ret () ?t"
    using assms(1) by (rule acquire_idle)
  have b: "body ?t = Ret x (f ?t)" "cpu (f ?t) = pushed (cpu s)"
      "locks (f ?t) = (locks s)(lk := held_by (cpu_id (cpu s)))"
    using assms(3) [of ?t] by simp_all
  have "(locks s)(lk := free_lock) = locks s"
    using assms(1) by (rule idle_upd)
  then have "release lk (f ?t) = Ret () ((f ?t)\<lparr>cpu := settle (cpu s), locks := locks s\<rparr>)"
    using b assms(2) by (simp add: release_run holding_def) (simp add: cpu_ok_def)
  with a b show ?thesis by (simp add: bnd_Ret)
qed

section \<open>Several CPUs\<close>

text \<open>
  \<open>smp\<close> is the whole machine: the CPUs, the locks they share, and three pieces of history: the locks
  each CPU has acquired and not yet released, the lock it is spinning on, and the number of its
  outstanding \<open>pushcli\<close> calls that do not belong to a lock.
\<close>

record smp =
  cpus :: "nat \<Rightarrow> cpu"
  shared :: "lockid \<Rightarrow> spinlock"
  held :: "nat \<Rightarrow> lockid set"
  wants :: "nat \<Rightarrow> lockid option"
  extra :: "nat \<Rightarrow> nat"

definition view :: "nat \<Rightarrow> smp \<Rightarrow> machine" where
  "view c g = \<lparr>cpu = cpus g c, locks = shared g\<rparr>"

definition put :: "nat \<Rightarrow> machine \<Rightarrow> smp \<Rightarrow> smp" where
  "put c m g = g\<lparr>cpus := (cpus g)(c := cpu m), shared := locks m\<rparr>"

definition smp_init :: smp where
  "smp_init =
     \<lparr>cpus = (\<lambda>c. \<lparr>cpu_id = c, ncli = 0, intena = False, fl_if = False, cr3 = 0, ts_esp0 = 0,
        curproc = None\<rparr>),
      shared = (\<lambda>_. free_lock), held = (\<lambda>_. {}), wants = (\<lambda>_. None),
      extra = (\<lambda>_. 0)\<rparr>"

text \<open>One step of one CPU: it takes a free lock, starts to spin on a taken one, wins the exchange it
  is spinning on, releases a lock, nests or unnests interrupt masking, or, when nothing is masked,
  has its interrupt flag changed (by \<open>sti\<close>, by a trap or by the return from one).\<close>

inductive smp_step :: "smp \<Rightarrow> smp \<Rightarrow> bool" where
  acq: "wants g c = None \<Longrightarrow> acquire lk (view c g) = Ret () m \<Longrightarrow>
    smp_step g ((put c m g)\<lparr>held := (held g)(c := insert lk (held g c))\<rparr>)"
| wait: "wants g c = None \<Longrightarrow> acquire lk (view c g) = Spin m \<Longrightarrow>
    smp_step g ((put c m g)\<lparr>wants := (wants g)(c := Some lk)\<rparr>)"
| win: "wants g c = Some lk \<Longrightarrow> acquire_spin lk (view c g) = Ret () m \<Longrightarrow>
    smp_step g ((put c m g)\<lparr>wants := (wants g)(c := None),
      held := (held g)(c := insert lk (held g c))\<rparr>)"
| rel: "wants g c = None \<Longrightarrow> release lk (view c g) = Ret () m \<Longrightarrow>
    smp_step g ((put c m g)\<lparr>held := (held g)(c := held g c - {lk})\<rparr>)"
| push: "wants g c = None \<Longrightarrow> pushcli (view c g) = Ret () m \<Longrightarrow>
    smp_step g ((put c m g)\<lparr>extra := (extra g)(c := Suc (extra g c))\<rparr>)"
| pop: "wants g c = None \<Longrightarrow> extra g c = Suc k \<Longrightarrow> popcli (view c g) = Ret () m \<Longrightarrow>
    smp_step g ((put c m g)\<lparr>extra := (extra g)(c := k)\<rparr>)"
| flag: "ncli (cpus g c) = 0 \<Longrightarrow>
    smp_step g (g\<lparr>cpus := (cpus g)(c := (cpus g c)\<lparr>fl_if := b\<rparr>)\<rparr>)"

inductive smp_reach :: "smp \<Rightarrow> bool" where
  init: "smp_reach smp_init"
| step: "smp_reach g \<Longrightarrow> smp_step g h \<Longrightarrow> smp_reach h"

definition smp_inv :: "smp \<Rightarrow> bool" where
  "smp_inv g \<longleftrightarrow>
     (\<forall>c. cpu_id (cpus g c) = c \<and> cpu_ok (cpus g c) \<and> finite (held g c) \<and>
        ncli (cpus g c) = int (card (held g c) + extra g c) + (if wants g c = None then 0 else 1)) \<and>
     (\<forall>lk c. lk \<in> held g c \<longleftrightarrow> locked (shared g lk) \<noteq> 0 \<and> lk_cpu (shared g lk) = Some c) \<and>
     (\<forall>lk. locked (shared g lk) \<noteq> 0 \<longrightarrow> lk_cpu (shared g lk) \<noteq> None)"

lemma smp_inv_init: "smp_inv smp_init"
  by (simp add: smp_inv_def smp_init_def cpu_ok_def)

lemmas smp_run_simps = acquire_run release_run pushcli_run popcli_run acquire_spin_def holding_def
  view_def put_def

lemma cpu_ok_popped: "cpu_ok c \<Longrightarrow> 0 < ncli c \<Longrightarrow> cpu_ok (popped c)"
  by (auto simp: cpu_ok_def popped_def)

lemma smp_inv_take:
  assumes "smp_inv g" and "locked (shared g lk) = 0"
  shows "lk \<notin> held g d"
  using assms by (auto simp: smp_inv_def)

text \<open>One lemma per kind of step, each a case split on the CPU that moved and the lock it touched.\<close>

lemma smp_inv_acq:
  assumes inv: "smp_inv g" and "wants g c = None" and "acquire lk (view c g) = Ret () m"
  shows "smp_inv ((put c m g)\<lparr>held := (held g)(c := insert lk (held g c))\<rparr>)"
proof -
  from assms(3) have free: "locked (shared g lk) = 0" and m: "cpu m = pushed (cpus g c)"
      "locks m = (shared g)(lk := \<lparr>locked = 1, lk_cpu = Some (cpu_id (cpus g c))\<rparr>)"
    by (auto simp: smp_run_simps split: if_splits)
  note notin = smp_inv_take [OF inv free]
  show ?thesis using inv notin assms(2)
    unfolding smp_inv_def put_def m by (auto simp: card_insert_if)
qed

lemma smp_inv_wait:
  assumes inv: "smp_inv g" and "wants g c = None" and "acquire lk (view c g) = Spin m"
  shows "smp_inv ((put c m g)\<lparr>wants := (wants g)(c := Some lk)\<rparr>)"
proof -
  from assms(3) have m: "cpu m = pushed (cpus g c)" "locks m = shared g"
    by (auto simp: smp_run_simps split: if_splits)
  show ?thesis using inv assms(2) unfolding smp_inv_def put_def m by auto
qed

lemma smp_inv_win:
  assumes inv: "smp_inv g" and "wants g c = Some lk" and "acquire_spin lk (view c g) = Ret () m"
  shows "smp_inv ((put c m g)\<lparr>wants := (wants g)(c := None),
    held := (held g)(c := insert lk (held g c))\<rparr>)"
proof -
  from assms(3) have free: "locked (shared g lk) = 0" and m: "cpu m = cpus g c"
      "locks m = (shared g)(lk := \<lparr>locked = 1, lk_cpu = Some (cpu_id (cpus g c))\<rparr>)"
    by (auto simp: smp_run_simps split: if_splits)
  note notin = smp_inv_take [OF inv free]
  show ?thesis using inv notin assms(2)
    unfolding smp_inv_def put_def m by (auto simp: card_insert_if)
qed

lemma smp_inv_rel:
  assumes inv: "smp_inv g" and "wants g c = None" and "release lk (view c g) = Ret () m"
  shows "smp_inv ((put c m g)\<lparr>held := (held g)(c := held g c - {lk})\<rparr>)"
proof -
  have id: "cpu_id (cpus g c) = c" and ok: "cpu_ok (cpus g c)" and fin: "finite (held g c)"
    using inv by (simp_all add: smp_inv_def)
  from assms(3) have holds: "locked (shared g lk) \<noteq> 0" "lk_cpu (shared g lk) = Some c"
      and pos: "0 < ncli (cpus g c)" and m: "cpu m = popped (cpus g c)"
      "locks m = (shared g)(lk := free_lock)"
    using id by (auto simp: smp_run_simps split: if_splits)
  have mem: "lk \<in> held g d \<longleftrightarrow> d = c" for d
    using inv holds by (auto simp: smp_inv_def)
  then have "int (card (held g c - {lk})) = int (card (held g c)) - 1"
    using card_Suc_Diff1 [OF fin, of lk] by simp
  with inv holds mem assms(2) cpu_ok_popped [OF ok pos] show ?thesis
    unfolding smp_inv_def put_def m by (auto simp: id)
qed

lemma smp_step_inv: "smp_step g h \<Longrightarrow> smp_inv g \<Longrightarrow> smp_inv h"
proof (induction rule: smp_step.induct)
  case (push g c m)
  then have m: "cpu m = pushed (cpus g c)" "locks m = shared g"
    by (auto simp: smp_run_simps)
  show ?case using push(1,3) unfolding smp_inv_def put_def m by auto
next
  case (pop g c k m)
  then have m: "cpu m = popped (cpus g c)" "locks m = shared g" and pos: "0 < ncli (cpus g c)"
    by (auto simp: smp_run_simps split: if_splits)
  have "cpu_ok (popped (cpus g c))"
    using pop(4) pos by (auto intro: cpu_ok_popped simp: smp_inv_def)
  then show ?case using pop(1,2,4) unfolding smp_inv_def put_def m by auto
next
  case (flag g c b)
  then show ?case by (auto simp: smp_inv_def cpu_ok_def)
qed (auto intro: smp_inv_acq smp_inv_wait smp_inv_win smp_inv_rel)

lemma smp_reach_inv: "smp_reach g \<Longrightarrow> smp_inv g"
  by (induction rule: smp_reach.induct) (auto intro: smp_inv_init smp_step_inv)

text \<open>C1. Mutual exclusion on a multiprocessor: in every state that any number of CPUs can reach by
  acquiring, spinning for and releasing locks, a lock is held by one CPU at most. Its holder has
  interrupts disabled, can always release it without a panic, and a second acquire by the holder is
  caught by the panic in \<open>acquire\<close> instead of spinning forever.\<close>

theorem spinlock_mutual_exclusion:
  assumes "smp_reach g" and "lk \<in> held g c"
  shows "(\<forall>d. lk \<in> held g d \<longrightarrow> d = c) \<and> \<not> fl_if (cpus g c) \<and>
    (\<exists>m. release lk (view c g) = Ret () m) \<and> acquire lk (view c g) = Panic ''acquire''"
proof -
  from assms(1) have inv: "smp_inv g" by (rule smp_reach_inv)
  then have ok: "cpu_ok (cpus g c)" and id: "cpu_id (cpus g c) = c" and fin: "finite (held g c)"
    by (simp_all add: smp_inv_def)
  have lk: "locked (shared g lk) \<noteq> 0" "lk_cpu (shared g lk) = Some c"
    using inv assms(2) by (auto simp: smp_inv_def)
  have "0 < card (held g c)" using fin assms(2) by (auto simp: card_gt_0_iff)
  moreover have "int (card (held g c)) \<le> ncli (cpus g c)" using inv by (simp add: smp_inv_def)
  ultimately have pos: "0 < ncli (cpus g c)" by linarith
  with ok have "\<not> fl_if (cpus g c)" by (simp add: cpu_ok_def)
  with inv lk pos show ?thesis by (auto simp: smp_inv_def smp_run_simps id)
qed

definition smp_demo :: smp where
  "smp_demo = (put 0 \<lparr>cpu = pushed (cpus smp_init 0),
     locks = (shared smp_init)(Lk_log := \<lparr>locked = 1, lk_cpu = Some 0\<rparr>)\<rparr> smp_init)
     \<lparr>held := (held smp_init)(0 := insert Lk_log {})\<rparr>"

theorem spinlock_mutual_exclusion_witness:
  "Lk_log \<in> held smp_demo 0 \<and> {d. Lk_log \<in> held smp_demo d} = {0} \<and>
   acquire Lk_log (view 0 smp_demo) = Panic ''acquire''"
proof -
  have "smp_step smp_init smp_demo"
    unfolding smp_demo_def
    using smp_step.acq [of smp_init 0 Lk_log "\<lparr>cpu = pushed (cpus smp_init 0),
      locks = (shared smp_init)(Lk_log := \<lparr>locked = 1, lk_cpu = Some 0\<rparr>)\<rparr>"]
    by (simp add: smp_init_def smp_run_simps)
  then have "smp_reach smp_demo" by (rule smp_reach.step [OF smp_reach.init])
  moreover have "Lk_log \<in> held smp_demo 0" by (simp add: smp_demo_def)
  ultimately show ?thesis using spinlock_mutual_exclusion [of smp_demo Lk_log 0] by auto
qed

end
