(* ===== verification/Mmu.thy ===== *)
theory Mmu
  imports Xv6_Prelude
begin

text \<open>
  The address-space constants and macros of \<open>memlayout.h\<close> and \<open>mmu.h\<close>: rounding to pages, the three
  parts of a virtual address, and the fields of a page table entry.
\<close>

section \<open>Definitions\<close>

definition KERNBASE :: uint where "KERNBASE = 0x80000000"
definition EXTMEM :: uint where "EXTMEM = 0x100000"
definition PHYSTOP :: uint where "PHYSTOP = 0xE000000"
definition DEVSPACE :: uint where "DEVSPACE = 0xFE000000"
definition KERNLINK :: uint where "KERNLINK = KERNBASE + EXTMEM"

definition V2P :: "uint \<Rightarrow> uint" where "V2P a = a - KERNBASE"
definition P2V :: "uint \<Rightarrow> uint" where "P2V a = a + KERNBASE"

definition PGSIZE :: uint where "PGSIZE = 4096"

definition PGROUNDUP :: "uint \<Rightarrow> uint" where
  "PGROUNDUP sz = (sz + PGSIZE - 1) AND NOT (PGSIZE - 1)"

definition PGROUNDDOWN :: "uint \<Rightarrow> uint" where
  "PGROUNDDOWN a = a AND NOT (PGSIZE - 1)"

definition PDX :: "uint \<Rightarrow> uint" where "PDX va = drop_bit 22 va AND 0x3FF"
definition PTX :: "uint \<Rightarrow> uint" where "PTX va = drop_bit 12 va AND 0x3FF"

definition PGADDR :: "uint \<Rightarrow> uint \<Rightarrow> uint \<Rightarrow> uint" where
  "PGADDR d t off = push_bit 22 d OR push_bit 12 t OR off"

definition PTE_P :: uint where "PTE_P = 1"
definition PTE_W :: uint where "PTE_W = 2"
definition PTE_U :: uint where "PTE_U = 4"
definition PTE_PS :: uint where "PTE_PS = 0x80"

definition PTE_ADDR :: "uint \<Rightarrow> uint" where "PTE_ADDR pte = pte AND NOT 0xFFF"
definition PTE_FLAGS :: "uint \<Rightarrow> uint" where "PTE_FLAGS pte = pte AND 0xFFF"

lemmas layout_defs = KERNBASE_def EXTMEM_def PHYSTOP_def DEVSPACE_def KERNLINK_def PGSIZE_def

section \<open>Masks as arithmetic\<close>

lemma mask12: "(0xFFF :: uint) = mask 12" and mask10: "(0x3FF :: uint) = mask 10"
  by (simp_all add: mask_eq_exp_minus_1)

lemma and_FFF: "(a :: uint) AND 0xFFF = a mod 4096"
  unfolding mask12 by (simp flip: take_bit_eq_mask add: take_bit_eq_mod)

lemma and_3FF: "(a :: uint) AND 0x3FF = take_bit 10 a"
  unfolding mask10 by (simp flip: take_bit_eq_mask)

lemma and_not_FFF: "(a :: uint) AND NOT 0xFFF = a - a mod 4096"
proof -
  have "a mod 4096 = take_bit 12 a" by (simp add: take_bit_eq_mod)
  moreover have "a - take_bit 12 a = a AND NOT (take_bit 12 a)"
    by (rule disjunctive_diff) (simp add: bit_take_bit_iff)
  ultimately have "a - a mod 4096 = a AND NOT (take_bit 12 a)" by simp
  also have "\<dots> = a AND NOT 0xFFF"
    unfolding mask12 by (rule bit_word_eqI) (auto simp: bit_simps)
  finally show ?thesis by simp
qed

lemma and_minus_4096: "(a :: uint) AND - 4096 = a - a mod 4096"
  using and_not_FFF [of a] by simp

lemma unat_mod_4096: "unat ((a :: uint) mod 4096) = unat a mod 4096"
  by (simp add: unat_mod_distrib)

lemma unat_round_down: "unat (a - (a :: uint) mod 4096) = unat a - unat a mod 4096"
proof -
  have "a mod 4096 \<le> a" by (simp add: word_le_nat_alt unat_mod_4096)
  then show ?thesis by (simp add: unat_sub unat_mod_4096)
qed

lemma PGROUNDDOWN_arith: "unat (PGROUNDDOWN a) = unat a - unat a mod 4096"
  by (simp add: PGROUNDDOWN_def PGSIZE_def and_minus_4096 unat_round_down)

lemma PGROUNDUP_arith:
  assumes "unat sz \<le> 2 ^ 32 - 4096"
  shows "unat (PGROUNDUP sz) = (unat sz + 4095) - (unat sz + 4095) mod 4096"
proof -
  have "unat (sz + 4095) = unat sz + 4095" using assms by (simp add: unat_word_ariths)
  then show ?thesis
    by (simp add: PGROUNDUP_def PGSIZE_def and_minus_4096 unat_round_down add.commute)
qed

lemma PGROUNDUP_bounds:
  assumes "unat sz \<le> 2 ^ 32 - 4096"
  shows "unat (PGROUNDUP sz) mod 4096 = 0" and "unat sz \<le> unat (PGROUNDUP sz)"
    and "unat (PGROUNDUP sz) < unat sz + 4096"
proof -
  have "4096 dvd (unat sz + 4095) - (unat sz + 4095) mod 4096" by (rule dvd_minus_mod)
  then show "unat (PGROUNDUP sz) mod 4096 = 0" by (simp add: PGROUNDUP_arith [OF assms])
  have "(unat sz + 4095) mod 4096 < 4096" by (rule mod_less_divisor) simp
  then show "unat sz \<le> unat (PGROUNDUP sz)" "unat (PGROUNDUP sz) < unat sz + 4096"
    unfolding PGROUNDUP_arith [OF assms] by linarith+
qed

section \<open>The parts of an address\<close>

lemma PDX_lt: "unat (PDX va) < 1024" and PTX_lt: "unat (PTX va) < 1024"
proof -
  have "unat (take_bit 10 w) < 1024" for w :: uint
    using take_bit_nat_less_exp [of 10 "unat w"] by (simp add: unsigned_take_bit_eq)
  then show "unat (PDX va) < 1024" "unat (PTX va) < 1024"
    by (simp_all add: PDX_def PTX_def and_3FF)
qed

lemma PGADDR_split: "PGADDR (PDX va) (PTX va) (va AND 0xFFF) = va"
proof (rule bit_word_eqI)
  fix n assume n: "n < LENGTH(32)"
  consider "n < 12" | "12 \<le> n" "n < 22" | "22 \<le> n" by linarith
  then show "bit (PGADDR (PDX va) (PTX va) (va AND 0xFFF)) n = bit va n"
    unfolding PGADDR_def PDX_def PTX_def and_3FF mask12
    using n by cases (auto simp: bit_simps)
qed

lemma PTE_split: "pte = PTE_ADDR pte OR PTE_FLAGS pte"
  unfolding PTE_ADDR_def PTE_FLAGS_def by (rule bit_word_eqI) (auto simp: bit_simps)

end
