(* ===== verification/Xstring.thy ===== *)
theory Xstring
  imports Xv6_Prelude
begin

text \<open>
  The kernel's string routines (\<open>string.c\<close>) over byte-addressed memory, with the \<open>rep stos\<close>
  loops of \<open>x86.h\<close> they call. Read-only pointers that are only followed forwards are functions from
  an offset to the byte there, so that the comparison routines apply to memory and to the fixed
  arrays inside kernel structures alike.
\<close>

section \<open>Definitions\<close>

text \<open>\<open>rep stosb\<close> and \<open>rep stosl\<close>: store \<open>cnt\<close> bytes or double words from \<open>addr\<close> upwards.\<close>

fun stosb :: "memory \<Rightarrow> uint \<Rightarrow> byte \<Rightarrow> nat \<Rightarrow> memory" where
  "stosb m addr d 0 = m"
| "stosb m addr d (Suc cnt) = stosb (m(addr := d)) (addr + 1) d cnt"

fun stosl :: "memory \<Rightarrow> uint \<Rightarrow> uint \<Rightarrow> nat \<Rightarrow> memory" where
  "stosl m addr d 0 = m"
| "stosl m addr d (Suc cnt) = stosl (store32 m addr d) (addr + 4) d cnt"

definition memset :: "memory \<Rightarrow> uint \<Rightarrow> uint \<Rightarrow> uint \<Rightarrow> memory" where
  "memset m dst c n =
     (if dst mod 4 = 0 \<and> n mod 4 = 0
      then let c = c AND 0xFF
           in stosl m dst (push_bit 24 c OR push_bit 16 c OR push_bit 8 c OR c) (unat (n div 4))
      else stosb m dst (ucast c) (unat n))"

text \<open>\<open>memcmp\<close> and \<open>strncmp\<close> return the difference of the first two bytes that differ.\<close>

fun memcmp :: "(nat \<Rightarrow> byte) \<Rightarrow> (nat \<Rightarrow> byte) \<Rightarrow> nat \<Rightarrow> int" where
  "memcmp s1 s2 0 = 0"
| "memcmp s1 s2 (Suc n) =
     (if s1 0 \<noteq> s2 0 then uint (s1 0) - uint (s2 0)
      else memcmp (\<lambda>i. s1 (Suc i)) (\<lambda>i. s2 (Suc i)) n)"

fun strncmp :: "(nat \<Rightarrow> byte) \<Rightarrow> (nat \<Rightarrow> byte) \<Rightarrow> nat \<Rightarrow> int" where
  "strncmp p q 0 = 0"
| "strncmp p q (Suc n) =
     (if p 0 \<noteq> 0 \<and> p 0 = q 0 then strncmp (\<lambda>i. p (Suc i)) (\<lambda>i. q (Suc i)) n
      else uint (p 0) - uint (q 0))"

text \<open>The two copying loops of \<open>memmove\<close>: upwards, and downwards from one past the end.\<close>

fun copy_up :: "memory \<Rightarrow> uint \<Rightarrow> uint \<Rightarrow> nat \<Rightarrow> memory" where
  "copy_up m s d 0 = m"
| "copy_up m s d (Suc n) = copy_up (m(d := m s)) (s + 1) (d + 1) n"

fun copy_down :: "memory \<Rightarrow> uint \<Rightarrow> uint \<Rightarrow> nat \<Rightarrow> memory" where
  "copy_down m s d 0 = m"
| "copy_down m s d (Suc n) = copy_down (m(d - 1 := m (s - 1))) (s - 1) (d - 1) n"

definition memmove :: "memory \<Rightarrow> uint \<Rightarrow> uint \<Rightarrow> uint \<Rightarrow> memory" where
  "memmove m d s n =
     (if s < d \<and> s + n > d then copy_down m (s + n) (d + n) (unat n) else copy_up m s d (unat n))"

fun strncpy_loop :: "memory \<Rightarrow> uint \<Rightarrow> uint \<Rightarrow> nat \<Rightarrow> memory" where
  "strncpy_loop m s t 0 = m"
| "strncpy_loop m s t (Suc n) =
     (let m' = m(s := m t)
      in if m t \<noteq> 0 then strncpy_loop m' (s + 1) (t + 1) n else stosb m' (s + 1) 0 n)"

definition strncpy :: "memory \<Rightarrow> uint \<Rightarrow> uint \<Rightarrow> int \<Rightarrow> memory" where
  "strncpy m s t n = strncpy_loop m s t (nat n)"

fun safestrcpy_loop :: "memory \<Rightarrow> uint \<Rightarrow> uint \<Rightarrow> nat \<Rightarrow> memory" where
  "safestrcpy_loop m s t 0 = m(s := 0)"
| "safestrcpy_loop m s t (Suc n) =
     (let m' = m(s := m t)
      in if m t \<noteq> 0 then safestrcpy_loop m' (s + 1) (t + 1) n else m'(s + 1 := 0))"

definition safestrcpy :: "memory \<Rightarrow> uint \<Rightarrow> uint \<Rightarrow> int \<Rightarrow> memory" where
  "safestrcpy m s t n = (if n \<le> 0 then m else safestrcpy_loop m s t (nat (n - 1)))"

text \<open>\<open>strlen\<close> runs until it meets a NUL; \<open>None\<close> is a string that never ends.\<close>

definition strlen :: "(nat \<Rightarrow> byte) \<Rightarrow> nat option" where
  "strlen s = while_option (\<lambda>n. s n \<noteq> 0) Suc 0"

text \<open>The same copies into a fixed array, as the kernel uses them on \<open>de.name\<close> and \<open>p->name\<close>:
  the bytes the routine leaves in the first \<open>n\<close> places of the destination. \<open>safestrcpy_bytes\<close>
  gets the old contents \<open>old\<close> of the array, since the bytes after the NUL stay.\<close>

fun strncpy_bytes :: "(nat \<Rightarrow> byte) \<Rightarrow> nat \<Rightarrow> byte list" where
  "strncpy_bytes t 0 = []"
| "strncpy_bytes t (Suc n) =
     (if t 0 \<noteq> 0 then t 0 # strncpy_bytes (\<lambda>i. t (Suc i)) n else replicate (Suc n) 0)"

fun safestrcpy_bytes :: "byte list \<Rightarrow> (nat \<Rightarrow> byte) \<Rightarrow> byte list" where
  "safestrcpy_bytes [] t = []"
| "safestrcpy_bytes [x] t = [0]"
| "safestrcpy_bytes (x # y # ys) t =
     (if t 0 \<noteq> 0 then t 0 # safestrcpy_bytes (y # ys) (\<lambda>i. t (Suc i)) else 0 # 0 # ys)"

section \<open>Writing a run of bytes\<close>

text \<open>The effect the routines are compared with: \<open>xs\<close> laid down from address \<open>a\<close>.\<close>

fun write_bytes :: "memory \<Rightarrow> uint \<Rightarrow> byte list \<Rightarrow> memory" where
  "write_bytes m a [] = m"
| "write_bytes m a (x # xs) = write_bytes (m(a := x)) (a + 1) xs"

definition read_bytes :: "memory \<Rightarrow> uint \<Rightarrow> nat \<Rightarrow> byte list" where
  "read_bytes m a n = map (\<lambda>i. m (a + of_nat i)) [0..<n]"

lemma length_read_bytes [simp]: "length (read_bytes m a n) = n"
  by (simp add: read_bytes_def)

lemma read_bytes_Suc: "read_bytes m a (Suc n) = m a # read_bytes m (a + 1) n"
  unfolding read_bytes_def upt_conv_Cons [OF zero_less_Suc] map_Suc_upt [symmetric]
  by (simp add: comp_def add.assoc)

text \<open>Offsets below \<open>2 ^ 32\<close> name distinct addresses.\<close>

lemma of_nat_inj32: "i < 2 ^ 32 \<Longrightarrow> j < 2 ^ 32 \<Longrightarrow> (of_nat i :: uint) = of_nat j \<longleftrightarrow> i = j"
  by (simp add: of_nat_inverse word_of_nat_eq_iff take_bit_nat_eq_self)

lemma addr_cases:
  fixes a b :: uint
  obtains i where "i < 2 ^ 32" and "b = a + of_nat i"
proof -
  have "b = a + of_nat (unat (b - a))" by simp
  moreover have "unat (b - a) < 2 ^ 32" using unsigned_less [of "b - a"] by simp
  ultimately show ?thesis using that by blast
qed

lemma write_bytes_apply:
  assumes "length xs \<le> 2 ^ 32" and "i < 2 ^ 32"
  shows "write_bytes m a xs (a + of_nat i) = (if i < length xs then xs ! i else m (a + of_nat i))"
  using assms
proof (induction xs arbitrary: m a i)
  case Nil
  then show ?case by simp
next
  case (Cons x xs)
  have len: "length xs \<le> 2 ^ 32" using Cons.prems by simp
  show ?case
  proof (cases i)
    case 0
    have "(a + 1) + of_nat (2 ^ 32 - 1) = a" by simp
    moreover have "\<not> 2 ^ 32 - 1 < length xs" using Cons.prems by simp
    ultimately have "write_bytes (m(a := x)) (a + 1) xs a = x"
      using Cons.IH [OF len, of "2 ^ 32 - 1" "m(a := x)" "a + 1"] by (metis fun_upd_same
        diff_less zero_less_one zero_less_numeral zero_less_power)
    then show ?thesis using 0 by simp
  next
    case (Suc k)
    have eq: "a + of_nat i = (a + 1) + of_nat k" by (simp add: Suc)
    have "a + of_nat i \<noteq> a"
      using of_nat_inj32 [of i 0] Cons.prems Suc by simp
    then have "(m(a := x)) ((a + 1) + of_nat k) = m (a + of_nat i)" by (simp add: eq)
    moreover have "write_bytes (m(a := x)) (a + 1) xs ((a + 1) + of_nat k) =
        (if k < length xs then xs ! k else (m(a := x)) ((a + 1) + of_nat k))"
      using Cons.prems Suc by (intro Cons.IH) auto
    ultimately show ?thesis unfolding eq by (simp add: Suc)
  qed
qed

lemma stosb_write: "stosb m a d n = write_bytes m a (replicate n d)"
  by (induction n arbitrary: m a) simp_all

lemma write_bytes_append:
  "write_bytes m a (xs @ ys) = write_bytes (write_bytes m a xs) (a + of_nat (length xs)) ys"
  by (induction xs arbitrary: m a) (simp_all add: add.assoc)

lemma store32_write: "store32 m a w = write_bytes m a (le32 w)"
  by (simp add: store32_def le32_def add.assoc)

lemma write_bytes_cong:
  "(\<And>i. i < length xs \<Longrightarrow> b \<noteq> a + of_nat i) \<Longrightarrow> write_bytes m a xs b = m b"
proof (induction xs arbitrary: m a)
  case Nil
  then show ?case by simp
next
  case (Cons x xs)
  from Cons.prems [of 0] have "b \<noteq> a" by simp
  moreover have "b \<noteq> (a + 1) + of_nat i" if "i < length xs" for i
    using Cons.prems [of "Suc i"] that by (simp add: add.assoc)
  ultimately show ?case using Cons.IH [of "a + 1"] by simp
qed

lemma write_bytes_swap:
  "(\<And>i. i < length xs \<Longrightarrow> b \<noteq> a + of_nat i) \<Longrightarrow>
   write_bytes (m(b := x)) a xs = (write_bytes m a xs)(b := x)"
proof (induction xs arbitrary: m a)
  case Nil
  then show ?case by simp
next
  case (Cons y ys)
  from Cons.prems [of 0] have "b \<noteq> a" by simp
  moreover have "b \<noteq> (a + 1) + of_nat i" if "i < length ys" for i
    using Cons.prems [of "Suc i"] that by (simp add: add.assoc)
  ultimately show ?case
    using Cons.IH [of "a + 1" "m(a := y)"] by (metis fun_upd_twist write_bytes.simps(2))
qed

lemma read_bytes_upd:
  "(\<And>i. i < n \<Longrightarrow> b \<noteq> a + of_nat i) \<Longrightarrow> read_bytes (m(b := x)) a n = read_bytes m a n"
  unfolding read_bytes_def by (intro map_cong) (auto simp: fun_upd_apply)

lemma read_bytes_snoc: "read_bytes m a (Suc n) = read_bytes m a n @ [m (a + of_nat n)]"
  by (simp add: read_bytes_def)

section \<open>memset and memmove\<close>

lemma le32_quad:
  assumes "d = (c :: uint) AND 0xFF"
  shows "le32 (push_bit 24 d OR push_bit 16 d OR push_bit 8 d OR d) = replicate 4 (ucast c)"
proof -
  have "d = take_bit 8 c" using assms by (simp add: take_bit_eq_mask mask_eq_exp_minus_1)
  then have d: "bit d i \<longleftrightarrow> bit c i \<and> i < 8" for i
    by (auto simp: bit_take_bit_iff)
  define w where "w = push_bit 24 d OR push_bit 16 d OR push_bit 8 d OR d"
  have q: "bit w (k + i) \<longleftrightarrow> bit c i" if "i < 8" "k = 0 \<or> k = 8 \<or> k = 16 \<or> k = 24" for i k
    using that unfolding w_def by (auto simp: bit_or_iff bit_push_bit_iff d)
  have "(ucast (drop_bit k w) :: byte) = ucast c" if "k = 0 \<or> k = 8 \<or> k = 16 \<or> k = 24" for k
    by (rule bit_word_eqI) (simp add: bit_ucast_iff bit_drop_bit_eq q that)
  from this [of 0] this [of 8] this [of 16] this [of 24] have "le32 w = replicate 4 (ucast c)"
    by (simp add: le32_def numeral_eq_Suc)
  then show ?thesis by (simp only: w_def)
qed

lemma stosl_write:
  "le32 w = replicate 4 d \<Longrightarrow> stosl m a w n = write_bytes m a (replicate (4 * n) d)"
proof (induction n arbitrary: m a)
  case 0
  then show ?case by simp
next
  case (Suc n)
  have "replicate (4 * Suc n) d = replicate 4 d @ replicate (4 * n) d"
    by (metis mult_Suc_right replicate_add)
  then show ?case
    using Suc by (simp add: write_bytes_append store32_write del: replicate.simps)
qed


lemma memset_write: "memset m dst c n = write_bytes m dst (replicate (unat n) (ucast c))"
proof (cases "dst mod 4 = 0 \<and> n mod 4 = 0")
  case True
  then have "unat (n mod 4) = 0" by simp
  then have "unat n mod 4 = 0" by (simp add: unat_mod_distrib)
  then have "4 * unat (n div 4) = unat n" by (auto simp: unat_div_distrib)
  with True show ?thesis
    unfolding memset_def Let_def stosl_write [OF le32_quad [OF refl]] by simp
next
  case False
  then show ?thesis by (auto simp: memset_def stosb_write)
qed

lemma copy_up_write:
  "(\<And>i j. i < j \<Longrightarrow> j < n \<Longrightarrow> d + of_nat i \<noteq> s + of_nat j) \<Longrightarrow>
   copy_up m s d n = write_bytes m d (read_bytes m s n)"
proof (induction n arbitrary: m s d)
  case 0
  then show ?case by (simp add: read_bytes_def)
next
  case (Suc n)
  have "read_bytes (m(d := m s)) (s + 1) n = read_bytes m (s + 1) n"
    using Suc.prems [of 0] by (intro read_bytes_upd) (force simp: add.assoc)
  moreover have "d + 1 + of_nat i \<noteq> s + 1 + of_nat j" if "i < j" "j < n" for i j
    using Suc.prems [of "Suc i" "Suc j"] that by (simp add: add.assoc)
  ultimately show ?case using Suc.IH [of "d + 1" "s + 1"] by (simp add: read_bytes_Suc)
qed

lemma copy_down_write:
  "n \<le> 2 ^ 32 \<Longrightarrow> (\<And>i j. i < j \<Longrightarrow> j < n \<Longrightarrow> d + of_nat j \<noteq> s + of_nat i) \<Longrightarrow>
   copy_down m (s + of_nat n) (d + of_nat n) n = write_bytes m d (read_bytes m s n)"
proof (induction n arbitrary: m)
  case 0
  then show ?case by (simp add: read_bytes_def)
next
  case (Suc n)
  let ?m = "m(d + of_nat n := m (s + of_nat n))"
  have "copy_down m (s + of_nat (Suc n)) (d + of_nat (Suc n)) (Suc n) =
      copy_down ?m (s + of_nat n) (d + of_nat n) n"
    by (simp add: add.commute add.left_commute)
  also have "\<dots> = write_bytes ?m d (read_bytes ?m s n)"
    using Suc.prems by (intro Suc.IH) auto
  also have "read_bytes ?m s n = read_bytes m s n"
    using Suc.prems by (intro read_bytes_upd) auto
  also have "write_bytes ?m d (read_bytes m s n) =
      (write_bytes m d (read_bytes m s n))(d + of_nat n := m (s + of_nat n))"
    using Suc.prems(1) by (intro write_bytes_swap) (auto simp: of_nat_inj32)
  finally show ?case by (simp add: read_bytes_snoc write_bytes_append)
qed

lemma memmove_write:
  assumes "unat s + unat n < 2 ^ 32" and "unat d + unat n \<le> 2 ^ 32"
  shows "memmove m d s n = write_bytes m d (read_bytes m s (unat n))"
proof -
  have us: "unat (s + of_nat i) = unat s + i" and ud: "unat (d + of_nat i) = unat d + i"
    if "i < unat n" for i
    using assms that by (simp_all add: unat_word_ariths unat_of_nat)
  have sn: "unat (s + n) = unat s + unat n" using assms(1) by (simp add: unat_word_ariths)
  show ?thesis
  proof (cases "s < d \<and> s + n > d")
    case True
    then have lt: "unat s < unat d" by (simp add: word_less_nat_alt)
    have "d + of_nat j \<noteq> s + of_nat i" if "i < j" "j < unat n" for i j
    proof
      assume "d + of_nat j = s + of_nat i"
      then have "unat d + j = unat s + i" using us [of i] ud [of j] that by simp
      with lt that show False by simp
    qed
    then have "copy_down m (s + of_nat (unat n)) (d + of_nat (unat n)) (unat n) =
        write_bytes m d (read_bytes m s (unat n))"
      using assms by (intro copy_down_write) auto
    with True show ?thesis by (simp add: memmove_def)
  next
    case False
    then have "unat d \<le> unat s \<or> unat s + unat n \<le> unat d"
      using sn by (auto simp: word_less_nat_alt)
    then have "d + of_nat i \<noteq> s + of_nat j" if "i < j" "j < unat n" for i j
    proof -
      have "unat d + i \<noteq> unat s + j" using that \<open>unat d \<le> unat s \<or> unat s + unat n \<le> unat d\<close> by auto
      then show ?thesis using us [of j] ud [of i] that by auto
    qed
    with False show ?thesis by (auto simp: memmove_def copy_up_write)
  qed
qed

section \<open>String copies and comparisons\<close>

text \<open>The text of an array of \<open>n\<close> bytes: what comes before its first NUL.\<close>

definition ctext :: "(nat \<Rightarrow> byte) \<Rightarrow> nat \<Rightarrow> byte list" where
  "ctext p n = takeWhile (\<lambda>c. c \<noteq> 0) (map p [0..<n])"

lemma ctext_Suc: "ctext p (Suc n) = (if p 0 \<noteq> 0 then p 0 # ctext (\<lambda>i. p (Suc i)) n else [])"
  unfolding ctext_def upt_conv_Cons [OF zero_less_Suc] map_Suc_upt [symmetric]
  by (simp add: comp_def)

lemma ctext_0 [simp]: "ctext p 0 = []"
  by (simp add: ctext_def)

lemma uint_diff_0 [simp]: "uint (a :: byte) - uint b = 0 \<longleftrightarrow> a = b"
  by (simp add: word_uint_eq_iff)

lemma strncmp_zero_iff: "strncmp p q n = 0 \<longleftrightarrow> ctext p n = ctext q n"
proof (induction n arbitrary: p q)
  case 0
  then show ?case by simp
next
  case (Suc n)
  have "uint (p 0) - uint (q 0) = 0 \<longleftrightarrow> p 0 = q 0" by (rule uint_diff_0)
  with Suc show ?case
    by (cases "p 0 \<noteq> 0 \<and> p 0 = q 0") (auto simp: ctext_Suc word_uint_eq_iff)
qed

lemma memcmp_zero_iff: "memcmp p q n = 0 \<longleftrightarrow> (\<forall>i<n. p i = q i)"
proof (induction n arbitrary: p q)
  case 0
  then show ?case by simp
next
  case (Suc n)
  have "uint (p 0) - uint (q 0) = 0 \<longleftrightarrow> p 0 = q 0" by (rule uint_diff_0)
  with Suc show ?case
    by (cases "p 0 = q 0") (auto simp: less_Suc_eq_0_disj simp del: right_minus_eq)
qed

lemma length_strncpy_bytes [simp]: "length (strncpy_bytes t n) = n"
  by (induction n arbitrary: t) simp_all

lemma strncpy_bytes_ctext:
  "strncpy_bytes t n = ctext t n @ replicate (n - length (ctext t n)) 0"
  by (induction n arbitrary: t) (simp_all add: ctext_Suc)

lemma ctext_strncpy_bytes: "ctext (\<lambda>i. strncpy_bytes t n ! i) n = ctext t n"
proof -
  have "map ((!) (strncpy_bytes t n)) [0..<n] = strncpy_bytes t n"
    using map_nth [of "strncpy_bytes t n"] by simp
  moreover have "takeWhile (\<lambda>c. c \<noteq> 0) (ctext t n @ replicate k 0) = ctext t n" for k
  proof -
    have "\<forall>c \<in> set (ctext t n). c \<noteq> 0" by (auto simp: ctext_def dest: set_takeWhileD)
    then show ?thesis by (cases k) (simp_all add: takeWhile_append2)
  qed
  ultimately show ?thesis unfolding ctext_def [of "\<lambda>i. strncpy_bytes t n ! i"]
    by (metis strncpy_bytes_ctext)
qed

lemma length_safestrcpy_bytes [simp]: "length (safestrcpy_bytes old t) = length old"
  by (induction old t rule: safestrcpy_bytes.induct) simp_all

text \<open>The result of \<open>safestrcpy\<close> always holds a NUL, and its text is that of the source, cut to fit.\<close>

lemma ctext_Cons: "ctext (\<lambda>i. (x # xs) ! i) (Suc n) = (if x \<noteq> 0 then x # ctext (\<lambda>i. xs ! i) n else [])"
  by (simp add: ctext_Suc)

lemma safestrcpy_bytes_text:
  "old \<noteq> [] \<Longrightarrow> 0 \<in> set (safestrcpy_bytes old t) \<and>
   ctext (\<lambda>i. safestrcpy_bytes old t ! i) (length old) = ctext t (length old - 1)"
proof (induction old t rule: safestrcpy_bytes.induct)
  case (1 t)
  then show ?case by simp
next
  case (2 x t)
  then show ?case by (simp add: ctext_Suc)
next
  case (3 x y ys t)
  then show ?case by (simp add: ctext_Suc)
qed

lemma strncpy_bytes_cong:
  "(\<And>i. i < n \<Longrightarrow> p i = q i) \<Longrightarrow> strncpy_bytes p n = strncpy_bytes q n"
proof (induction n arbitrary: p q)
  case 0
  then show ?case by simp
next
  case (Suc n)
  have "strncpy_bytes (\<lambda>i. p (Suc i)) n = strncpy_bytes (\<lambda>i. q (Suc i)) n"
    using Suc.prems by (intro Suc.IH) simp
  then show ?case using Suc.prems [of 0] by simp
qed

text \<open>The memory routines write exactly those bytes when the source is not overwritten on the way.\<close>

lemma strncpy_loop_write:
  "(\<And>i j. i < j \<Longrightarrow> j < n \<Longrightarrow> s + of_nat i \<noteq> t + of_nat j) \<Longrightarrow>
   strncpy_loop m s t n = write_bytes m s (strncpy_bytes (\<lambda>i. m (t + of_nat i)) n)"
proof (induction n arbitrary: m s t)
  case 0
  then show ?case by simp
next
  case (Suc n)
  have "s \<noteq> t + 1 + of_nat i" if "i < n" for i
    using Suc.prems [of 0 "Suc i"] that by (simp add: add.assoc)
  then have eq: "strncpy_bytes (\<lambda>i. (m(s := m t)) (t + 1 + of_nat i)) n =
      strncpy_bytes (\<lambda>i. m (t + (1 + of_nat i))) n"
    by (intro strncpy_bytes_cong) (force simp: add.assoc)
  have "s + 1 + of_nat i \<noteq> t + 1 + of_nat j" if "i < j" "j < n" for i j
    using Suc.prems [of "Suc i" "Suc j"] that by (simp add: add.assoc)
  then have "strncpy_loop (m(s := m t)) (s + 1) (t + 1) n =
      write_bytes (m(s := m t)) (s + 1) (strncpy_bytes (\<lambda>i. (m(s := m t)) (t + 1 + of_nat i)) n)"
    by (rule Suc.IH)
  then show ?case unfolding eq by (simp add: Let_def stosb_write)
qed

lemma strlen_ctext:
  assumes "s k = 0"
  shows "\<exists>n\<le>k. strlen s = Some n \<and> s n = 0 \<and> (\<forall>i<n. s i \<noteq> 0)"
proof -
  define n where "n = (LEAST n. s n = 0)"
  have n: "s n = 0" unfolding n_def using assms by (rule LeastI)
  have lt: "s i \<noteq> 0" if "i < n" for i using that unfolding n_def by (rule not_less_Least)
  have le: "n \<le> k" unfolding n_def using assms by (rule Least_le)
  have "while_option (\<lambda>n. s n \<noteq> 0) Suc i = Some n" if "i \<le> n" for i
    using that
  proof (induction "n - i" arbitrary: i)
    case 0
    then show ?case using n by (simp add: while_option_unfold)
  next
    case (Suc d)
    then have "s i \<noteq> 0" by (intro lt) simp
    with Suc show ?case by (subst while_option_unfold) simp
  qed
  then have "strlen s = Some n" by (simp add: strlen_def)
  with n lt le show ?thesis by blast
qed

section \<open>What the block routines do\<close>

lemma memmove_bytes:
  assumes "unat s + unat n < 2 ^ 32" and "unat d + unat n \<le> 2 ^ 32"
  shows "i < unat n \<Longrightarrow> memmove m d s n (d + of_nat i) = m (s + of_nat i)"
    and "(\<And>i. i < unat n \<Longrightarrow> a \<noteq> d + of_nat i) \<Longrightarrow> memmove m d s n a = m a"
proof -
  note eq = memmove_write [OF assms, of m]
  have len: "length (read_bytes m s (unat n)) \<le> 2 ^ 32" using assms(1) by simp
  show "memmove m d s n (d + of_nat i) = m (s + of_nat i)" if "i < unat n" for i
    unfolding eq using write_bytes_apply [OF len, of i] that assms(1) by (simp add: read_bytes_def)
  show "memmove m d s n a = m a" if "\<And>i. i < unat n \<Longrightarrow> a \<noteq> d + of_nat i" for a
  proof -
    obtain i where i: "i < 2 ^ 32" "a = d + of_nat i" by (rule addr_cases)
    then show ?thesis unfolding eq using write_bytes_apply [OF len, of i] that by auto
  qed
qed

text \<open>C36. \<open>memmove\<close> copies as if through a temporary buffer: every destination byte gets what the source byte held before
  the call, however the two areas overlap, and no other byte changes.\<close>

theorem memmove_overlap:
  assumes "unat s + unat n < 2 ^ 32" and "unat d + unat n \<le> 2 ^ 32"
  shows "(\<forall>i < unat n. memmove m d s n (d + of_nat i) = m (s + of_nat i)) \<and>
    (\<forall>a. (\<forall>i < unat n. a \<noteq> d + of_nat i) \<longrightarrow> memmove m d s n a = m a)"
  using memmove_bytes [OF assms, where m = m] by blast

theorem memmove_overlap_witness:
  "memmove (\<lambda>a. ucast a) 102 100 4 105 = 103 \<and> memmove (\<lambda>a. ucast a) 100 102 4 101 = 103 \<and>
   memmove (\<lambda>a. ucast a) 100 102 4 104 = 104"
proof -
  have ne: "(100 :: uint) + 4 \<noteq> 100 + of_nat i" if "i < 4" for i
    using that of_nat_inj32 [of 4 i] by (simp del: add_numeral_left numeral_plus_numeral)
  have up: "\<forall>i < 4. memmove (\<lambda>a. ucast a) 102 100 4 (102 + of_nat i) = (ucast ((100 :: uint) + of_nat i) :: byte)"
    using memmove_overlap [of 100 4 102 "\<lambda>a. ucast a"] by simp
  have down: "\<forall>i < 4. memmove (\<lambda>a. ucast a) 100 102 4 (100 + of_nat i) = (ucast ((102 :: uint) + of_nat i) :: byte)"
    and rest: "\<forall>a. (\<forall>i < 4. a \<noteq> 100 + of_nat i) \<longrightarrow> memmove (\<lambda>a. ucast a) 100 102 4 a = (ucast a :: byte)"
    using memmove_overlap [of 102 4 100 "\<lambda>a. ucast a"] by simp_all
  show ?thesis using up [rule_format, of 3] down [rule_format, of 1] rest [rule_format, of "100 + 4", OF ne] by simp
qed

text \<open>C37. \<open>memset\<close>, which stores double words when address and length allow it, has the effect of storing the bytes
  one at a time.\<close>

theorem memset_bytewise: "memset m dst c n = stosb m dst (ucast c) (unat n)"
  by (simp only: memset_write stosb_write)

end
