(* ===== verification/Kalloc.thy ===== *)
theory Kalloc
  imports Spinlock Mmu Xstring "HOL-Library.Multiset"
begin

text \<open>
  The physical page allocator (\<open>kalloc.c\<close>). Free pages form a list threaded through the pages
  themselves: the first word of a free page is the address of the next one. The model keeps that
  list in byte-addressed memory, as the code does, and the lemmas relate it to an abstract stack of
  pages.

  \<open>page_pool\<close> is the interface the rest of the kernel relies on, and \<open>kalloc\<close> and \<open>kfree\<close> are shown
  to provide it.
\<close>

section \<open>State and operations\<close>

text \<open>\<open>kmem\<close> and the memory it manages. \<open>kend\<close> is the linker symbol \<open>end\<close>, the first address after
  the kernel image; nothing writes it.\<close>

record kmem_state = machine +
  mem :: memory
  use_lock :: bool
  freelist :: uint
  kend :: uint

definition kfree :: "uint \<Rightarrow> ('z kmem_state_scheme, unit) kern" where
  "kfree v = block [
     \<lambda>s. whenk (v mod PGSIZE \<noteq> 0 \<or> v < kend s \<or> V2P v \<ge> PHYSTOP) (kpanic ''kfree'') s,
     modify (\<lambda>s. s\<lparr>mem := memset (mem s) v 1 PGSIZE\<rparr>),
     \<lambda>s. whenk (use_lock s) (acquire Lk_kmem) s,
     modify (\<lambda>s. s\<lparr>mem := store32 (mem s) v (freelist s)\<rparr>),
     modify (\<lambda>s. s\<lparr>freelist := v\<rparr>),
     \<lambda>s. whenk (use_lock s) (release Lk_kmem) s]"

definition kalloc :: "('z kmem_state_scheme, uint) kern" where
  "kalloc =
     bnd (\<lambda>s. whenk (use_lock s) (acquire Lk_kmem) s) (\<lambda>_.
     bnd (gets freelist) (\<lambda>r.
     bnd (whenk (r \<noteq> 0) (modify (\<lambda>s. s\<lparr>freelist := load32 (mem s) r\<rparr>))) (\<lambda>_.
     bnd (\<lambda>s. whenk (use_lock s) (release Lk_kmem) s) (\<lambda>_.
     ret r))))"

text \<open>The addresses \<open>p\<close> runs through in \<open>for(; p + PGSIZE <= vend; p += PGSIZE)\<close>; the loop ends when
  \<open>p + PGSIZE\<close> would pass the top of the address space.\<close>

function page_range :: "uint \<Rightarrow> uint \<Rightarrow> uint list" where
  "page_range p vend =
     (if p < p + PGSIZE \<and> p + PGSIZE \<le> vend then p # page_range (p + PGSIZE) vend else [])"
  by pat_completeness auto
termination
  by (relation "measure (\<lambda>(p, vend). unat vend - unat p)")
    (auto simp: word_less_nat_alt word_le_nat_alt)

declare page_range.simps [simp del]

definition freerange :: "uint \<Rightarrow> uint \<Rightarrow> ('z kmem_state_scheme, unit) kern" where
  "freerange vstart vend = foreach kfree (page_range (PGROUNDUP vstart) vend)"

definition kinit1 :: "uint \<Rightarrow> uint \<Rightarrow> ('z kmem_state_scheme, unit) kern" where
  "kinit1 vstart vend = block [
     initlock Lk_kmem,
     modify (\<lambda>s. s\<lparr>use_lock := False\<rparr>),
     freerange vstart vend]"

definition kinit2 :: "uint \<Rightarrow> uint \<Rightarrow> ('z kmem_state_scheme, unit) kern" where
  "kinit2 vstart vend = block [
     freerange vstart vend,
     modify (\<lambda>s. s\<lparr>use_lock := True\<rparr>)]"

section \<open>The free list in memory\<close>

text \<open>\<open>chain m p xs\<close>: following \<open>run->next\<close> from \<open>p\<close> visits exactly \<open>xs\<close> and ends at the null pointer.\<close>

fun chain :: "memory \<Rightarrow> uint \<Rightarrow> uint list \<Rightarrow> bool" where
  "chain m p [] \<longleftrightarrow> p = 0"
| "chain m p (x # xs) \<longleftrightarrow> p = x \<and> x \<noteq> 0 \<and> chain m (load32 m x) xs"

text \<open>A page the allocator may hand out: aligned, after the kernel image, below \<open>PHYSTOP\<close>.\<close>

definition page_ok :: "uint \<Rightarrow> uint \<Rightarrow> bool" where
  "page_ok e v \<longleftrightarrow> v mod PGSIZE = 0 \<and> e \<le> v \<and> V2P v < PHYSTOP"

definition free_list :: "'z kmem_state_scheme \<Rightarrow> uint list \<Rightarrow> bool" where
  "free_list s xs \<longleftrightarrow>
     chain (mem s) (freelist s) xs \<and> distinct xs \<and> (\<forall>x \<in> set xs. page_ok (kend s) x)"

text \<open>The bytes of the page at \<open>v\<close>.\<close>

definition in_page :: "uint \<Rightarrow> uint \<Rightarrow> bool" where
  "in_page v a \<longleftrightarrow> a - v < PGSIZE"

lemma page_ok_high: "page_ok e v \<Longrightarrow> KERNBASE \<le> v"
  unfolding page_ok_def V2P_def layout_defs
  by (cases "unat v < 2147483648")
    (auto simp: word_le_nat_alt word_less_nat_alt unat_sub_if_size word_size)

lemma page_ok_nz: "page_ok e v \<Longrightarrow> v \<noteq> 0"
  using page_ok_high [of e v] by (auto simp: KERNBASE_def)

lemma in_page_offset: "k < 4096 \<Longrightarrow> in_page v (v + of_nat k)"
  by (simp add: in_page_def PGSIZE_def word_less_nat_alt unat_of_nat)

lemma aligned_top: "(v :: uint) mod PGSIZE = 0 \<Longrightarrow> unat v \<le> 2 ^ 32 - 4096"
proof -
  assume "v mod PGSIZE = 0"
  then have "unat v mod 4096 = 0" by (metis PGSIZE_def unat_0 unat_mod_4096)
  then obtain k where k: "unat v = 4096 * k" by auto
  have "unat v < 2 ^ 32" using unat_lt32 [of v] by simp
  with k have "k \<le> 2 ^ 20 - 1" by simp
  with k show ?thesis by simp
qed

lemma in_page_unat:
  assumes "v mod PGSIZE = 0"
  shows "in_page v a \<longleftrightarrow> unat v \<le> unat a \<and> unat a < unat v + 4096"
  using aligned_top [OF assms] unat_lt32 [of a]
  by (auto simp: in_page_def PGSIZE_def word_less_nat_alt unat_sub_if_size word_size)

lemma pages_disjoint:
  assumes "v mod PGSIZE = 0" and "w mod PGSIZE = 0" and "v \<noteq> w" and "in_page v a"
  shows "\<not> in_page w a"
proof
  assume "in_page w a"
  have vm: "unat v mod 4096 = 0" and wm: "unat w mod 4096 = 0"
    using assms(1,2) by (metis PGSIZE_def unat_0 unat_mod_4096)+
  obtain i where "unat v = 4096 * i" using vm by auto
  moreover obtain j where "unat w = 4096 * j" using wm by auto
  ultimately have "i = j"
    using assms(4) \<open>in_page w a\<close> unfolding in_page_unat [OF assms(1)] in_page_unat [OF assms(2)] by simp
  with \<open>unat v = 4096 * i\<close> \<open>unat w = 4096 * j\<close> have "unat v = unat w" by simp
  with assms(3) show False by (simp only: word_unat_eq_iff)
qed

lemma first_word_in_page: "in_page v v" "in_page v (v + 1)" "in_page v (v + 2)" "in_page v (v + 3)"
  using in_page_offset [of 0 v] in_page_offset [of 1 v] in_page_offset [of 2 v]
    in_page_offset [of 3 v]
  by simp_all

lemma load32_page_cong:
  "(\<And>a. in_page x a \<Longrightarrow> m a = m' a) \<Longrightarrow> load32 m x = load32 m' x"
  by (rule load32_cong) (simp_all add: first_word_in_page)

lemma chain_cong:
  "(\<And>x. x \<in> set xs \<Longrightarrow> load32 m x = load32 m' x) \<Longrightarrow> chain m p xs = chain m' p xs"
  by (induction xs arbitrary: p) auto

lemma chain_unique: "chain m p xs \<Longrightarrow> chain m p ys \<Longrightarrow> xs = ys"
proof (induction xs arbitrary: p ys)
  case Nil
  then show ?case by (cases ys) auto
next
  case (Cons x xs)
  then show ?case by (cases ys) auto
qed

text \<open>What \<open>kfree\<close> leaves in memory: the page filled with ones but for the link in its first word.\<close>

definition kfreed :: "memory \<Rightarrow> uint \<Rightarrow> uint \<Rightarrow> memory" where
  "kfreed m v link = store32 (memset m v 1 PGSIZE) v link"

lemma kfreed_outside: "\<not> in_page v a \<Longrightarrow> kfreed m v link a = m a"
proof -
  assume a: "\<not> in_page v a"
  then have "a \<noteq> v" "a \<noteq> v + 1" "a \<noteq> v + 2" "a \<noteq> v + 3"
    using first_word_in_page by blast+
  then have "kfreed m v link a = memset m v 1 PGSIZE a"
    by (simp add: kfreed_def store32_other)
  also have "\<dots> = m a"
    unfolding memset_write
    by (rule write_bytes_cong) (use a in_page_offset in \<open>auto simp: PGSIZE_def\<close>)
  finally show ?thesis .
qed

lemma load32_kfreed [simp]: "load32 (kfreed m v link) v = link"
  by (simp add: kfreed_def)

lemma chain_kfreed:
  assumes "page_ok e v" and "v \<notin> set xs" and "\<forall>x \<in> set xs. page_ok e x" and "chain m p xs"
  shows "chain (kfreed m v link) p xs"
proof -
  have "load32 (kfreed m v link) x = load32 m x" if "x \<in> set xs" for x
  proof (rule load32_page_cong)
    fix a assume "in_page x a"
    then have "\<not> in_page v a"
      using assms(1-3) that by (intro pages_disjoint [of x v]) (auto simp: page_ok_def)
    then show "kfreed m v link a = m a" by (rule kfreed_outside)
  qed
  then show ?thesis using assms(4) chain_cong [of xs "kfreed m v link" m p] by blast
qed

section \<open>Contracts\<close>

text \<open>\<open>kmem_ready\<close>: the allocator's lock is free and the CPU's interrupt nesting is sound, so that a
  call neither panics nor spins on the lock.\<close>

definition kmem_ready :: "'z kmem_state_scheme \<Rightarrow> bool" where
  "kmem_ready s \<longleftrightarrow> idle Lk_kmem s \<and> cpu_ok (cpu s)"

text \<open>The state after a call that took and released the lock.\<close>

definition kmem_exit :: "'z kmem_state_scheme \<Rightarrow> 'z kmem_state_scheme" where
  "kmem_exit s = (if use_lock s then s\<lparr>cpu := settle (cpu s)\<rparr> else s)"

lemma kmem_exit_simps [simp]:
  "mem (kmem_exit s) = mem s" "use_lock (kmem_exit s) = use_lock s"
  "freelist (kmem_exit s) = freelist s" "kend (kmem_exit s) = kend s"
  "locks (kmem_exit s) = locks s" "kmem_ready (kmem_exit s) = kmem_ready s"
  "cpu_ok (cpu (kmem_exit s)) = cpu_ok (cpu s)"
  by (simp_all add: kmem_exit_def kmem_ready_def)

lemma kfree_run:
  assumes "kmem_ready s"
  shows "kfree v s =
    (if page_ok (kend s) v
     then Ret () ((kmem_exit s)\<lparr>mem := kfreed (mem s) v (freelist s), freelist := v\<rparr>)
     else Panic ''kfree'')"
proof -
  have i: "idle Lk_kmem s" "cpu_ok (cpu s)" using assms by (simp_all add: kmem_ready_def)
  show ?thesis
  proof (cases "page_ok (kend s) v")
    case True
    then have "\<not> (v mod PGSIZE \<noteq> 0 \<or> v < kend s \<or> V2P v \<ge> PHYSTOP)"
      by (simp add: page_ok_def linorder_not_less linorder_not_le)
    then have "kfree v s = block (tl [skip,
        modify (\<lambda>s. s\<lparr>mem := memset (mem s) v 1 PGSIZE\<rparr>),
        \<lambda>s. whenk (use_lock s) (acquire Lk_kmem) s,
        modify (\<lambda>s. s\<lparr>mem := store32 (mem s) v (freelist s)\<rparr>),
        modify (\<lambda>s. s\<lparr>freelist := v\<rparr>),
        \<lambda>s. whenk (use_lock s) (release Lk_kmem) s]) s"
      by (simp only: kfree_def block.simps bnd_def whenk_def if_False list.sel res.case)
    with True i show ?thesis
      by (cases "use_lock s") (simp_all add: whenk_def bnd_def lock_run kmem_exit_def kfreed_def)
  next
    case False
    then have "v mod PGSIZE \<noteq> 0 \<or> v < kend s \<or> V2P v \<ge> PHYSTOP"
      by (auto simp: page_ok_def linorder_not_less linorder_not_le)
    with False show ?thesis
      by (simp only: kfree_def block.simps bnd_def whenk_def if_True kpanic_apply res.case if_False)
  qed
qed

lemma kalloc_run:
  assumes "kmem_ready s"
  shows "kalloc s = Ret (freelist s)
    (if freelist s = 0 then kmem_exit s
     else (kmem_exit s)\<lparr>freelist := load32 (mem s) (freelist s)\<rparr>)"
proof -
  have i: "idle Lk_kmem s" "cpu_ok (cpu s)" using assms by (simp_all add: kmem_ready_def)
  show ?thesis
    unfolding kalloc_def whenk_def
    by (cases "freelist s = 0"; cases "use_lock s")
      (use i in \<open>simp_all add: bnd_def lock_run kmem_exit_def\<close>)
qed

text \<open>All that a user of the allocator may change: memory, the free list, and the saved interrupt flag.\<close>

definition mem_only :: "'z kmem_state_scheme \<Rightarrow> 'z kmem_state_scheme \<Rightarrow> bool" where
  "mem_only s t \<longleftrightarrow> (\<exists>b m f. t = s\<lparr>cpu := (cpu s)\<lparr>intena := b\<rparr>, mem := m, freelist := f\<rparr>)"

lemma mem_onlyI: "t = s\<lparr>cpu := (cpu s)\<lparr>intena := b\<rparr>, mem := m, freelist := f\<rparr> \<Longrightarrow> mem_only s t"
  unfolding mem_only_def by (rule exI [of _ b], rule exI [of _ m], rule exI [of _ f])

lemma mem_only_refl [simp]: "mem_only s s"
  by (rule mem_onlyI [where b = "intena (cpu s)" and m = "mem s" and f = "freelist s"]) simp

lemma mem_only_trans: "mem_only s t \<Longrightarrow> mem_only t u \<Longrightarrow> mem_only s u"
  unfolding mem_only_def [of s t] mem_only_def [of t u] by (elim exE) (rule mem_onlyI, simp)

lemma mem_only_upd: "mem_only s t \<Longrightarrow> mem_only s (t\<lparr>mem := m\<rparr>)" "mem_only s t \<Longrightarrow> mem_only s (t\<lparr>freelist := f\<rparr>)"
proof -
  have "mem_only t (t\<lparr>mem := m\<rparr>)"
    by (rule mem_onlyI [where b = "intena (cpu t)" and m = m and f = "freelist t"]) simp
  then show "mem_only s t \<Longrightarrow> mem_only s (t\<lparr>mem := m\<rparr>)" by (rule mem_only_trans [rotated])
  have "mem_only t (t\<lparr>freelist := f\<rparr>)"
    by (rule mem_onlyI [where b = "intena (cpu t)" and m = "mem t" and f = f]) simp
  then show "mem_only s t \<Longrightarrow> mem_only s (t\<lparr>freelist := f\<rparr>)" by (rule mem_only_trans [rotated])
qed

lemma mem_only_exit: "mem_only s t \<Longrightarrow> mem_only s (kmem_exit t)"
proof -
  have "mem_only t (kmem_exit t)"
    by (rule mem_onlyI [where b = "intena (cpu (kmem_exit t))" and m = "mem t" and f = "freelist t"]) (simp add: kmem_exit_def settle_def)
  then show "mem_only s t \<Longrightarrow> mem_only s (kmem_exit t)" by (rule mem_only_trans [rotated])
qed

lemma mem_only_kend: "mem_only s t \<Longrightarrow> kend t = kend s"
  by (auto simp: mem_only_def)

text \<open>The two calls on the abstract free list.\<close>

definition pool :: "'z kmem_state_scheme \<Rightarrow> uint list \<Rightarrow> bool" where
  "pool s xs \<longleftrightarrow> kmem_ready s \<and> free_list s xs"

lemma free_list_Nil: "free_list s [] \<longleftrightarrow> freelist s = 0"
  by (simp add: free_list_def)

lemma kalloc_empty: "pool s [] \<Longrightarrow> kalloc s = Ret 0 (kmem_exit s)"
  by (simp add: pool_def kalloc_run free_list_Nil)

lemma kalloc_Cons:
  assumes "pool s (x # xs)"
  shows "\<exists>s'. kalloc s = Ret x s' \<and> pool s' xs \<and> mem s' = mem s \<and> kend s' = kend s \<and> mem_only s s'"
  using assms page_ok_nz mem_only_upd(2) [OF mem_only_exit [OF mem_only_refl], of s]
  by (auto simp: pool_def kalloc_run free_list_def kmem_ready_def)

lemma kfree_pool:
  assumes "pool s xs" and "page_ok (kend s) v" and "v \<notin> set xs"
  shows "\<exists>s'. kfree v s = Ret () s' \<and> pool s' (v # xs) \<and> kend s' = kend s \<and>
    (\<forall>a. \<not> in_page v a \<longrightarrow> mem s' a = mem s a) \<and> mem_only s s'"
  using assms page_ok_nz [OF assms(2)] chain_kfreed [OF assms(2,3)]
    mem_only_upd(2) [OF mem_only_upd(1) [OF mem_only_exit [OF mem_only_refl]], of s]
  by (auto simp: pool_def kfree_run free_list_def kmem_ready_def kfreed_outside)

section \<open>The interface: a pool of pages\<close>

text \<open>A client of the allocator: it asks for pages and gives back, by position, pages it owns.\<close>

datatype pool_op = Take_page | Give_page nat

fun pool_run ::
  "('s, uint) kern \<Rightarrow> (uint \<Rightarrow> ('s, unit) kern) \<Rightarrow> pool_op list \<Rightarrow> uint list \<Rightarrow> ('s, uint list) kern"
where
  "pool_run alloc dealloc [] owned = ret owned"
| "pool_run alloc dealloc (Take_page # ops) owned =
     bnd alloc (\<lambda>r. pool_run alloc dealloc ops (if r = 0 then owned else r # owned))"
| "pool_run alloc dealloc (Give_page k # ops) owned =
     (if k < length owned
      then bnd (dealloc (owned ! k))
        (\<lambda>_. pool_run alloc dealloc ops (take k owned @ drop (Suc k) owned))
      else pool_run alloc dealloc ops owned)"

lemma mset_drop_nth:
  "k < length xs \<Longrightarrow> mset (take k xs @ drop (Suc k) xs) + {#xs ! k#} = mset xs"
  by (metis id_take_nth_drop mset.simps(2) mset_append union_mset_add_mset_right add_mset_add_single)

locale page_pool =
  fixes alloc :: "('s, uint) kern"
    and dealloc :: "uint \<Rightarrow> ('s, unit) kern"
    and free :: "'s \<Rightarrow> uint list \<Rightarrow> bool"
    and page :: "'s \<Rightarrow> uint \<Rightarrow> bool"
    and bytes :: "'s \<Rightarrow> memory"
  assumes free_page: "free s xs \<Longrightarrow> distinct xs \<and> (\<forall>x \<in> set xs. page s x)"
    and page_nz: "page s x \<Longrightarrow> x \<noteq> 0"
    and alloc_none: "free s [] \<Longrightarrow>
      wp alloc (\<lambda>r s'. r = 0 \<and> free s' [] \<and> page s' = page s \<and> bytes s' = bytes s) s"
    and alloc_some: "free s (x # xs) \<Longrightarrow>
      wp alloc (\<lambda>r s'. r = x \<and> free s' xs \<and> page s' = page s \<and> bytes s' = bytes s) s"
    and dealloc: "free s xs \<Longrightarrow> page s v \<Longrightarrow> v \<notin> set xs \<Longrightarrow>
      wp (dealloc v) (\<lambda>_ s'. free s' (v # xs) \<and> page s' = page s \<and>
        (\<forall>a. \<not> in_page v a \<longrightarrow> bytes s' a = bytes s a)) s"
begin

text \<open>Every page is at all times either free or owned by one client, whatever the client does.\<close>

lemma run_conserves:
  "free s xs \<Longrightarrow> distinct (owned @ xs) \<Longrightarrow> \<forall>x \<in> set owned. page s x \<Longrightarrow>
   wp (pool_run alloc dealloc ops owned)
     (\<lambda>owned' s'. \<exists>ys. free s' ys \<and> mset (owned' @ ys) = mset (owned @ xs)) s"
proof (induction ops arbitrary: owned s xs)
  case Nil
  then show ?case by (auto simp: wp_ret)
next
  case (Cons op ops)
  show ?case
  proof (cases op)
    case Take_page
    show ?thesis
    proof (cases xs)
      case Nil
      have "wp alloc (\<lambda>r s'. r = 0 \<and> free s' [] \<and> page s' = page s \<and> bytes s' = bytes s) s"
        using Cons.prems(1) Nil by (intro alloc_none) simp
      then show ?thesis
        unfolding Take_page pool_run.simps wp_bnd
        by (rule wp_mono) (use Cons.IH [of _ "[]" owned] Cons.prems Nil in simp)
    next
      case (Cons x ys)
      have x: "x \<noteq> 0" "page s x"
        using free_page [OF Cons.prems(1)] page_nz Cons by auto
      have "wp alloc (\<lambda>r s'. r = x \<and> free s' ys \<and> page s' = page s \<and> bytes s' = bytes s) s"
        using Cons.prems(1) Cons by (intro alloc_some) simp
      then show ?thesis
        unfolding Take_page pool_run.simps wp_bnd
        by (rule wp_mono) (use Cons.IH [of _ ys "x # owned"] Cons.prems Cons x in auto)
    qed
  next
    case (Give_page k)
    show ?thesis
    proof (cases "k < length owned")
      case True
      let ?rest = "take k owned @ drop (Suc k) owned"
      have m: "mset (?rest @ owned ! k # xs) = mset (owned @ xs)"
        using mset_drop_nth [OF True] by simp
      then have d: "distinct (?rest @ owned ! k # xs)"
        using Cons.prems(2) mset_eq_imp_distinct_iff by blast
      have r: "set ?rest \<subseteq> set owned" by (auto dest: in_set_takeD in_set_dropD)
      have "wp (dealloc (owned ! k)) (\<lambda>_ s'. free s' (owned ! k # xs) \<and> page s' = page s \<and>
          (\<forall>a. \<not> in_page (owned ! k) a \<longrightarrow> bytes s' a = bytes s a)) s"
        using Cons.prems d True by (intro dealloc) auto
      then show ?thesis
        unfolding Give_page pool_run.simps wp_bnd if_P [OF True] m [symmetric]
        by (rule wp_mono) (rule Cons.IH [OF _ d], use Cons.prems(3) r in auto)
    next
      case False
      then show ?thesis using Cons by (simp add: Give_page)
    qed
  qed
qed

text \<open>A page that is given back is the next one handed out, and the call leaves every byte outside
  the page alone.\<close>

lemma give_take:
  assumes "free s xs" and "page s v" and "v \<notin> set xs"
  shows "wp (bnd (dealloc v) (\<lambda>_. alloc)) (\<lambda>r s'. r = v \<and> free s' xs \<and>
    (\<forall>a. \<not> in_page v a \<longrightarrow> bytes s' a = bytes s a)) s"
  unfolding wp_bnd
  by (rule wp_mono [OF dealloc [OF assms]]) (auto intro: wp_mono [OF alloc_some])

end

interpretation kp: page_pool kalloc kfree pool "\<lambda>s. page_ok (kend s)" mem
proof (unfold_locales, goal_cases)
  case (1 s xs)
  then show ?case by (simp add: pool_def free_list_def)
next
  case (2 s x)
  then show ?case by (rule page_ok_nz)
next
  case (3 s)
  then show ?case by (simp add: wp_iff kalloc_empty) (simp add: pool_def free_list_def)
next
  case (4 s x xs)
  then show ?case using kalloc_Cons [of s x xs] by (auto simp: wp_iff)
next
  case (5 s xs v)
  then show ?case using kfree_pool [of s xs v] by (auto simp: wp_iff)
qed

section \<open>Filling the pool at boot\<close>

lemma aligned_unat: "(p :: uint) mod PGSIZE = 0 \<longleftrightarrow> unat p mod 4096 = 0"
  by (simp only: PGSIZE_def word_unat_eq_iff unat_mod_4096 unat_0)

lemma page_step:
  assumes "p < p + PGSIZE"
  shows "unat (p + PGSIZE) = unat p + 4096"
  using assms unat_plus_if_size [of p 4096] unat_lt32 [of p]
  by (auto simp: PGSIZE_def word_less_nat_alt word_size split: if_splits)

lemma page_step_iff:
  assumes "p mod PGSIZE = 0"
  shows "p < p + PGSIZE \<and> p + PGSIZE \<le> vend \<longleftrightarrow> unat p + 4096 \<le> unat vend"
proof
  assume "p < p + PGSIZE \<and> p + PGSIZE \<le> vend"
  then show "unat p + 4096 \<le> unat vend" using page_step [of p] by (simp add: word_le_nat_alt)
next
  assume v: "unat p + 4096 \<le> unat vend"
  then have "unat (p + PGSIZE) = unat p + 4096"
    using unat_lt32 [of vend] by (simp add: PGSIZE_def unat_word_ariths)
  with v show "p < p + PGSIZE \<and> p + PGSIZE \<le> vend"
    by (simp add: word_le_nat_alt word_less_nat_alt)
qed

lemma page_range_set:
  "p mod PGSIZE = 0 \<Longrightarrow> set (page_range p vend) =
     {q. unat q mod 4096 = 0 \<and> p \<le> q \<and> unat q + 4096 \<le> unat vend} \<and> distinct (page_range p vend)"
proof (induction p vend rule: page_range.induct)
  case (1 p vend)
  show ?case
  proof (cases "unat p + 4096 \<le> unat vend")
    case True
    then have g: "p < p + PGSIZE \<and> p + PGSIZE \<le> vend" using page_step_iff [OF "1.prems", of vend] by (simp only: not_False_eq_True)
    then have u: "unat (p + PGSIZE) = unat p + 4096" by (rule page_step [OF conjunct1])
    then have al: "(p + PGSIZE) mod PGSIZE = 0" using "1.prems" by (simp add: aligned_unat)
    have "p \<le> q \<longleftrightarrow> q = p \<or> p + PGSIZE \<le> q" if q: "q mod PGSIZE = 0" for q
    proof -
      obtain i j where "unat p = 4096 * i" "unat q = 4096 * j"
        using "1.prems" q unfolding aligned_unat by (auto elim!: dvdE dest!: mod_0_imp_dvd)
      then show ?thesis unfolding word_le_nat_alt u word_unat_eq_iff by auto
    qed
    with "1.IH" [OF g al] g "1.prems" True show ?thesis
      by (subst (1 2) page_range.simps) (auto simp: u word_le_nat_alt aligned_unat)
  next
    case False
    then have "\<not> (p < p + PGSIZE \<and> p + PGSIZE \<le> vend)" using page_step_iff [OF "1.prems", of vend] by (simp only: not_False_eq_True)
    then show ?thesis using False by (subst (1 2) page_range.simps) (auto simp: word_le_nat_alt)
  qed
qed

lemma freerange_pool:
  assumes "pool s xs" and "distinct (page_range (PGROUNDUP vstart) vend @ xs)"
    and "\<forall>q \<in> set (page_range (PGROUNDUP vstart) vend). page_ok (kend s) q"
  shows "wp (freerange vstart vend) (\<lambda>_ s'. pool s' (rev (page_range (PGROUNDUP vstart) vend) @ xs) \<and>
    kend s' = kend s \<and> mem_only s s') s"
  unfolding freerange_def
proof (rule wp_foreach [where I = "\<lambda>done s'. pool s' (rev done @ xs) \<and> kend s' = kend s \<and> mem_only s s'"])
  show "pool s (rev [] @ xs) \<and> kend s = kend s \<and> mem_only s s" using assms by simp
next
  fix pre q rest and t :: "'a kmem_state_scheme"
  assume r: "page_range (PGROUNDUP vstart) vend = pre @ q # rest"
    and t: "pool t (rev pre @ xs) \<and> kend t = kend s \<and> mem_only s t"
  have "page_ok (kend t) q" "q \<notin> set (rev pre @ xs)" using assms(2,3) t by (auto simp: r)
  with t kfree_pool [of t "rev pre @ xs" q]
  show "wp (kfree q) (\<lambda>_ s'. pool s' (rev (pre @ [q]) @ xs) \<and> kend s' = kend s \<and> mem_only s s') t"
    by (auto simp: wp_iff intro: mem_only_trans)
qed

lemma length_page_range: "p mod PGSIZE = 0 \<Longrightarrow> length (page_range p vend) = (unat vend - unat p) div 4096"
proof (induction p vend rule: page_range.induct)
  case (1 p vend)
  show ?case
  proof (cases "unat p + 4096 \<le> unat vend")
    case True
    then have g: "p < p + PGSIZE \<and> p + PGSIZE \<le> vend" using page_step_iff [OF "1.prems", of vend] by (simp only: not_False_eq_True)
    then have u: "unat (p + PGSIZE) = unat p + 4096" by (rule page_step [OF conjunct1])
    then have al: "(p + PGSIZE) mod PGSIZE = 0" using "1.prems" by (simp add: aligned_unat)
    have "unat vend - unat p = (unat vend - unat (p + PGSIZE)) + 4096" using True u by simp
    with "1.IH" [OF g al] g show ?thesis by (subst page_range.simps) simp
  next
    case False
    then have "\<not> (p < p + PGSIZE \<and> p + PGSIZE \<le> vend)" using page_step_iff [OF "1.prems", of vend] by (simp only: not_False_eq_True)
    then show ?thesis using False by (subst page_range.simps) simp
  qed
qed

text \<open>The pages between an address and a page boundary below \<open>PHYSTOP\<close>.\<close>

lemma page_ok_unat:
  "page_ok e q \<longleftrightarrow> unat q mod 4096 = 0 \<and> unat e \<le> unat q \<and> 0x80000000 \<le> unat q \<and>
     unat q + 4096 \<le> 0x8E000000"
proof -
  have "V2P q < PHYSTOP \<longleftrightarrow> 0x80000000 \<le> unat q \<and> unat q < 0x8E000000"
    by (auto simp: V2P_def layout_defs word_less_nat_alt unat_sub_if_size word_size)
  moreover have "unat q < 0x8E000000 \<longleftrightarrow> unat q + 4096 \<le> 0x8E000000" if "unat q mod 4096 = 0"
    using that by (auto elim!: dvdE dest!: mod_0_imp_dvd)
  ultimately show ?thesis unfolding page_ok_def aligned_unat word_le_nat_alt by (simp cong: conj_cong)
qed

lemma page_range_pages:
  assumes "unat vstart \<le> unat vend" and "0x80000000 \<le> unat vstart" and "unat vend \<le> 0x8E000000"
  shows "set (page_range (PGROUNDUP vstart) vend) =
      {q. page_ok vstart q \<and> unat q + 4096 \<le> unat vend}"
    and "distinct (page_range (PGROUNDUP vstart) vend)"
proof -
  have b: "unat vstart \<le> 2 ^ 32 - 4096" using assms by simp
  note r = PGROUNDUP_bounds [OF b]
  have al: "PGROUNDUP vstart mod PGSIZE = 0" using r(1) by (simp add: aligned_unat)
  have "PGROUNDUP vstart \<le> q \<longleftrightarrow> unat vstart \<le> unat q" if q: "unat q mod 4096 = 0" for q
  proof -
    obtain i j where "unat (PGROUNDUP vstart) = 4096 * i" "unat q = 4096 * j"
      using r(1) q by (auto elim!: dvdE dest!: mod_0_imp_dvd)
    then show ?thesis using r(2,3) by (auto simp: word_le_nat_alt)
  qed
  then show "set (page_range (PGROUNDUP vstart) vend) =
      {q. page_ok vstart q \<and> unat q + 4096 \<le> unat vend}"
    using page_range_set [OF al, of vend] assms by (auto simp: page_ok_unat)
  show "distinct (page_range (PGROUNDUP vstart) vend)"
    using page_range_set [OF al, of vend] by blast
qed

section \<open>Correctness of the allocator\<close>

text \<open>C2. No page is ever handed out twice or lost: whatever sequence of \<open>kalloc\<close> calls and of
  \<open>kfree\<close> calls on owned pages a client makes, the calls all return (no panic, no endless loop over
  the free list), and the pages it owns together with the pages on the free list are always a
  permutation of the ones at the start; in particular they stay pairwise different.\<close>

theorem kalloc_conserves_pages:
  assumes "pool s xs" and "distinct (owned @ xs)" and "\<forall>x \<in> set owned. page_ok (kend s) x"
  shows "wp (pool_run kalloc kfree ops owned)
    (\<lambda>owned' s'. \<exists>ys. pool s' ys \<and> mset (owned' @ ys) = mset (owned @ xs) \<and> distinct (owned' @ ys)) s"
  using kp.run_conserves [OF assms, of ops]
proof (rule wp_mono)
  fix owned' and s' :: "'a kmem_state_scheme"
  assume "\<exists>ys. pool s' ys \<and> mset (owned' @ ys) = mset (owned @ xs)"
  with assms(2) show "\<exists>ys. pool s' ys \<and> mset (owned' @ ys) = mset (owned @ xs) \<and> distinct (owned' @ ys)"
    using mset_eq_imp_distinct_iff by metis
qed

definition kmem_demo :: kmem_state where
  "kmem_demo = \<lparr>cpu = \<lparr>cpu_id = 0, ncli = 0, intena = False, fl_if = True, cr3 = 0,
       ts_esp0 = 0, curproc = None\<rparr>,
     locks = (\<lambda>_. free_lock), mem = (\<lambda>_. 7), use_lock = True, freelist = 0,
     kend = 0x80110000\<rparr>"

lemma kmem_demo_pool: "pool kmem_demo []"
  by (simp add: kmem_demo_def pool_def free_list_def kmem_ready_def cpu_ok_def)

theorem kalloc_conserves_pages_witness:
  "\<exists>owned s' ys. pool_run kalloc kfree [Give_page 1, Take_page, Take_page, Give_page 0]
       [0x80200000, 0x80300000] kmem_demo = Ret owned s' \<and>
     pool s' ys \<and> mset (owned @ ys) = {#0x80200000, 0x80300000#}"
proof -
  have "\<forall>x \<in> set [0x80200000, 0x80300000]. page_ok (kend kmem_demo) x"
    by (simp add: kmem_demo_def page_ok_def V2P_def layout_defs)
  from kalloc_conserves_pages [OF kmem_demo_pool _ this,
      of "[Give_page 1, Take_page, Take_page, Give_page 0]"]
  show ?thesis unfolding wp_iff by fastforce
qed

text \<open>C3. The two boot phases, \<open>kinit1(end, P2V(4MB))\<close> and then \<open>kinit2(P2V(4MB), P2V(PHYSTOP))\<close>,
  return and leave on the free list every page between the end of the kernel image and \<open>PHYSTOP\<close>
  exactly once, and nothing else; locking is on afterwards.\<close>

theorem kinit_frees_all_pages:
  assumes "freelist s = 0" and "cpu_ok (cpu s)" and "KERNBASE \<le> kend s" and "kend s \<le> P2V 0x400000"
  shows "wp (bnd (kinit1 (kend s) (P2V 0x400000)) (\<lambda>_. kinit2 (P2V 0x400000) (P2V PHYSTOP)))
    (\<lambda>_ s'. use_lock s' \<and> (\<exists>xs. pool s' xs \<and> set xs = {q. page_ok (kend s) q})) s"
proof -
  let ?e = "kend s" and ?mid = "P2V 0x400000" and ?top = "P2V PHYSTOP"
  let ?A = "page_range (PGROUNDUP ?e) ?mid" and ?B = "page_range (PGROUNDUP ?mid) ?top"
  have e: "0x80000000 \<le> unat ?e" "unat ?e \<le> 0x80400000"
    and u: "unat ?mid = 0x80400000" "unat ?top = 0x8E000000"
    using assms(3,4) by (simp_all add: P2V_def layout_defs word_le_nat_alt)
  have A: "set ?A = {q. page_ok ?e q \<and> unat q + 4096 \<le> 0x80400000}" "distinct ?A"
    using page_range_pages [of ?e ?mid] e u by simp_all
  have B: "set ?B = {q. page_ok ?mid q}" "distinct ?B"
    using page_range_pages [of ?mid ?top] u by (auto simp: page_ok_unat)
  have AB: "set ?A \<inter> set ?B = {}" "set ?A \<union> set ?B = {q. page_ok ?e q}" "\<forall>q \<in> set ?B. page_ok ?e q"
  proof -
    have "unat q + 4096 \<le> 0x80400000 \<longleftrightarrow> \<not> 0x80400000 \<le> unat q" if "unat q mod 4096 = 0" for q :: uint
      using that by (auto elim!: dvdE dest!: mod_0_imp_dvd)
    then show "set ?A \<inter> set ?B = {}" "set ?A \<union> set ?B = {q. page_ok ?e q}" "\<forall>q \<in> set ?B. page_ok ?e q"
      using e unfolding A B page_ok_unat u by auto
  qed
  define s1 where "s1 = s\<lparr>locks := (locks s)(Lk_kmem := free_lock), use_lock := False\<rparr>"
  have s1: "pool s1 []" "kend s1 = ?e"
    using assms by (simp_all add: s1_def pool_def kmem_ready_def free_list_def)
  have k1: "wp (kinit1 ?e ?mid) Q s \<longleftrightarrow> wp (freerange ?e ?mid) Q s1" for Q
    by (simp add: kinit1_def wp_rules initlock_def free_lock_def s1_def)
  have f1: "wp (freerange ?e ?mid) (\<lambda>_ t. pool t (rev ?A) \<and> kend t = ?e) s1"
    by (rule wp_mono [OF freerange_pool [OF s1(1), of ?e ?mid]]) (use A s1(2) in simp_all)
  show ?thesis
    unfolding wp_bnd k1
  proof (rule wp_mono [OF f1])
    fix t assume t: "pool t (rev ?A) \<and> kend t = ?e"
    then have "wp (freerange ?mid ?top) (\<lambda>_ t'. pool t' (rev ?B @ rev ?A) \<and> kend t' = ?e) t"
      by (intro wp_mono [OF freerange_pool [of t "rev ?A" ?mid ?top]]) (use A B AB in auto)
    then show "wp (kinit2 ?mid ?top)
        (\<lambda>_ s'. use_lock s' \<and> (\<exists>xs. pool s' xs \<and> set xs = {q. page_ok ?e q})) t"
      unfolding kinit2_def wp_block wp_modify
      by (elim wp_mono, intro conjI exI [of _ "rev ?B @ rev ?A"])
        (use AB in \<open>auto simp: pool_def kmem_ready_def free_list_def\<close>)
  qed
qed

theorem kinit_frees_all_pages_witness:
  "\<exists>s' xs. bnd (kinit1 0x80110000 (P2V 0x400000)) (\<lambda>_. kinit2 (P2V 0x400000) (P2V PHYSTOP)) kmem_demo =
     Ret () s' \<and> pool s' xs \<and> 0x80110000 \<in> set xs \<and> 0x8DFFF000 \<in> set xs \<and> 0x8E000000 \<notin> set xs"
proof -
  have k: "kend kmem_demo = 0x80110000" by (simp add: kmem_demo_def)
  have "freelist kmem_demo = 0" "cpu_ok (cpu kmem_demo)" "KERNBASE \<le> kend kmem_demo"
    "kend kmem_demo \<le> P2V 0x400000"
    by (simp_all add: kmem_demo_def cpu_ok_def layout_defs P2V_def)
  from kinit_frees_all_pages [OF this] obtain s' xs where
    r: "bnd (kinit1 0x80110000 (P2V 0x400000)) (\<lambda>_. kinit2 (P2V 0x400000) (P2V PHYSTOP)) kmem_demo = Ret () s'"
      "pool s' xs" "set xs = {q. page_ok 0x80110000 q}"
    unfolding wp_iff k by auto
  have "page_ok 0x80110000 0x80110000" "page_ok 0x80110000 0x8DFFF000" "\<not> page_ok 0x80110000 0x8E000000"
    by (simp_all add: page_ok_unat)
  with r show ?thesis by blast
qed

end
