(* ===== verification/Vm.thy ===== *)
theory Vm
  imports Kalloc
begin

text \<open>
  Virtual memory (\<open>vm.c\<close>): two-level page tables in byte-addressed memory, the kernel's mappings, and
  the user address space of a process. Page tables are walked and written word by word, as the
  hardware and the code see them. \<open>loaduvm\<close> is with the loader of programs and \<open>switchuvm\<close> with the
  process table. Messages to the console on the error paths are left out.
\<close>

section \<open>State and operations\<close>

text \<open>\<open>kpgdir\<close> and the linker symbol \<open>data\<close>, the first address after the kernel's text.\<close>

record vm_state = kmem_state +
  kpgdir :: uint
  kdata :: uint

definition NPDENTRIES :: uint where "NPDENTRIES = 1024"
definition NPTENTRIES :: uint where "NPTENTRIES = 1024"

definition lcr3 :: "uint \<Rightarrow> ('z machine_scheme, unit) kern" where
  "lcr3 val = modify (\<lambda>s. s\<lparr>cpu := (cpu s)\<lparr>cr3 := val\<rparr>\<rparr>)"

text \<open>The address of the page-table entry for \<open>va\<close>, or 0.\<close>

definition walkpgdir :: "uint \<Rightarrow> uint \<Rightarrow> bool \<Rightarrow> ('z kmem_state_scheme, uint) kern" where
  "walkpgdir pgdir va alloc =
     bnd (gets (\<lambda>s. load32 (mem s) (pgdir + 4 * PDX va))) (\<lambda>pde.
     if pde AND PTE_P \<noteq> 0 then ret (P2V (PTE_ADDR pde) + 4 * PTX va)
     else if \<not> alloc then ret 0
     else bnd kalloc (\<lambda>pgtab.
       if pgtab = 0 then ret 0
       else
         bnd (modify (\<lambda>s. s\<lparr>mem := memset (mem s) pgtab 0 PGSIZE\<rparr>)) (\<lambda>_.
         bnd (modify (\<lambda>s. s\<lparr>mem := store32 (mem s) (pgdir + 4 * PDX va)
                (V2P pgtab OR PTE_P OR PTE_W OR PTE_U)\<rparr>)) (\<lambda>_.
         ret (pgtab + 4 * PTX va)))))"

text \<open>The pairs \<open>(a, pa)\<close> the loop of \<open>mappages\<close> goes through: from \<open>a\<close> to \<open>last_a\<close>, both page-aligned,
  in steps of a page, wrapping at the top of the address space as the C pointers do.\<close>

definition map_range :: "uint \<Rightarrow> uint \<Rightarrow> uint \<Rightarrow> (uint \<times> uint) list" where
  "map_range a last_a pa =
     map (\<lambda>i. (a + of_nat i * PGSIZE, pa + of_nat i * PGSIZE)) [0..<Suc (unat (last_a - a) div 4096)]"

definition mappage :: "uint \<Rightarrow> uint \<Rightarrow> uint \<times> uint \<Rightarrow> ('z kmem_state_scheme, int option) kern" where
  "mappage pgdir perm = (\<lambda>(a, pa).
     bnd (walkpgdir pgdir a True) (\<lambda>pte.
     if pte = 0 then ret (Some (-1))
     else bnd (\<lambda>s. whenk (load32 (mem s) pte AND PTE_P \<noteq> 0) (kpanic ''remap'') s) (\<lambda>_.
          bnd (modify (\<lambda>s. s\<lparr>mem := store32 (mem s) pte (pa OR perm OR PTE_P)\<rparr>)) (\<lambda>_.
          ret None))))"

definition mappages :: "uint \<Rightarrow> uint \<Rightarrow> uint \<Rightarrow> uint \<Rightarrow> uint \<Rightarrow> ('z kmem_state_scheme, int) kern" where
  "mappages pgdir va len pa perm =
     bnd (forexit (mappage pgdir perm)
            (map_range (PGROUNDDOWN va) (PGROUNDDOWN (va + len - 1)) pa)) (\<lambda>r.
     ret (case r of None \<Rightarrow> 0 | Some e \<Rightarrow> e))"

text \<open>\<open>struct kmap\<close>: virtual start, physical start and end, permissions.\<close>

definition kmap :: "uint \<Rightarrow> (uint \<times> uint \<times> uint \<times> uint) list" where
  "kmap d =
     [(KERNBASE, 0, EXTMEM, PTE_W),
      (KERNLINK, V2P KERNLINK, V2P d, 0),
      (d, V2P d, PHYSTOP, PTE_W),
      (DEVSPACE, DEVSPACE, 0, PTE_W)]"

definition setupkvm :: "('z vm_state_scheme, uint) kern" where
  "setupkvm =
     bnd kalloc (\<lambda>pgdir.
     if pgdir = 0 then ret 0
     else
       bnd (modify (\<lambda>s. s\<lparr>mem := memset (mem s) pgdir 0 PGSIZE\<rparr>)) (\<lambda>_.
       bnd (whenk (P2V PHYSTOP > DEVSPACE) (kpanic ''PHYSTOP too high'')) (\<lambda>_.
       bnd (gets kdata) (\<lambda>d.
       bnd (forexit (\<lambda>(virt, phys_start, phys_end, perm).
              bnd (mappages pgdir virt (phys_end - phys_start) phys_start perm) (\<lambda>r.
              ret (if r < 0 then Some 0 else None))) (kmap d)) (\<lambda>r.
       ret (case r of None \<Rightarrow> pgdir | Some z \<Rightarrow> z))))))"

definition switchkvm :: "('z vm_state_scheme, unit) kern" where
  "switchkvm s = lcr3 (V2P (kpgdir s)) s"

definition kvmalloc :: "('z vm_state_scheme, unit) kern" where
  "kvmalloc =
     bnd setupkvm (\<lambda>pgdir. block [
       modify (\<lambda>s. s\<lparr>kpgdir := pgdir\<rparr>),
       switchkvm])"

definition inituvm :: "uint \<Rightarrow> uint \<Rightarrow> uint \<Rightarrow> ('z kmem_state_scheme, unit) kern" where
  "inituvm pgdir init sz =
     bnd (whenk (sz \<ge> PGSIZE) (kpanic ''inituvm: more than a page'')) (\<lambda>_.
     bnd kalloc (\<lambda>m.
     bnd (modify (\<lambda>s. s\<lparr>mem := memset (mem s) m 0 PGSIZE\<rparr>)) (\<lambda>_.
     bnd (mappages pgdir 0 PGSIZE (V2P m) (PTE_W OR PTE_U)) (\<lambda>_.
     modify (\<lambda>s. s\<lparr>mem := memmove (mem s) m init sz\<rparr>)))))"

definition deallocuvm_page :: "uint \<Rightarrow> uint \<Rightarrow> ('z kmem_state_scheme, uint) kern" where
  "deallocuvm_page pgdir a =
     bnd (walkpgdir pgdir a False) (\<lambda>pte.
     if pte = 0 then ret (a + (NPTENTRIES - 1) * PGSIZE + PGSIZE)
     else bnd (gets (\<lambda>s. load32 (mem s) pte)) (\<lambda>e.
       if e AND PTE_P \<noteq> 0
       then
         bnd (whenk (PTE_ADDR e = 0) (kpanic ''kfree'')) (\<lambda>_.
         bnd (kfree (P2V (PTE_ADDR e))) (\<lambda>_.
         bnd (modify (\<lambda>s. s\<lparr>mem := store32 (mem s) pte 0\<rparr>)) (\<lambda>_.
         ret (a + PGSIZE))))
       else ret (a + PGSIZE)))"

definition deallocuvm :: "uint \<Rightarrow> uint \<Rightarrow> uint \<Rightarrow> ('z kmem_state_scheme, uint) kern" where
  "deallocuvm pgdir oldsz newsz =
     (if newsz \<ge> oldsz then ret oldsz
      else bnd (kwhile (\<lambda>a _. a < oldsz) (deallocuvm_page pgdir) (PGROUNDUP newsz)) (\<lambda>_.
        ret newsz))"

text \<open>The loop of \<open>allocuvm\<close> carries the address and whether it returned early.\<close>

definition allocuvm_page ::
  "uint \<Rightarrow> uint \<Rightarrow> uint \<Rightarrow> uint \<times> bool \<Rightarrow> ('z kmem_state_scheme, uint \<times> bool) kern" where
  "allocuvm_page pgdir oldsz newsz = (\<lambda>(a, _).
     bnd kalloc (\<lambda>m.
     if m = 0
     then bnd (deallocuvm pgdir newsz oldsz) (\<lambda>_. ret (a, True))
     else
       bnd (modify (\<lambda>s. s\<lparr>mem := memset (mem s) m 0 PGSIZE\<rparr>)) (\<lambda>_.
       bnd (mappages pgdir a PGSIZE (V2P m) (PTE_W OR PTE_U)) (\<lambda>r.
       if r < 0
       then
         bnd (deallocuvm pgdir newsz oldsz) (\<lambda>_.
         bnd (kfree m) (\<lambda>_.
         ret (a, True)))
       else ret (a + PGSIZE, False)))))"

definition allocuvm :: "uint \<Rightarrow> uint \<Rightarrow> uint \<Rightarrow> ('z kmem_state_scheme, uint) kern" where
  "allocuvm pgdir oldsz newsz =
     (if newsz \<ge> KERNBASE then ret 0
      else if newsz < oldsz then ret oldsz
      else bnd (kwhile (\<lambda>(a, failed) _. \<not> failed \<and> a < newsz) (allocuvm_page pgdir oldsz newsz)
                  (PGROUNDUP oldsz, False)) (\<lambda>(_, failed).
        ret (if failed then 0 else newsz)))"

definition freevm :: "uint \<Rightarrow> ('z kmem_state_scheme, unit) kern" where
  "freevm pgdir =
     bnd (whenk (pgdir = 0) (kpanic ''freevm: no pgdir'')) (\<lambda>_.
     bnd (deallocuvm pgdir KERNBASE 0) (\<lambda>_.
     bnd (foreach (\<lambda>i s.
            (let pde = load32 (mem s) (pgdir + 4 * of_nat i)
             in whenk (pde AND PTE_P \<noteq> 0) (kfree (P2V (PTE_ADDR pde))) s))
          [0..<unat NPDENTRIES]) (\<lambda>_.
     kfree pgdir)))"

definition clearpteu :: "uint \<Rightarrow> uint \<Rightarrow> ('z kmem_state_scheme, unit) kern" where
  "clearpteu pgdir uva =
     bnd (walkpgdir pgdir uva False) (\<lambda>pte.
     bnd (whenk (pte = 0) (kpanic ''clearpteu'')) (\<lambda>_.
     modify (\<lambda>s. s\<lparr>mem := store32 (mem s) pte (load32 (mem s) pte AND NOT PTE_U)\<rparr>)))"

definition copyuvm_page ::
  "uint \<Rightarrow> uint \<Rightarrow> uint \<times> bool \<Rightarrow> ('z kmem_state_scheme, uint \<times> bool) kern" where
  "copyuvm_page pgdir d = (\<lambda>(i, _).
     bnd (walkpgdir pgdir i False) (\<lambda>pte.
     bnd (whenk (pte = 0) (kpanic ''copyuvm: pte should exist'')) (\<lambda>_.
     bnd (gets (\<lambda>s. load32 (mem s) pte)) (\<lambda>e.
     bnd (whenk (e AND PTE_P = 0) (kpanic ''copyuvm: page not present'')) (\<lambda>_.
     bnd kalloc (\<lambda>m.
     if m = 0 then ret (i, True)
     else
       bnd (modify (\<lambda>s. s\<lparr>mem := memmove (mem s) m (P2V (PTE_ADDR e)) PGSIZE\<rparr>)) (\<lambda>_.
       bnd (mappages d i PGSIZE (V2P m) (PTE_FLAGS e)) (\<lambda>r.
       ret (if r < 0 then (i, True) else (i + PGSIZE, False))))))))))"

definition copyuvm :: "uint \<Rightarrow> uint \<Rightarrow> ('z vm_state_scheme, uint) kern" where
  "copyuvm pgdir sz =
     bnd setupkvm (\<lambda>d.
     if d = 0 then ret 0
     else bnd (kwhile (\<lambda>(i, bad) _. \<not> bad \<and> i < sz) (copyuvm_page pgdir d) (0, False)) (\<lambda>(_, bad).
       if bad then bnd (freevm d) (\<lambda>_. ret 0) else ret d))"

text \<open>As in the code, the entry is read even when there is no page table for \<open>uva\<close> and \<open>walkpgdir\<close>
  returned 0.\<close>

definition uva2ka :: "uint \<Rightarrow> uint \<Rightarrow> ('z kmem_state_scheme, uint) kern" where
  "uva2ka pgdir uva =
     bnd (walkpgdir pgdir uva False) (\<lambda>pte.
     bnd (gets (\<lambda>s. load32 (mem s) pte)) (\<lambda>e.
     ret (if e AND PTE_P = 0 then 0
          else if e AND PTE_U = 0 then 0
          else P2V (PTE_ADDR e))))"

text \<open>\<open>copyout\<close> takes the bytes at \<open>p\<close>. Its loop carries \<open>va\<close>, the bytes left and whether it returned early.\<close>

definition copyout_page ::
  "uint \<Rightarrow> uint \<times> byte list \<times> bool \<Rightarrow> ('z kmem_state_scheme, uint \<times> byte list \<times> bool) kern" where
  "copyout_page pgdir = (\<lambda>(va, buf, _).
     let va0 = PGROUNDDOWN va in
     bnd (uva2ka pgdir va0) (\<lambda>pa0.
     if pa0 = 0 then ret (va, buf, True)
     else
       let n = min (unat (PGSIZE - (va - va0))) (length buf) in
       bnd (modify (\<lambda>s. s\<lparr>mem := write_bytes (mem s) (pa0 + (va - va0)) (take n buf)\<rparr>)) (\<lambda>_.
       ret (va0 + PGSIZE, drop n buf, False))))"

definition copyout :: "uint \<Rightarrow> uint \<Rightarrow> byte list \<Rightarrow> ('z kmem_state_scheme, int) kern" where
  "copyout pgdir va buf =
     bnd (kwhile (\<lambda>(_, buf, failed) _. \<not> failed \<and> buf \<noteq> []) (copyout_page pgdir) (va, buf, False))
       (\<lambda>(_, _, failed). ret (if failed then -1 else 0))"

end
