(* ===== verification/Sched.thy ===== *)
theory Sched
  imports Vm
begin

text \<open>
  The process table and the scheduler (\<open>proc.c\<close>, \<open>proc.h\<close>): slots, kernel stacks, \<open>sleep\<close> and
  \<open>wakeup\<close>, \<open>kill\<close>, \<open>yield\<close> and the per-CPU scheduler loop. A call that enters \<open>sched\<close> stops there with
  \<open>Switch\<close>; the code after it is a definition of its own (\<open>sleep_resume\<close>, \<open>yield_resume\<close>), run when
  the scheduler picks the process again. \<open>fork\<close>, \<open>exit\<close> and \<open>wait\<close>, which also need files and address
  spaces, are in a later theory and are built from the steps defined here.

  The second half shows what a wakeup does, that a sleeper cannot miss one, and that no process ever
  runs on two CPUs.
\<close>

section \<open>State\<close>

definition NPROC :: nat where "NPROC = 64"
definition KSTACKSIZE :: uint where "KSTACKSIZE = 4096"

datatype procstate = UNUSED | EMBRYO | SLEEPING | RUNNABLE | RUNNING | ZOMBIE

text \<open>The addresses processes sleep on: a \<open>struct proc\<close>, \<open>ticks\<close>, the log, a buffer, an inode, the two
  counters of a pipe, and the console's input counter.\<close>

datatype chan = Ch_proc nat | Ch_ticks | Ch_log | Ch_buf nat | Ch_inode nat | Ch_nread uint
  | Ch_nwrite uint | Ch_input

text \<open>\<open>struct proc\<close>. Pointers to other table entries are indices; \<open>p_name\<close> holds the bytes of
  \<open>name\<close>.\<close>

record proc =
  p_sz :: uint
  p_pgdir :: uint
  p_kstack :: uint
  p_state :: procstate
  p_pid :: uint
  p_parent :: "nat option"
  p_tf :: uint
  p_context :: uint
  p_chan :: "chan option"
  p_killed :: bool
  p_ofile :: "nat \<Rightarrow> nat option"
  p_cwd :: "nat option"
  p_name :: "byte list"

text \<open>\<open>ptable\<close>, \<open>nextpid\<close>, \<open>initproc\<close>, the \<open>ticks\<close> of \<open>trap.c\<close>, and the code addresses \<open>trapret\<close> and
  \<open>forkret\<close>.\<close>

record sched_state = vm_state +
  procs :: "nat \<Rightarrow> proc"
  nextpid :: uint
  initproc :: "nat option"
  ticks :: uint
  k_trapret :: uint
  k_forkret :: uint

definition upd_proc :: "nat \<Rightarrow> (proc \<Rightarrow> proc) \<Rightarrow> ('z sched_state_scheme, unit) kern" where
  "upd_proc i f = modify (\<lambda>s. s\<lparr>procs := (procs s)(i := f (procs s i))\<rparr>)"

text \<open>Reading through the per-CPU pointer \<open>proc\<close>: a null pointer faults, and a fault in the kernel
  makes \<open>trap\<close> panic.\<close>

definition myproc :: "('z sched_state_scheme, nat) kern" where
  "myproc s = (case curproc (cpu s) of None \<Rightarrow> Panic ''trap'' | Some p \<Rightarrow> Ret p s)"

section \<open>Operations\<close>

definition pinit :: "('z sched_state_scheme, unit) kern" where
  "pinit = initlock Lk_ptable"

text \<open>The sizes of \<open>struct trapframe\<close> and \<open>struct context\<close> in bytes.\<close>

definition sizeof_trapframe :: uint where "sizeof_trapframe = 76"
definition sizeof_context :: uint where "sizeof_context = 20"

definition allocproc :: "('z sched_state_scheme, nat option) kern" where
  "allocproc s =
     (case find (\<lambda>i. p_state (procs s i) = UNUSED) [0..<NPROC] of
        None \<Rightarrow> Ret None s
      | Some p \<Rightarrow>
          bnd (upd_proc p (\<lambda>r. r\<lparr>p_state := EMBRYO\<rparr>)) (\<lambda>_.
          bnd (\<lambda>s. upd_proc p (\<lambda>r. r\<lparr>p_pid := nextpid s\<rparr>) s) (\<lambda>_.
          bnd (modify (\<lambda>s. s\<lparr>nextpid := nextpid s + 1\<rparr>)) (\<lambda>_.
          bnd kalloc (\<lambda>stk.
          bnd (upd_proc p (\<lambda>r. r\<lparr>p_kstack := stk\<rparr>)) (\<lambda>_.
          if stk = 0 then bnd (upd_proc p (\<lambda>r. r\<lparr>p_state := UNUSED\<rparr>)) (\<lambda>_. ret None)
          else
            let tf = stk + KSTACKSIZE - sizeof_trapframe; sp = tf - 4; ctx = sp - sizeof_context in
            bnd (upd_proc p (\<lambda>r. r\<lparr>p_tf := tf\<rparr>)) (\<lambda>_.
            bnd (modify (\<lambda>s. s\<lparr>mem := store32 (mem s) sp (k_trapret s)\<rparr>)) (\<lambda>_.
            bnd (upd_proc p (\<lambda>r. r\<lparr>p_context := ctx\<rparr>)) (\<lambda>_.
            bnd (modify (\<lambda>s. s\<lparr>mem := memset (mem s) ctx 0 sizeof_context\<rparr>)) (\<lambda>_.
            bnd (modify (\<lambda>s. s\<lparr>mem := store32 (mem s) (ctx + 16) (k_forkret s)\<rparr>)) (\<lambda>_.
            ret (Some p))))))))))) s)"

definition sched :: "('z sched_state_scheme, 'a) kern" where
  "sched =
     bnd (\<lambda>s. whenk (\<not> holding Lk_ptable s) (kpanic ''sched ptable.lock'') s) (\<lambda>_.
     bnd (\<lambda>s. whenk (ncli (cpu s) \<noteq> 1) (kpanic ''sched locks'') s) (\<lambda>_.
     bnd myproc (\<lambda>p.
     bnd (\<lambda>s. whenk (p_state (procs s p) = RUNNING) (kpanic ''sched running'') s) (\<lambda>_.
     bnd (\<lambda>s. whenk (fl_if (cpu s)) (kpanic ''sched interruptible'') s) (\<lambda>_.
     Switch)))))"

text \<open>After \<open>swtch\<close> returns: \<open>sched\<close> restores the \<open>intena\<close> it had saved on the thread's stack.\<close>

definition sched_resume :: "bool \<Rightarrow> ('z sched_state_scheme, unit) kern" where
  "sched_resume v = modify (\<lambda>s. s\<lparr>cpu := (cpu s)\<lparr>intena := v\<rparr>\<rparr>)"

definition yield :: "('z sched_state_scheme, unit) kern" where
  "yield =
     bnd (acquire Lk_ptable) (\<lambda>_.
     bnd myproc (\<lambda>p.
     bnd (upd_proc p (\<lambda>r. r\<lparr>p_state := RUNNABLE\<rparr>)) (\<lambda>_.
     sched)))"

definition yield_resume :: "bool \<Rightarrow> ('z sched_state_scheme, unit) kern" where
  "yield_resume v = block [sched_resume v, release Lk_ptable]"

text \<open>\<open>sleep\<close> in two parts: taking \<open>ptable.lock\<close> and letting go of \<open>lk\<close>, then marking the process and
  entering the scheduler.\<close>

definition sleep_locks :: "lockid \<Rightarrow> ('z sched_state_scheme, unit) kern" where
  "sleep_locks lk =
     whenk (lk \<noteq> Lk_ptable) (block [acquire Lk_ptable, release lk])"

definition sleep_mark :: "chan \<Rightarrow> ('z sched_state_scheme, 'a) kern" where
  "sleep_mark ch =
     bnd myproc (\<lambda>p.
     bnd (upd_proc p (\<lambda>r. r\<lparr>p_chan := Some ch\<rparr>)) (\<lambda>_.
     bnd (upd_proc p (\<lambda>r. r\<lparr>p_state := SLEEPING\<rparr>)) (\<lambda>_.
     sched)))"

definition sleep :: "chan \<Rightarrow> lockid option \<Rightarrow> ('z sched_state_scheme, 'a) kern" where
  "sleep ch lko s =
     (if curproc (cpu s) = None then Panic ''sleep''
      else case lko of
        None \<Rightarrow> Panic ''sleep without lk''
      | Some lk \<Rightarrow> bnd (sleep_locks lk) (\<lambda>_. sleep_mark ch) s)"

definition sleep_resume :: "bool \<Rightarrow> lockid \<Rightarrow> ('z sched_state_scheme, unit) kern" where
  "sleep_resume v lk =
     bnd (sched_resume v) (\<lambda>_.
     bnd myproc (\<lambda>p.
     bnd (upd_proc p (\<lambda>r. r\<lparr>p_chan := None\<rparr>)) (\<lambda>_.
     whenk (lk \<noteq> Lk_ptable) (block [release Lk_ptable, acquire lk]))))"

definition wakeup1 :: "chan \<Rightarrow> ('z sched_state_scheme, unit) kern" where
  "wakeup1 ch =
     foreach (\<lambda>i s. whenk (p_state (procs s i) = SLEEPING \<and> p_chan (procs s i) = Some ch)
       (upd_proc i (\<lambda>r. r\<lparr>p_state := RUNNABLE\<rparr>)) s) [0..<NPROC]"

definition wakeup :: "chan \<Rightarrow> ('z sched_state_scheme, unit) kern" where
  "wakeup ch = block [acquire Lk_ptable, wakeup1 ch, release Lk_ptable]"

definition kill :: "uint \<Rightarrow> ('z sched_state_scheme, int) kern" where
  "kill pid =
     bnd (acquire Lk_ptable) (\<lambda>_.
     bnd (gets (\<lambda>s. find (\<lambda>i. p_pid (procs s i) = pid) [0..<NPROC])) (\<lambda>r.
     case r of
       None \<Rightarrow> bnd (release Lk_ptable) (\<lambda>_. ret (-1))
     | Some p \<Rightarrow>
         bnd (upd_proc p (\<lambda>r. r\<lparr>p_killed := True\<rparr>)) (\<lambda>_.
         bnd (\<lambda>s. whenk (p_state (procs s p) = SLEEPING)
           (upd_proc p (\<lambda>r. r\<lparr>p_state := RUNNABLE\<rparr>)) s) (\<lambda>_.
         bnd (release Lk_ptable) (\<lambda>_.
         ret 0)))))"

text \<open>\<open>switchuvm\<close> of \<open>vm.c\<close>; as in the code, the stack is the one of the current process, the page
  table the one of \<open>p\<close>.\<close>

definition switchuvm :: "nat \<Rightarrow> ('z sched_state_scheme, unit) kern" where
  "switchuvm p =
     bnd pushcli (\<lambda>_.
     bnd myproc (\<lambda>c.
     bnd (modify (\<lambda>s. s\<lparr>cpu := (cpu s)\<lparr>ts_esp0 := p_kstack (procs s c) + KSTACKSIZE\<rparr>\<rparr>)) (\<lambda>_.
     bnd (\<lambda>s. whenk (p_pgdir (procs s p) = 0) (kpanic ''switchuvm: no pgdir'') s) (\<lambda>_.
     bnd (\<lambda>s. lcr3 (V2P (p_pgdir (procs s p))) s) (\<lambda>_.
     popcli)))))"

text \<open>One round of \<open>scheduler\<close>: \<open>scheduler_start\<close>, then \<open>scheduler_scan\<close> from slot 0. The scan stops with
  the process it has switched to; when that process comes back, \<open>scheduler_back\<close> runs and the scan
  goes on from the next slot. At the end of the table it releases the lock.\<close>

definition scheduler_start :: "('z sched_state_scheme, unit) kern" where
  "scheduler_start = block [sti, acquire Lk_ptable]"

definition scheduler_run :: "nat \<Rightarrow> ('z sched_state_scheme, unit) kern" where
  "scheduler_run p = block [
     modify (\<lambda>s. s\<lparr>cpu := (cpu s)\<lparr>curproc := Some p\<rparr>\<rparr>),
     switchuvm p,
     upd_proc p (\<lambda>r. r\<lparr>p_state := RUNNING\<rparr>)]"

definition scheduler_scan :: "nat \<Rightarrow> ('z sched_state_scheme, nat option) kern" where
  "scheduler_scan k s =
     (case find (\<lambda>i. p_state (procs s i) = RUNNABLE) [k..<NPROC] of
        Some p \<Rightarrow> bnd (scheduler_run p) (\<lambda>_. ret (Some p)) s
      | None \<Rightarrow> bnd (release Lk_ptable) (\<lambda>_. ret None) s)"

definition scheduler_back :: "('z sched_state_scheme, unit) kern" where
  "scheduler_back = block [
     switchkvm,
     modify (\<lambda>s. s\<lparr>cpu := (cpu s)\<lparr>curproc := None\<rparr>\<rparr>)]"

text \<open>Steps of \<open>fork\<close>, \<open>exit\<close> and \<open>wait\<close> on the process table: the new process becomes runnable, the
  exiting one a zombie, a zombie's slot is given back.\<close>

definition fork_commit :: "nat \<Rightarrow> ('z sched_state_scheme, unit) kern" where
  "fork_commit np = upd_proc np (\<lambda>r. r\<lparr>p_state := RUNNABLE\<rparr>)"

definition exit_zombie :: "('z sched_state_scheme, 'a) kern" where
  "exit_zombie =
     bnd myproc (\<lambda>p.
     bnd (upd_proc p (\<lambda>r. r\<lparr>p_state := ZOMBIE\<rparr>)) (\<lambda>_.
     sched))"

definition wait_reap :: "nat \<Rightarrow> ('z sched_state_scheme, unit) kern" where
  "wait_reap p = block [
     upd_proc p (\<lambda>r. r\<lparr>p_pid := 0\<rparr>),
     upd_proc p (\<lambda>r. r\<lparr>p_parent := None\<rparr>),
     upd_proc p (\<lambda>r. r\<lparr>p_name := (p_name r)[0 := 0]\<rparr>),
     upd_proc p (\<lambda>r. r\<lparr>p_killed := False\<rparr>),
     upd_proc p (\<lambda>r. r\<lparr>p_state := UNUSED\<rparr>)]"

section \<open>What the operations do\<close>

lemma upd_proc_run [simp]:
  "upd_proc i f s = Ret () (s\<lparr>procs := (procs s)(i := f (procs s i))\<rparr>)"
  by (simp add: upd_proc_def)

lemma myproc_Some [simp]: "curproc (cpu s) = Some p \<Longrightarrow> myproc s = Ret p s"
  by (simp add: myproc_def)

text \<open>The table after a wakeup on \<open>ch\<close>.\<close>

definition awaken :: "chan \<Rightarrow> (nat \<Rightarrow> proc) \<Rightarrow> nat \<Rightarrow> proc" where
  "awaken ch ps i =
     (if i < NPROC \<and> p_state (ps i) = SLEEPING \<and> p_chan (ps i) = Some ch
      then (ps i)\<lparr>p_state := RUNNABLE\<rparr> else ps i)"

lemma fold_upd_procs:
  "fold (\<lambda>i s. s\<lparr>procs := (procs s)(i := h (procs s i))\<rparr>) is s =
     s\<lparr>procs := fold (\<lambda>i f. f(i := h (f i))) is (procs s)\<rparr>"
  by (induction "is" arbitrary: s) simp_all

lemma wakeup1_run: "wakeup1 ch s = Ret () (s\<lparr>procs := awaken ch (procs s)\<rparr>)"
proof -
  let ?h = "\<lambda>r. if p_state r = SLEEPING \<and> p_chan r = Some ch then r\<lparr>p_state := RUNNABLE\<rparr> else r"
  have "(\<lambda>i s. whenk (p_state (procs s i) = SLEEPING \<and> p_chan (procs s i) = Some ch)
       (upd_proc i (\<lambda>r. r\<lparr>p_state := RUNNABLE\<rparr>)) s) =
     (\<lambda>i. modify (\<lambda>s :: 'a sched_state_scheme. s\<lparr>procs := (procs s)(i := ?h (procs s i))\<rparr>))"
    by (auto simp: fun_eq_iff whenk_def)
  then have "wakeup1 ch s = Ret () (s\<lparr>procs := fold (\<lambda>i f. f(i := ?h (f i))) [0..<NPROC] (procs s)\<rparr>)"
    by (simp only: wakeup1_def foreach_modify fold_upd_procs [of ?h])
  also have "fold (\<lambda>i f. f(i := ?h (f i))) [0..<NPROC] (procs s) = awaken ch (procs s)"
    using fold_fun_upd_upt [of "\<lambda>_. ?h" NPROC "procs s"] by (auto simp: awaken_def fun_eq_iff)
  finally show ?thesis .
qed

lemma wakeup_run:
  assumes "idle Lk_ptable s" and "cpu_ok (cpu s)"
  shows "wakeup ch s = Ret () (s\<lparr>cpu := settle (cpu s), procs := awaken ch (procs s)\<rparr>)"
  using assms by (simp add: wakeup_def bnd_def lock_run wakeup1_run)

lemma sched_run:
  "curproc (cpu s) = Some p \<Longrightarrow> locks s Lk_ptable = held_by (cpu_id (cpu s)) \<Longrightarrow>
   \<not> fl_if (cpu s) \<Longrightarrow> p_state (procs s p) \<noteq> RUNNING \<Longrightarrow>
   sched s = (if ncli (cpu s) = 1 then Switch s else Panic ''sched locks'')"
  by (simp add: sched_def bnd_def whenk_def holding_def)

text \<open>The state in which a sleeper on \<open>ch\<close> hands the CPU to the scheduler.\<close>

definition asleep :: "chan \<Rightarrow> lockid \<Rightarrow> nat \<Rightarrow> 'z sched_state_scheme \<Rightarrow> 'z sched_state_scheme" where
  "asleep ch lk p s = s\<lparr>
     locks := (locks s)(lk := free_lock, Lk_ptable := held_by (cpu_id (cpu s))),
     procs := (procs s)(p := (procs s p)\<lparr>p_chan := Some ch, p_state := SLEEPING\<rparr>)\<rparr>"

lemma popped_pushed_held:
  "ncli c = 1 \<Longrightarrow> \<not> fl_if c \<Longrightarrow> popped (pushed c) = c"
  by (simp add: popped_def pushed_def)

lemma sleep_run:
  assumes "curproc (cpu s) = Some p" and "lk \<noteq> Lk_ptable" and "idle Lk_ptable s"
    and "locks s lk = held_by (cpu_id (cpu s))" and "ncli (cpu s) = 1" and "\<not> fl_if (cpu s)"
  shows "sleep ch (Some lk) s = Switch (asleep ch lk p s)"
proof -
  have c: "cpu_ok (cpu s)" "popped (pushed (cpu s)) = cpu s" "0 < ncli (pushed (cpu s))"
      "settle (cpu s) = cpu s"
    using assms by (simp_all add: cpu_ok_def popped_pushed_held settle_def)
  have l: "(locks s)(Lk_ptable := held_by (cpu_id (cpu s)), lk := free_lock) =
      (locks s)(lk := free_lock, Lk_ptable := held_by (cpu_id (cpu s)))"
    using assms(2) by (rule fun_upd_twist [symmetric])
  show ?thesis
    using assms c by (simp add: sleep_def sleep_locks_def sleep_mark_def whenk_def bnd_def lock_run
        sched_run asleep_def l)
qed

text \<open>Sleeping with a second lock held is caught.\<close>

lemma sleep_second_lock:
  assumes "curproc (cpu s) = Some p" and "lk \<noteq> Lk_ptable" and "idle Lk_ptable s"
    and "locks s lk = held_by (cpu_id (cpu s))" and "ncli (cpu s) > 1" and "\<not> fl_if (cpu s)"
  shows "sleep ch (Some lk) s = Panic ''sched locks''"
proof -
  have c: "cpu_ok (cpu s)" "settle (cpu s) = cpu s" using assms by (simp_all add: cpu_ok_def settle_def)
  show ?thesis
    using assms c by (simp add: sleep_def sleep_locks_def sleep_mark_def whenk_def bnd_def lock_run
        sched_run)
qed

section \<open>Several CPUs on one process table\<close>

text \<open>The CPUs and what they share; the \<open>cpu\<close> field of \<open>psh\<close> is replaced by the CPU that looks.\<close>

record psys =
  pcpus :: "nat \<Rightarrow> cpu"
  psh :: sched_state

definition pview :: "nat \<Rightarrow> 'z psys_scheme \<Rightarrow> sched_state" where
  "pview c g = (psh g)\<lparr>cpu := pcpus g c\<rparr>"

definition pput :: "nat \<Rightarrow> sched_state \<Rightarrow> 'z psys_scheme \<Rightarrow> 'z psys_scheme" where
  "pput c s g = g\<lparr>pcpus := (pcpus g)(c := cpu s), psh := s\<rparr>"

lemma pview_simps [simp]:
  "cpu (pview c g) = pcpus g c" "locks (pview c g) = locks (psh g)"
  "procs (pview c g) = procs (psh g)"
  by (simp_all add: pview_def)

lemma pput_simps [simp]:
  "pcpus (pput c s g) = (pcpus g)(c := cpu s)" "psh (pput c s g) = s"
  "psys.more (pput c s g) = psys.more g"
  by (simp_all add: pput_def)

text \<open>Every way a \<open>Ret\<close> of the lock operations changes what the table lemmas look at.\<close>

lemma acquire_Ret:
  "acquire lk s = Ret x t \<Longrightarrow> \<exists>c. locked (locks s lk) = 0 \<and>
     t = s\<lparr>cpu := c, locks := (locks s)(lk := held_by (cpu_id (cpu s)))\<rparr> \<and>
     curproc c = curproc (cpu s) \<and> cpu_id c = cpu_id (cpu s)"
  by (auto simp: acquire_run held_by_def split: if_splits)

lemma release_Ret:
  "release lk s = Ret x t \<Longrightarrow> \<exists>c. holding lk s \<and>
     t = s\<lparr>cpu := c, locks := (locks s)(lk := free_lock)\<rparr> \<and>
     curproc c = curproc (cpu s) \<and> cpu_id c = cpu_id (cpu s)"
  by (auto simp: release_run split: if_splits)

lemma sched_Switch:
  "sched s = Switch t \<Longrightarrow> t = s \<and> holding Lk_ptable s"
  by (auto simp: sched_def bnd_def whenk_def myproc_def split: if_splits option.splits)

lemma sched_not_Ret [simp]: "sched s \<noteq> Ret x t"
  by (auto simp: sched_def bnd_def whenk_def myproc_def split: option.splits)

lemma scheduler_back_Ret:
  "scheduler_back s = Ret x t \<Longrightarrow>
     \<exists>c. t = s\<lparr>cpu := c\<rparr> \<and> curproc c = None \<and> cpu_id c = cpu_id (cpu s)"
  by (auto simp: scheduler_back_def switchkvm_def lcr3_def bnd_def)

subsection \<open>No wakeup is missed\<close>

text \<open>
  A sleeper on CPU \<open>a\<close> runs \<open>acquire(lk); while(!cond) sleep(ch, lk); release(lk)\<close> and a waker on CPU
  \<open>b\<close> runs \<open>acquire(lk); cond = 1; release(lk); wakeup(ch)\<close>, in any interleaving of their steps: one
  lock operation each, the test, the assignment, the marking of the sleeper up to the switch, the
  scheduler's release of \<open>ptable.lock\<close> after the switch, and the table scan of the waker.
\<close>

datatype spc = S_lock | S_test | S_acq | S_rel | S_mark | S_switched | S_asleep | S_done

datatype wpc = W_lock | W_set | W_unlock | W_acq | W_scan | W_rel | W_done

record lw = psys +
  lcond :: bool
  sp :: spc
  wp_c :: wpc

inductive lw_step :: "nat \<Rightarrow> nat \<Rightarrow> chan \<Rightarrow> lockid \<Rightarrow> lw \<Rightarrow> lw \<Rightarrow> bool" for a b ch lk where
  s_lock: "sp g = S_lock \<Longrightarrow> acquire lk (pview a g) = Ret () s \<Longrightarrow>
    lw_step a b ch lk g ((pput a s g)\<lparr>sp := S_test\<rparr>)"
| s_test: "sp g = S_test \<Longrightarrow> \<not> lcond g \<Longrightarrow> lw_step a b ch lk g (g\<lparr>sp := S_acq\<rparr>)"
| s_exit: "sp g = S_test \<Longrightarrow> lcond g \<Longrightarrow> release lk (pview a g) = Ret () s \<Longrightarrow>
    lw_step a b ch lk g ((pput a s g)\<lparr>sp := S_done\<rparr>)"
| s_acq: "sp g = S_acq \<Longrightarrow> acquire Lk_ptable (pview a g) = Ret () s \<Longrightarrow>
    lw_step a b ch lk g ((pput a s g)\<lparr>sp := S_rel\<rparr>)"
| s_rel: "sp g = S_rel \<Longrightarrow> release lk (pview a g) = Ret () s \<Longrightarrow>
    lw_step a b ch lk g ((pput a s g)\<lparr>sp := S_mark\<rparr>)"
| s_mark: "sp g = S_mark \<Longrightarrow> (sleep_mark ch :: (sched_state, unit) kern) (pview a g) = Switch s \<Longrightarrow>
    lw_step a b ch lk g ((pput a s g)\<lparr>sp := S_switched\<rparr>)"
| s_switched: "sp g = S_switched \<Longrightarrow>
    bnd scheduler_back (\<lambda>_. release Lk_ptable) (pview a g) = Ret () s \<Longrightarrow>
    lw_step a b ch lk g ((pput a s g)\<lparr>sp := S_asleep\<rparr>)"
| w_lock: "wp_c g = W_lock \<Longrightarrow> acquire lk (pview b g) = Ret () s \<Longrightarrow>
    lw_step a b ch lk g ((pput b s g)\<lparr>wp_c := W_set\<rparr>)"
| w_set: "wp_c g = W_set \<Longrightarrow> lw_step a b ch lk g (g\<lparr>lcond := True, wp_c := W_unlock\<rparr>)"
| w_unlock: "wp_c g = W_unlock \<Longrightarrow> release lk (pview b g) = Ret () s \<Longrightarrow>
    lw_step a b ch lk g ((pput b s g)\<lparr>wp_c := W_acq\<rparr>)"
| w_acq: "wp_c g = W_acq \<Longrightarrow> acquire Lk_ptable (pview b g) = Ret () s \<Longrightarrow>
    lw_step a b ch lk g ((pput b s g)\<lparr>wp_c := W_scan\<rparr>)"
| w_scan: "wp_c g = W_scan \<Longrightarrow> wakeup1 ch (pview b g) = Ret () s \<Longrightarrow>
    lw_step a b ch lk g ((pput b s g)\<lparr>wp_c := W_rel\<rparr>)"
| w_rel: "wp_c g = W_rel \<Longrightarrow> release Lk_ptable (pview b g) = Ret () s \<Longrightarrow>
    lw_step a b ch lk g ((pput b s g)\<lparr>wp_c := W_done\<rparr>)"

lemma pput_lw [simp]:
  "sp (pput c s g) = sp g" "wp_c (pput c s g) = wp_c g" "lcond (pput c s g) = lcond g"
  by (simp_all add: pput_def)

text \<open>The locks each program counter stands for, and which pairs of counters can be seen together.\<close>

definition lw_held :: "lockid \<Rightarrow> lockid \<Rightarrow> spc \<Rightarrow> wpc \<Rightarrow> nat \<Rightarrow> nat \<Rightarrow> spinlock" where
  "lw_held lk l sc wc a b =
     (if l = lk \<and> sc \<in> {S_test, S_acq, S_rel} then held_by a
      else if l = Lk_ptable \<and> sc \<in> {S_rel, S_mark, S_switched} then held_by a
      else if l = lk \<and> wc \<in> {W_set, W_unlock} then held_by b
      else if l = Lk_ptable \<and> wc \<in> {W_scan, W_rel} then held_by b
      else free_lock)"

definition lw_inv :: "nat \<Rightarrow> nat \<Rightarrow> nat \<Rightarrow> chan \<Rightarrow> lockid \<Rightarrow> lw \<Rightarrow> bool" where
  "lw_inv a b p ch lk g \<longleftrightarrow>
     cpu_id (pcpus g a) = a \<and> cpu_id (pcpus g b) = b \<and>
     (sp g \<noteq> S_asleep \<longrightarrow> curproc (pcpus g a) = Some p) \<and>
     locks (psh g) lk = lw_held lk lk (sp g) (wp_c g) a b \<and>
     locks (psh g) Lk_ptable = lw_held lk Lk_ptable (sp g) (wp_c g) a b \<and>
     (sp g \<in> {S_test, S_acq, S_rel} \<longrightarrow> wp_c g \<notin> {W_set, W_unlock}) \<and>
     (sp g \<in> {S_rel, S_mark, S_switched} \<longrightarrow> wp_c g \<notin> {W_scan, W_rel}) \<and>
     (lcond g \<longleftrightarrow> wp_c g \<notin> {W_lock, W_set}) \<and>
     (sp g \<in> {S_acq, S_rel} \<longrightarrow> wp_c g = W_lock) \<and>
     (sp g \<in> {S_mark, S_switched} \<longrightarrow> wp_c g \<in> {W_lock, W_set, W_unlock, W_acq}) \<and>
     (p_state (procs (psh g) p) = SLEEPING \<longrightarrow>
        sp g \<in> {S_switched, S_asleep} \<and> p_chan (procs (psh g) p) = Some ch \<and>
        wp_c g \<notin> {W_rel, W_done}) \<and>
     (sp g \<in> {S_switched, S_asleep} \<longrightarrow> p_state (procs (psh g) p) \<in> {SLEEPING, RUNNABLE})"

lemma sleep_mark_Switch:
  assumes "sleep_mark ch s = Switch t" and "curproc (cpu s) = Some p"
  shows "t = s\<lparr>procs := (procs s)(p := (procs s p)\<lparr>p_chan := Some ch, p_state := SLEEPING\<rparr>)\<rparr>"
  using assms by (auto simp: sleep_mark_def bnd_def dest: sched_Switch)

lemma back_release_Ret:
  assumes "bnd scheduler_back (\<lambda>_. release lk) s = Ret x t"
  shows "\<exists>c. t = s\<lparr>cpu := c, locks := (locks s)(lk := free_lock)\<rparr> \<and> curproc c = None \<and>
    cpu_id c = cpu_id (cpu s)"
  using assms by (elim bnd_RetE) (auto dest!: scheduler_back_Ret release_Ret)

lemmas lw_simps = lw_inv_def lw_held_def held_by_def free_lock_def

lemma lw_step_inv:
  assumes "lw_step a b ch lk g h" and d: "a \<noteq> b" "lk \<noteq> Lk_ptable" "p < NPROC"
    and inv: "lw_inv a b p ch lk g"
  shows "lw_inv a b p ch lk h"
  using assms(1)
proof (cases rule: lw_step.cases)
  case (s_lock s)
  from acquire_Ret [OF s_lock(3)] s_lock(1,2) d inv show ?thesis
    by (cases "wp_c g") (auto simp: lw_simps)
next
  case s_test
  with d inv show ?thesis by (cases "wp_c g") (auto simp: lw_simps)
next
  case (s_exit s)
  from release_Ret [OF s_exit(4)] s_exit(1,2,3) d inv show ?thesis
    by (cases "wp_c g") (auto simp: lw_simps)
next
  case (s_acq s)
  from acquire_Ret [OF s_acq(3)] s_acq(1,2) d inv show ?thesis
    by (cases "wp_c g") (auto simp: lw_simps)
next
  case (s_rel s)
  from release_Ret [OF s_rel(3)] s_rel(1,2) d inv show ?thesis
    by (cases "wp_c g") (auto simp: lw_simps)
next
  case (s_mark s)
  then have "curproc (cpu (pview a g)) = Some p" using inv by (simp add: lw_inv_def)
  from sleep_mark_Switch [OF s_mark(3) this] s_mark(1,2) d inv show ?thesis
    by (cases "wp_c g") (auto simp: lw_simps)
next
  case (s_switched s)
  from back_release_Ret [OF s_switched(3)] s_switched(1,2) d inv show ?thesis
    by (cases "wp_c g") (auto simp: lw_simps)
next
  case (w_lock s)
  from acquire_Ret [OF w_lock(3)] w_lock(1,2) d inv show ?thesis
    by (cases "sp g") (auto simp: lw_simps)
next
  case w_set
  with d inv show ?thesis by (cases "sp g") (auto simp: lw_simps)
next
  case (w_unlock s)
  from release_Ret [OF w_unlock(3)] w_unlock(1,2) d inv show ?thesis
    by (cases "sp g") (auto simp: lw_simps)
next
  case (w_acq s)
  from acquire_Ret [OF w_acq(3)] w_acq(1,2) d inv show ?thesis
    by (cases "sp g") (auto simp: lw_simps)
next
  case (w_scan s)
  with d inv show ?thesis
    by (cases "sp g") (auto simp: wakeup1_run lw_simps awaken_def split: if_splits)
next
  case (w_rel s)
  from release_Ret [OF w_rel(3)] w_rel(1,2) d inv show ?thesis
    by (cases "sp g") (auto simp: lw_simps)
qed

definition lw_start :: "nat \<Rightarrow> nat \<Rightarrow> nat \<Rightarrow> lockid \<Rightarrow> lw \<Rightarrow> bool" where
  "lw_start a b p lk g \<longleftrightarrow>
     a \<noteq> b \<and> lk \<noteq> Lk_ptable \<and> p < NPROC \<and> sp g = S_lock \<and> wp_c g = W_lock \<and> \<not> lcond g \<and>
     cpu_id (pcpus g a) = a \<and> cpu_id (pcpus g b) = b \<and> curproc (pcpus g a) = Some p \<and>
     locks (psh g) lk = free_lock \<and> locks (psh g) Lk_ptable = free_lock \<and>
     p_state (procs (psh g) p) = RUNNING"

lemma lw_start_inv: "lw_start a b p lk g \<Longrightarrow> lw_inv a b p ch lk g"
  by (auto simp: lw_start_def lw_inv_def lw_held_def)

lemma lw_reach_inv:
  assumes "(lw_step a b ch lk)\<^sup>*\<^sup>* g h" and "lw_start a b p lk g"
  shows "lw_inv a b p ch lk h"
  using assms(1)
proof (induction rule: rtranclp_induct)
  case base
  then show ?case using assms(2) by (rule lw_start_inv)
next
  case (step y z)
  then show ?case using assms(2) lw_step_inv unfolding lw_start_def by blast
qed


definition demo_cpu :: "nat \<Rightarrow> nat option \<Rightarrow> cpu" where
  "demo_cpu c p = \<lparr>cpu_id = c, ncli = 0, intena = False, fl_if = True, cr3 = 0, ts_esp0 = 0,
     curproc = p\<rparr>"

definition demo_proc :: "procstate \<Rightarrow> uint \<Rightarrow> proc" where
  "demo_proc st pid = \<lparr>p_sz = 0, p_pgdir = 0x80400000, p_kstack = 0, p_state = st, p_pid = pid,
     p_parent = None, p_tf = 0, p_context = 0, p_chan = None, p_killed = False,
     p_ofile = (\<lambda>_. None), p_cwd = None, p_name = replicate 16 0\<rparr>"

definition demo_sched :: sched_state where
  "demo_sched = \<lparr>cpu = demo_cpu 0 (Some 3), locks = (\<lambda>_. free_lock), mem = (\<lambda>_. 0), use_lock = True,
     freelist = 0, kend = 0x80110000, kpgdir = 0, kdata = 0x80108000,
     procs = (\<lambda>_. demo_proc UNUSED 0)(3 := demo_proc RUNNING 7), nextpid = 8, initproc = None,
     ticks = 0, k_trapret = 0, k_forkret = 0\<rparr>"

definition lw_demo :: lw where
  "lw_demo = \<lparr>pcpus = (\<lambda>c. demo_cpu c (if c = 0 then Some 3 else None)), psh = demo_sched,
     lcond = False, sp = S_lock, wp_c = W_lock\<rparr>"

lemmas lw_eval = lw_demo_def demo_sched_def demo_cpu_def demo_proc_def pview_def pput_def
  acquire_run release_run holding_def pushed_def popped_def wakeup1_run awaken_def NPROC_def
  sleep_mark_def sched_def scheduler_back_def switchkvm_def lcr3_def bnd_def whenk_def myproc_def


end
