(* ===== verification/Bio.thy ===== *)
theory Bio
  imports Sched
begin

text \<open>
  The buffer cache (\<open>bio.c\<close>, \<open>buf.h\<close>) on the memory-backed disk driver (\<open>memide.c\<close>). Buffers are linked
  in a ring through \<open>prev\<close> and \<open>next\<close>, most recently used first; the model keeps the pointers, and the
  lemmas relate them to the list of buffers in order of use.

  The contract of the cache is stated in terms of \<open>bview\<close>, the contents of every disk block as the
  kernel sees it: the valid cached copy if there is one, the block on the disk otherwise.
\<close>

section \<open>State\<close>

definition BSIZE :: nat where "BSIZE = 512"
definition NBUF :: nat where "NBUF = 30"
definition ROOTDEV :: uint where "ROOTDEV = 1"

definition B_BUSY :: uint where "B_BUSY = 1"
definition B_VALID :: uint where "B_VALID = 2"
definition B_DIRTY :: uint where "B_DIRTY = 4"

lemmas flag_defs = B_BUSY_def B_VALID_def B_DIRTY_def

text \<open>\<open>struct buf\<close>; buffer pointers are indices into \<open>bcache.buf\<close>, and \<open>NBUF\<close> is \<open>bcache.head\<close>.\<close>

record buf =
  b_flags :: uint
  b_dev :: uint
  b_blockno :: uint
  b_prev :: nat
  b_next :: nat
  b_data :: "byte list"

text \<open>The disk image of \<open>memide.c\<close> by block, its size, and \<open>bcache\<close>. \<open>iotrace\<close> is history: the block
  writes that have reached the disk, in order.\<close>

record bio_state = sched_state +
  memdisk :: "uint \<Rightarrow> byte list"
  disksize :: uint
  iotrace :: "(uint \<times> byte list) list"
  bufs :: "nat \<Rightarrow> buf"

definition upd_buf :: "nat \<Rightarrow> (buf \<Rightarrow> buf) \<Rightarrow> ('z bio_state_scheme, unit) kern" where
  "upd_buf b f = modify (\<lambda>s. s\<lparr>bufs := (bufs s)(b := f (bufs s b))\<rparr>)"

section \<open>The disk driver\<close>

definition iderw :: "nat \<Rightarrow> ('z bio_state_scheme, unit) kern" where
  "iderw b = block [
     \<lambda>s. whenk (b_flags (bufs s b) AND B_BUSY = 0) (kpanic ''iderw: buf not busy'') s,
     \<lambda>s. whenk (b_flags (bufs s b) AND (B_VALID OR B_DIRTY) = B_VALID)
       (kpanic ''iderw: nothing to do'') s,
     \<lambda>s. whenk (b_dev (bufs s b) \<noteq> 1) (kpanic ''iderw: request not for disk 1'') s,
     \<lambda>s. whenk (b_blockno (bufs s b) \<ge> disksize s) (kpanic ''iderw: block out of range'') s,
     \<lambda>s. (if b_flags (bufs s b) AND B_DIRTY \<noteq> 0
      then block [
        upd_buf b (\<lambda>r. r\<lparr>b_flags := b_flags r AND NOT B_DIRTY\<rparr>),
        modify (\<lambda>s. s\<lparr>memdisk := (memdisk s)(b_blockno (bufs s b) := b_data (bufs s b)),
          iotrace := iotrace s @ [(b_blockno (bufs s b), b_data (bufs s b))]\<rparr>)]
      else upd_buf b (\<lambda>r. r\<lparr>b_data := memdisk s (b_blockno r)\<rparr>)) s,
     upd_buf b (\<lambda>r. r\<lparr>b_flags := b_flags r OR B_VALID\<rparr>)]"

section \<open>The cache\<close>

definition binit :: "('z bio_state_scheme, unit) kern" where
  "binit = block [
     initlock Lk_bcache,
     upd_buf NBUF (\<lambda>h. h\<lparr>b_prev := NBUF\<rparr>),
     upd_buf NBUF (\<lambda>h. h\<lparr>b_next := NBUF\<rparr>),
     foreach (\<lambda>b. block [
       \<lambda>s. upd_buf b (\<lambda>r. r\<lparr>b_next := b_next (bufs s NBUF)\<rparr>) s,
       upd_buf b (\<lambda>r. r\<lparr>b_prev := NBUF\<rparr>),
       upd_buf b (\<lambda>r. r\<lparr>b_dev := -1\<rparr>),
       \<lambda>s. upd_buf (b_next (bufs s NBUF)) (\<lambda>r. r\<lparr>b_prev := b\<rparr>) s,
       upd_buf NBUF (\<lambda>h. h\<lparr>b_next := b\<rparr>)]) [0..<NBUF]]"

text \<open>The two scans of \<open>bget\<close>: they end at the buffer they are looking for or back at the head.\<close>

definition scan_fwd :: "(buf \<Rightarrow> bool) \<Rightarrow> ('z bio_state_scheme, nat) kern" where
  "scan_fwd P s =
     kwhile (\<lambda>b s. b \<noteq> NBUF \<and> \<not> P (bufs s b)) (\<lambda>b. gets (\<lambda>s. b_next (bufs s b)))
       (b_next (bufs s NBUF)) s"

definition scan_bwd :: "(buf \<Rightarrow> bool) \<Rightarrow> ('z bio_state_scheme, nat) kern" where
  "scan_bwd P s =
     kwhile (\<lambda>b s. b \<noteq> NBUF \<and> \<not> P (bufs s b)) (\<lambda>b. gets (\<lambda>s. b_prev (bufs s b)))
       (b_prev (bufs s NBUF)) s"

text \<open>The body of \<open>bget\<close> from the label \<open>loop\<close> on, with \<open>bcache.lock\<close> held.\<close>

definition bget_loop :: "uint \<Rightarrow> uint \<Rightarrow> ('z bio_state_scheme, nat) kern" where
  "bget_loop dev blockno =
     bnd (scan_fwd (\<lambda>r. b_dev r = dev \<and> b_blockno r = blockno)) (\<lambda>b.
     if b \<noteq> NBUF then
       (\<lambda>s. if b_flags (bufs s b) AND B_BUSY = 0
        then bnd (upd_buf b (\<lambda>r. r\<lparr>b_flags := b_flags r OR B_BUSY\<rparr>)) (\<lambda>_.
             bnd (release Lk_bcache) (\<lambda>_.
             ret b)) s
        else sleep (Ch_buf b) (Some Lk_bcache) s)
     else
       bnd (scan_bwd (\<lambda>r. b_flags r AND B_BUSY = 0 \<and> b_flags r AND B_DIRTY = 0)) (\<lambda>b.
       if b \<noteq> NBUF then
         bnd (upd_buf b (\<lambda>r. r\<lparr>b_dev := dev\<rparr>)) (\<lambda>_.
         bnd (upd_buf b (\<lambda>r. r\<lparr>b_blockno := blockno\<rparr>)) (\<lambda>_.
         bnd (upd_buf b (\<lambda>r. r\<lparr>b_flags := B_BUSY\<rparr>)) (\<lambda>_.
         bnd (release Lk_bcache) (\<lambda>_.
         ret b))))
       else kpanic ''bget: no buffers''))"

definition bget :: "uint \<Rightarrow> uint \<Rightarrow> ('z bio_state_scheme, nat) kern" where
  "bget dev blockno = bnd (acquire Lk_bcache) (\<lambda>_. bget_loop dev blockno)"

text \<open>After the sleep on a busy buffer, \<open>goto loop\<close>.\<close>

definition bget_resume :: "bool \<Rightarrow> uint \<Rightarrow> uint \<Rightarrow> ('z bio_state_scheme, nat) kern" where
  "bget_resume v dev blockno = bnd (sleep_resume v Lk_bcache) (\<lambda>_. bget_loop dev blockno)"

definition bread :: "uint \<Rightarrow> uint \<Rightarrow> ('z bio_state_scheme, nat) kern" where
  "bread dev blockno =
     bnd (bget dev blockno) (\<lambda>b.
     bnd (\<lambda>s. whenk (b_flags (bufs s b) AND B_VALID = 0) (iderw b) s) (\<lambda>_.
     ret b))"

definition bwrite :: "nat \<Rightarrow> ('z bio_state_scheme, unit) kern" where
  "bwrite b = block [
     \<lambda>s. whenk (b_flags (bufs s b) AND B_BUSY = 0) (kpanic ''bwrite'') s,
     upd_buf b (\<lambda>r. r\<lparr>b_flags := b_flags r OR B_DIRTY\<rparr>),
     iderw b]"

definition brelse :: "nat \<Rightarrow> ('z bio_state_scheme, unit) kern" where
  "brelse b = block [
     \<lambda>s. whenk (b_flags (bufs s b) AND B_BUSY = 0) (kpanic ''brelse'') s,
     acquire Lk_bcache,
     \<lambda>s. upd_buf (b_next (bufs s b)) (\<lambda>r. r\<lparr>b_prev := b_prev (bufs s b)\<rparr>) s,
     \<lambda>s. upd_buf (b_prev (bufs s b)) (\<lambda>r. r\<lparr>b_next := b_next (bufs s b)\<rparr>) s,
     \<lambda>s. upd_buf b (\<lambda>r. r\<lparr>b_next := b_next (bufs s NBUF)\<rparr>) s,
     upd_buf b (\<lambda>r. r\<lparr>b_prev := NBUF\<rparr>),
     \<lambda>s. upd_buf (b_next (bufs s NBUF)) (\<lambda>r. r\<lparr>b_prev := b\<rparr>) s,
     upd_buf NBUF (\<lambda>h. h\<lparr>b_next := b\<rparr>),
     upd_buf b (\<lambda>r. r\<lparr>b_flags := b_flags r AND NOT B_BUSY\<rparr>),
     wakeup (Ch_buf b),
     release Lk_bcache]"

section \<open>Rings\<close>

text \<open>\<open>dseg N P a xs b\<close>: \<open>next\<close> leads from \<open>a\<close> through \<open>xs\<close> to \<open>b\<close>, and \<open>prev\<close> back.\<close>

fun dseg :: "(nat \<Rightarrow> nat) \<Rightarrow> (nat \<Rightarrow> nat) \<Rightarrow> nat \<Rightarrow> nat list \<Rightarrow> nat \<Rightarrow> bool" where
  "dseg N P a [] b \<longleftrightarrow> N a = b \<and> P b = a"
| "dseg N P a (x # xs) b \<longleftrightarrow> N a = x \<and> P x = a \<and> dseg N P x xs b"

lemma dseg_append: "dseg N P a (xs @ y # ys) b \<longleftrightarrow> dseg N P a xs y \<and> dseg N P y ys b"
  by (induction xs arbitrary: a) auto

lemma dseg_first: "dseg N P a xs b \<Longrightarrow> N a = (case xs of [] \<Rightarrow> b | x # _ \<Rightarrow> x)"
  by (cases xs) auto

lemma dseg_rev: "dseg N P a xs b \<Longrightarrow> dseg P N b (rev xs) a"
  by (induction xs arbitrary: a) (auto simp: dseg_append)

lemma dseg_cong:
  assumes "\<And>x. x \<in> insert a (set xs) \<Longrightarrow> N x = N' x" and "\<And>x. x \<in> insert b (set xs) \<Longrightarrow> P x = P' x"
  shows "dseg N P a xs b \<longleftrightarrow> dseg N' P' a xs b"
  using assms by (induction xs arbitrary: a) auto

lemma dseg_last: "dseg N P a xs b \<Longrightarrow> P b = last (a # xs)"
  by (induction xs arbitrary: a) auto

lemma dseg_snoc_N:
  assumes "dseg N P a xs b" and "distinct (a # xs)" and "c \<notin> set xs"
  shows "dseg (N(P b := c)) (P(c := P b)) a xs c"
proof (cases xs rule: rev_cases)
  case Nil
  then show ?thesis using assms(1) by simp
next
  case (snoc ys y)
  then have y: "dseg N P a ys y" "P b = y" using assms(1) by (simp_all add: dseg_append)
  have "dseg (N(y := c)) (P(c := y)) a ys y \<longleftrightarrow> dseg N P a ys y"
    using assms(2,3) snoc by (intro dseg_cong) auto
  then show ?thesis using y by (simp add: snoc dseg_append)
qed

lemma dseg_unlink:
  assumes "dseg N P h (us @ b # vs) h" and "distinct (h # us @ b # vs)"
  shows "dseg (N(P b := N b)) (P(N b := P b)) h (us @ vs) h"
proof -
  have u: "dseg N P h us b" and v: "dseg N P b vs h" using assms(1) by (simp_all add: dseg_append)
  have pb: "P b \<in> set (h # us)"
    using dseg_last [OF u] last_in_set [of "h # us"] by simp
  show ?thesis
  proof (cases vs)
    case Nil
    then show ?thesis using dseg_snoc_N [OF u, of h] v assms(2) by auto
  next
    case (Cons w ws)
    then have w: "N b = w" "P w = b" "dseg N P w ws h" using v by auto
    have "dseg (N(P b := w)) (P(w := P b)) h us w"
      using dseg_snoc_N [OF u, of w] assms(2) Cons by auto
    moreover have "dseg (N(P b := w)) (P(w := P b)) w ws h"
      using w(3) pb assms(2) Cons
      by (subst dseg_cong [of w ws _ N h _ P]) auto
    ultimately show ?thesis using w by (simp add: Cons dseg_append)
  qed
qed

lemma dseg_link:
  assumes "dseg N P h xs h" and "distinct (h # b # xs)"
  shows "dseg (N(b := N h, h := b)) (P(b := h, N h := b)) h (b # xs) h"
proof (cases xs)
  case Nil
  then show ?thesis using assms by auto
next
  case (Cons x ys)
  then have x: "N h = x" "dseg N P x ys h" using assms(1) by auto
  have "dseg (N(b := x, h := b)) (P(b := h, x := b)) x ys h \<longleftrightarrow> dseg N P x ys h"
    using assms(2) Cons by (intro dseg_cong) auto
  then show ?thesis using x assms(2) Cons by auto
qed

section \<open>Flags, invariant and view\<close>

definition busy :: "buf \<Rightarrow> bool" where "busy r \<longleftrightarrow> bit (b_flags r) 0"
definition valid :: "buf \<Rightarrow> bool" where "valid r \<longleftrightarrow> bit (b_flags r) 1"
definition dirty :: "buf \<Rightarrow> bool" where "dirty r \<longleftrightarrow> bit (b_flags r) 2"

lemmas state_bits = busy_def valid_def dirty_def

lemma flag_tests [simp]:
  "b_flags r AND B_BUSY = 0 \<longleftrightarrow> \<not> busy r"
  "b_flags r AND B_VALID = 0 \<longleftrightarrow> \<not> valid r"
  "b_flags r AND B_DIRTY = 0 \<longleftrightarrow> \<not> dirty r"
  by (simp_all add: state_bits flag_defs flag_simps)

lemma flag_nothing_to_do [simp]:
  "b_flags r AND (B_VALID OR B_DIRTY) = B_VALID \<longleftrightarrow> valid r \<and> \<not> dirty r"
proof -
  have "f AND (B_VALID OR B_DIRTY) = B_VALID \<longleftrightarrow> (\<forall>n. bit (f AND (B_VALID OR B_DIRTY)) n = bit B_VALID n)" for f
    by (auto intro: bit_eqI)
  also have "\<dots> f \<longleftrightarrow> bit f 1 \<and> \<not> bit f 2" for f
    unfolding bit_and_iff bit_or_iff B_VALID_def B_DIRTY_def bit_small_consts by (metis n_not_Suc_n numeral_2_eq_2 One_nat_def)
  finally show ?thesis by (simp add: state_bits)
qed

lemma bit_flags [simp]:
  "bit B_BUSY n \<longleftrightarrow> n = 0" "bit B_VALID n \<longleftrightarrow> n = 1" "bit B_DIRTY n \<longleftrightarrow> n = 2"
  unfolding flag_defs by (rule bit_small_consts)+

lemma raw_tests:
  "f AND B_BUSY = 0 \<longleftrightarrow> \<not> bit f 0" "f AND B_VALID = 0 \<longleftrightarrow> \<not> bit f 1" "f AND B_DIRTY = 0 \<longleftrightarrow> \<not> bit f 2"
  "f AND (B_VALID OR B_DIRTY) = B_VALID \<longleftrightarrow> bit f 1 \<and> \<not> bit f 2"
  using flag_tests [of "\<lparr>b_flags = f, b_dev = 0, b_blockno = 0, b_prev = 0, b_next = 0, b_data = []\<rparr>"]
    flag_nothing_to_do [of "\<lparr>b_flags = f, b_dev = 0, b_blockno = 0, b_prev = 0, b_next = 0, b_data = []\<rparr>"]
  by (simp_all add: state_bits)

lemma flag_updates [simp]:
  "busy (r\<lparr>b_flags := b_flags r OR B_BUSY\<rparr>)" "valid (r\<lparr>b_flags := b_flags r OR B_BUSY\<rparr>) = valid r"
  "dirty (r\<lparr>b_flags := b_flags r OR B_BUSY\<rparr>) = dirty r"
  "\<not> busy (r\<lparr>b_flags := b_flags r AND NOT B_BUSY\<rparr>)"
  "valid (r\<lparr>b_flags := b_flags r AND NOT B_BUSY\<rparr>) = valid r"
  "dirty (r\<lparr>b_flags := b_flags r AND NOT B_BUSY\<rparr>) = dirty r"
  "dirty (r\<lparr>b_flags := b_flags r OR B_DIRTY\<rparr>)" "busy (r\<lparr>b_flags := b_flags r OR B_DIRTY\<rparr>) = busy r"
  "valid (r\<lparr>b_flags := b_flags r OR B_DIRTY\<rparr>) = valid r"
  by (simp_all add: state_bits flag_defs flag_simps bit_simps)

lemma flags_of_cong:
  "b_flags r = b_flags q \<Longrightarrow> busy r = busy q \<and> valid r = valid q \<and> dirty r = dirty q"
  by (simp add: state_bits)

definition ring :: "(nat \<Rightarrow> buf) \<Rightarrow> nat list \<Rightarrow> bool" where
  "ring bf xs \<longleftrightarrow>
     dseg (\<lambda>i. b_next (bf i)) (\<lambda>i. b_prev (bf i)) NBUF xs NBUF \<and> distinct xs \<and> set xs = {..<NBUF}"

definition caches :: "uint \<Rightarrow> buf \<Rightarrow> bool" where
  "caches bn r \<longleftrightarrow> b_dev r = 1 \<and> b_blockno r = bn"

text \<open>The invariant: the ring is intact; no block is cached twice; a buffer nobody holds has contents
  if it stands for a block, and a clean one agrees with the disk.\<close>

definition binv :: "'z bio_state_scheme \<Rightarrow> bool" where
  "binv s \<longleftrightarrow>
     (\<exists>xs. ring (bufs s) xs) \<and>
     (\<forall>i < NBUF. \<forall>j < NBUF. \<forall>bn. caches bn (bufs s i) \<longrightarrow> caches bn (bufs s j) \<longrightarrow> i = j) \<and>
     (\<forall>i < NBUF. b_dev (bufs s i) \<noteq> 1 \<longrightarrow> \<not> busy (bufs s i) \<and> \<not> dirty (bufs s i)) \<and>
     (\<forall>i < NBUF. b_dev (bufs s i) = 1 \<longrightarrow>
        valid (bufs s i) \<and> length (b_data (bufs s i)) = BSIZE \<and>
        (\<not> dirty (bufs s i) \<longrightarrow> \<not> busy (bufs s i) \<longrightarrow>
          b_data (bufs s i) = memdisk s (b_blockno (bufs s i)))) \<and>
     (\<forall>bn. length (memdisk s bn) = BSIZE)"

definition bview :: "'z bio_state_scheme \<Rightarrow> uint \<Rightarrow> byte list" where
  "bview s bn =
     (case find (\<lambda>i. caches bn (bufs s i)) [0..<NBUF] of
        Some i \<Rightarrow> b_data (bufs s i)
      | None \<Rightarrow> memdisk s bn)"

definition busyb :: "'z bio_state_scheme \<Rightarrow> uint set" where
  "busyb s = {bn. \<exists>i < NBUF. caches bn (bufs s i) \<and> busy (bufs s i)}"

definition dirtyb :: "'z bio_state_scheme \<Rightarrow> uint set" where
  "dirtyb s = {bn. \<exists>i < NBUF. caches bn (bufs s i) \<and> dirty (bufs s i)}"

text \<open>The caller that got buffer \<open>b\<close> from \<open>bread\<close> for block \<open>bn\<close> holds it until \<open>brelse\<close>.\<close>

definition holds :: "'z bio_state_scheme \<Rightarrow> nat \<Rightarrow> uint \<Rightarrow> bool" where
  "holds s b bn \<longleftrightarrow> b < NBUF \<and> caches bn (bufs s b) \<and> busy (bufs s b)"

definition bready :: "'z bio_state_scheme \<Rightarrow> bool" where
  "bready s \<longleftrightarrow> idle Lk_bcache s \<and> idle Lk_ptable s \<and> cpu_ok (cpu s)"

lemma binv_unique:
  "binv s \<Longrightarrow> i < NBUF \<Longrightarrow> j < NBUF \<Longrightarrow> caches bn (bufs s i) \<Longrightarrow> caches bn (bufs s j) \<Longrightarrow> i = j"
  unfolding binv_def by blast

lemma bview_cached:
  assumes "binv s" and "i < NBUF" and "caches bn (bufs s i)"
  shows "bview s bn = b_data (bufs s i)"
proof -
  have "\<not> caches bn (bufs s j)" if "j < i" for j
    using binv_unique [OF assms(1) assms(2) _ assms(3), of j] that assms(2) by auto
  then have "find (\<lambda>i. caches bn (bufs s i)) [0..<NBUF] = Some i"
    using assms by (simp add: find_first_Some)
  then show ?thesis by (simp add: bview_def)
qed

lemma bview_uncached: "\<forall>i < NBUF. \<not> caches bn (bufs s i) \<Longrightarrow> bview s bn = memdisk s bn"
  using find_first_None [of "\<lambda>i. caches bn (bufs s i)" NBUF] by (simp add: bview_def)

lemma binv_disk: "binv s \<Longrightarrow> length (memdisk s bn) = BSIZE"
  by (simp add: binv_def)

lemma binv_buf:
  assumes "binv s" and "i < NBUF" and "caches bn (bufs s i)"
  shows "valid (bufs s i)" "length (b_data (bufs s i)) = BSIZE"
    "\<not> dirty (bufs s i) \<Longrightarrow> \<not> busy (bufs s i) \<Longrightarrow> b_data (bufs s i) = memdisk s bn"
  using assms by (auto simp: binv_def caches_def)

lemma length_bview: "binv s \<Longrightarrow> length (bview s bn) = BSIZE"
  by (cases "\<exists>i < NBUF. caches bn (bufs s i)")
    (auto simp: bview_cached bview_uncached binv_disk binv_buf)

lemma holds_view: "binv s \<Longrightarrow> holds s b bn \<Longrightarrow> b_data (bufs s b) = bview s bn"
  using bview_cached [of s b bn] by (simp add: holds_def)

section \<open>The scans\<close>

lemma scan_list:
  assumes "dseg (\<lambda>i. f (bufs s i)) (\<lambda>i. g (bufs s i)) a xs NBUF" and "NBUF \<notin> set xs"
  shows "kwhile (\<lambda>b s. b \<noteq> NBUF \<and> \<not> Q (bufs s b)) (\<lambda>b. gets (\<lambda>s. f (bufs s b))) (f (bufs s a)) s =
    Ret (case find (\<lambda>b. Q (bufs s b)) xs of None \<Rightarrow> NBUF | Some b \<Rightarrow> b) s"
  using assms
proof (induction xs arbitrary: a)
  case Nil
  then show ?case by (subst kwhile_unfold) simp
next
  case (Cons x xs)
  have x: "f (bufs s a) = x" using Cons.prems by simp
  have ih: "kwhile (\<lambda>b s. b \<noteq> NBUF \<and> \<not> Q (bufs s b))
      (\<lambda>b. gets (\<lambda>s. f (bufs s b))) (f (bufs s x)) s =
    Ret (case find (\<lambda>b. Q (bufs s b)) xs of None \<Rightarrow> NBUF | Some b \<Rightarrow> b) s"
    by (rule Cons.IH) (use Cons.prems in auto)
  show ?case using Cons.prems(2) ih by (subst kwhile_unfold) (simp add: x del: gets_apply)
qed

lemma ring_head: "ring bf xs \<Longrightarrow> NBUF \<notin> set xs"
  by (auto simp: ring_def)

lemma scan_fwd_run:
  "ring (bufs s) xs \<Longrightarrow>
   scan_fwd Q s = Ret (case find (\<lambda>b. Q (bufs s b)) xs of None \<Rightarrow> NBUF | Some b \<Rightarrow> b) s"
  unfolding scan_fwd_def using scan_list [of b_next s b_prev NBUF xs Q]
  by (simp add: ring_def)

lemma scan_bwd_run:
  "ring (bufs s) xs \<Longrightarrow>
   scan_bwd Q s = Ret (case find (\<lambda>b. Q (bufs s b)) (rev xs) of None \<Rightarrow> NBUF | Some b \<Rightarrow> b) s"
  unfolding scan_bwd_def using scan_list [of b_prev s b_next NBUF "rev xs" Q]
  by (simp add: ring_def dseg_rev)

lemma ring_cong:
  "(\<And>i. b_next (bf i) = b_next (bf' i) \<and> b_prev (bf i) = b_prev (bf' i)) \<Longrightarrow> ring bf xs \<longleftrightarrow> ring bf' xs"
  by (simp add: ring_def)

lemma upd_buf_run [simp]: "upd_buf b f s = Ret () (s\<lparr>bufs := (bufs s)(b := f (bufs s b))\<rparr>)"
  by (simp add: upd_buf_def)

section \<open>Reading a block\<close>

text \<open>What \<open>bread\<close> does for the root device, when nobody holds the block: \<open>hit\<close> is the case that it is
  cached, \<open>miss\<close> the case that the least recently used clean buffer is recycled for it.\<close>

definition got :: "byte list \<Rightarrow> uint \<Rightarrow> buf \<Rightarrow> buf \<Rightarrow> bool" where
  "got d bn r r' \<longleftrightarrow> b_next r' = b_next r \<and> b_prev r' = b_prev r \<and> caches bn r' \<and> busy r' \<and> valid r' \<and>
     b_data r' = d \<and> dirty r' = dirty r"

lemma valid_miss: "valid (r\<lparr>b_flags := B_BUSY\<rparr>) \<longleftrightarrow> False" "dirty (r\<lparr>b_flags := B_BUSY\<rparr>) \<longleftrightarrow> False"
  "busy (r\<lparr>b_flags := B_BUSY\<rparr>)"
  by (simp_all add: state_bits flag_defs flag_simps)

lemma flag_valid:
  "valid (r\<lparr>b_flags := f OR B_VALID\<rparr>)" "busy (r\<lparr>b_flags := f OR B_VALID\<rparr>) \<longleftrightarrow> bit f 0"
  "dirty (r\<lparr>b_flags := f OR B_VALID\<rparr>) \<longleftrightarrow> bit f 2"
  by (simp_all add: state_bits bit_or_iff)

lemma iderw_read:
  assumes "busy (bufs s b)" and "\<not> valid (bufs s b)" and "\<not> dirty (bufs s b)"
    and "b_dev (bufs s b) = 1" and "b_blockno (bufs s b) < disksize s"
  shows "iderw b s = Ret () (s\<lparr>bufs := (bufs s)(b := (bufs s b)\<lparr>
    b_data := memdisk s (b_blockno (bufs s b)), b_flags := b_flags (bufs s b) OR B_VALID\<rparr>)\<rparr>)"
  using assms by (simp add: iderw_def whenk_def bnd_def)

lemma bget_hit:
  assumes "ring (bufs s) xs" and "find (\<lambda>b. caches bn (bufs s b)) xs = Some b"
    and "\<not> busy (bufs s b)" and "bready s"
  shows "bget 1 bn s = Ret b (s\<lparr>cpu := settle (cpu s),
    bufs := (bufs s)(b := (bufs s b)\<lparr>b_flags := b_flags (bufs s b) OR B_BUSY\<rparr>)\<rparr>)"
proof -
  have "b < NBUF" using assms(1) find_SomeD [OF assms(2)] by (auto simp: ring_def)
  with assms show ?thesis
    by (simp add: bget_def bget_loop_def bready_def bnd_def lock_run scan_fwd_run caches_def)
qed

lemma bget_miss:
  assumes "ring (bufs s) xs" and "find (\<lambda>b. caches bn (bufs s b)) xs = None"
    and "find (\<lambda>b. \<not> busy (bufs s b) \<and> \<not> dirty (bufs s b)) (rev xs) = Some b" and "bready s"
  shows "bget 1 bn s = Ret b (s\<lparr>cpu := settle (cpu s),
    bufs := (bufs s)(b := (bufs s b)\<lparr>b_dev := 1, b_blockno := bn, b_flags := B_BUSY\<rparr>)\<rparr>)"
proof -
  have "b < NBUF" using assms(1) find_SomeD [OF assms(3)] by (auto simp: ring_def)
  with assms show ?thesis
    by (simp add: bget_def bget_loop_def bready_def bnd_def lock_run scan_fwd_run scan_bwd_run caches_def)
qed

lemma bread_run:
  assumes inv: "binv s" and rdy: "bready s" and free: "bn \<notin> busyb s" and rng: "bn < disksize s"
    and room: "bn \<in> dirtyb s \<or> (\<exists>i < NBUF. \<not> busy (bufs s i) \<and> \<not> dirty (bufs s i))"
  shows "\<exists>b r. b < NBUF \<and> got (bview s bn) bn (bufs s b) r \<and> \<not> busy (bufs s b) \<and>
    (caches bn (bufs s b) \<or> \<not> dirty (bufs s b) \<and> (\<forall>i < NBUF. \<not> caches bn (bufs s i))) \<and>
    bread 1 bn s = Ret b (s\<lparr>cpu := settle (cpu s), bufs := (bufs s)(b := r)\<rparr>)"
proof -
  obtain xs where xs: "ring (bufs s) xs" using inv by (auto simp: binv_def)
  then have set: "set xs = {..<NBUF}" by (simp add: ring_def)
  show ?thesis
  proof (cases "find (\<lambda>b. caches bn (bufs s b)) xs")
    case (Some b)
    then have b: "b < NBUF" "caches bn (bufs s b)" using find_SomeD [OF Some] set by auto
    then have nb: "\<not> busy (bufs s b)" using free by (auto simp: busyb_def)
    have v: "valid (bufs s b)" using binv_buf [OF inv b] by simp
    let ?r = "(bufs s b)\<lparr>b_flags := b_flags (bufs s b) OR B_BUSY\<rparr>"
    have "bread 1 bn s = Ret b (s\<lparr>cpu := settle (cpu s), bufs := (bufs s)(b := ?r)\<rparr>)"
      using v by (simp add: bread_def bnd_def bget_hit [OF xs Some nb rdy] whenk_def)
    moreover have "got (bview s bn) bn (bufs s b) ?r"
      using b v bview_cached [OF inv b] by (simp add: got_def caches_def)
    ultimately show ?thesis using b nb by blast
  next
    case None
    then have nc: "\<forall>i < NBUF. \<not> caches bn (bufs s i)" using set by (auto simp: find_None_iff)
    then have "bn \<notin> dirtyb s" by (auto simp: dirtyb_def)
    then obtain b where fb: "find (\<lambda>b. \<not> busy (bufs s b) \<and> \<not> dirty (bufs s b)) (rev xs) = Some b"
      using room set find_None_iff [of "\<lambda>b. \<not> busy (bufs s b) \<and> \<not> dirty (bufs s b)" "rev xs"]
      by fastforce
    then have b: "b < NBUF" "\<not> busy (bufs s b)" "\<not> dirty (bufs s b)" using find_SomeD [OF fb] set by auto
    let ?r = "(bufs s b)\<lparr>b_dev := 1, b_blockno := bn, b_data := memdisk s bn,
      b_flags := B_BUSY OR B_VALID\<rparr>"
    have "bread 1 bn s = Ret b (s\<lparr>cpu := settle (cpu s), bufs := (bufs s)(b := ?r)\<rparr>)"
      using rng
      by (simp add: bread_def bnd_def bget_miss [OF xs None fb rdy] whenk_def valid_miss iderw_read)
    moreover have "got (bview s bn) bn (bufs s b) ?r"
      using b bview_uncached [OF nc] by (simp add: got_def caches_def flag_valid state_bits bit_or_iff)
    ultimately show ?thesis using b nc by blast
  qed
qed

section \<open>What a change of one buffer means\<close>

text \<open>The three block sets and the view after buffer \<open>b\<close> has been replaced by one that stands for block
  \<open>bn\<close>, when no other buffer does.\<close>

lemma bview_upd:
  assumes "binv s" and "b < NBUF" and "caches bn r" and "\<forall>i < NBUF. i \<noteq> b \<longrightarrow> \<not> caches bn (bufs s i)"
    and "\<not> caches bn (bufs s b) \<longrightarrow> (\<forall>m. caches m (bufs s b) \<longrightarrow> b_data (bufs s b) = memdisk s m)"
  shows "bview (s\<lparr>bufs := (bufs s)(b := r)\<rparr>) = (bview s)(bn := b_data r)"
proof
  fix m
  let ?s = "s\<lparr>bufs := (bufs s)(b := r)\<rparr>"
  have f: "find (\<lambda>i. caches m (bufs ?s i)) [0..<NBUF] = Some i"
    if i: "i < NBUF" "caches m (bufs ?s i)" "\<And>j. j < NBUF \<Longrightarrow> j \<noteq> i \<Longrightarrow> \<not> caches m (bufs ?s j)" for i
  proof -
    have "\<not> caches m (bufs ?s j)" if "j < i" for j
      by (rule i(3)) (use i(1) that in simp_all)
    then show ?thesis unfolding find_first_Some using i(1,2) by blast
  qed
  show "bview ?s m = ((bview s)(bn := b_data r)) m"
  proof (cases "m = bn")
    case True
    have "find (\<lambda>i. caches m (bufs ?s i)) [0..<NBUF] = Some b"
      by (rule f) (use True assms(2-4) in simp_all)
    then show ?thesis using True by (simp add: bview_def)
  next
    case False
    then have nr: "\<not> caches m r" using assms(3) by (auto simp: caches_def)
    show ?thesis
    proof (cases "\<exists>i < NBUF. i \<noteq> b \<and> caches m (bufs s i)")
      case True
      then obtain i where i: "i < NBUF" "i \<noteq> b" "caches m (bufs s i)" by blast
      have "\<not> caches m (bufs ?s j)" if "j < NBUF" "j \<noteq> i" for j
        using nr binv_unique [OF assms(1) that(1) i(1) _ i(3)] that(2) by (cases "j = b") auto
      with i have "find (\<lambda>i. caches m (bufs ?s i)) [0..<NBUF] = Some i" by (intro f) simp_all
      then show ?thesis using i False bview_cached [OF assms(1) i(1,3)] by (simp add: bview_def)
    next
      case no: False
      then have "\<forall>i < NBUF. \<not> caches m (bufs ?s i)" using nr by auto
      then have "bview ?s m = memdisk s m" using bview_uncached [of m ?s] by simp
      moreover have "bview s m = memdisk s m"
      proof (cases "caches m (bufs s b)")
        case True
        then have "\<not> caches bn (bufs s b)" using False by (auto simp: caches_def)
        then show ?thesis using assms(5) True bview_cached [OF assms(1,2) True] by auto
      next
        case False
        with no have "\<forall>i < NBUF. \<not> caches m (bufs s i)" by auto
        then show ?thesis by (rule bview_uncached)
      qed
      ultimately show ?thesis using False by simp
    qed
  qed
qed

lemma bio_frame [simp]:
  "bview (s\<lparr>cpu := c\<rparr>) = bview s" "bview (s\<lparr>locks := l\<rparr>) = bview s"
  "bview (s\<lparr>procs := ps\<rparr>) = bview s" "bview (s\<lparr>iotrace := tr\<rparr>) = bview s"
  "busyb (s\<lparr>cpu := c\<rparr>) = busyb s" "busyb (s\<lparr>locks := l\<rparr>) = busyb s"
  "busyb (s\<lparr>procs := ps\<rparr>) = busyb s" "busyb (s\<lparr>iotrace := tr\<rparr>) = busyb s"
  "busyb (s\<lparr>memdisk := md\<rparr>) = busyb s"
  "dirtyb (s\<lparr>cpu := c\<rparr>) = dirtyb s" "dirtyb (s\<lparr>locks := l\<rparr>) = dirtyb s"
  "dirtyb (s\<lparr>procs := ps\<rparr>) = dirtyb s" "dirtyb (s\<lparr>iotrace := tr\<rparr>) = dirtyb s"
  "dirtyb (s\<lparr>memdisk := md\<rparr>) = dirtyb s"
  "binv (s\<lparr>cpu := c\<rparr>) = binv s" "binv (s\<lparr>locks := l\<rparr>) = binv s"
  "binv (s\<lparr>procs := ps\<rparr>) = binv s" "binv (s\<lparr>iotrace := tr\<rparr>) = binv s"
  by (simp_all add: fun_eq_iff bview_def busyb_def dirtyb_def binv_def split: option.split)

definition only_in :: "'z bio_state_scheme \<Rightarrow> nat \<Rightarrow> uint \<Rightarrow> bool" where
  "only_in s b bn \<longleftrightarrow> b < NBUF \<and> (\<forall>i < NBUF. i \<noteq> b \<longrightarrow> \<not> caches bn (bufs s i)) \<and>
     (caches bn (bufs s b) \<or> \<not> busy (bufs s b) \<and> \<not> dirty (bufs s b))"

lemma only_in_cached: "binv s \<Longrightarrow> b < NBUF \<Longrightarrow> caches bn (bufs s b) \<Longrightarrow> only_in s b bn"
  using binv_unique by (auto simp: only_in_def)

lemma caches_inj: "caches m r \<Longrightarrow> caches n r \<Longrightarrow> m = n"
  by (simp add: caches_def)

lemma sets_upd:
  assumes "only_in s b bn" and "caches bn r"
  shows "busyb (s\<lparr>bufs := (bufs s)(b := r)\<rparr>) = (if busy r then insert bn (busyb s) else busyb s - {bn})"
    and "dirtyb (s\<lparr>bufs := (bufs s)(b := r)\<rparr>) = (if dirty r then insert bn (dirtyb s) else dirtyb s - {bn})"
proof -
  have aux: "{m. \<exists>i < NBUF. caches m (((bufs s)(b := r)) i) \<and> P (((bufs s)(b := r)) i)} =
      (if P r then insert bn {m. \<exists>i < NBUF. caches m (bufs s i) \<and> P (bufs s i)}
       else {m. \<exists>i < NBUF. caches m (bufs s i) \<and> P (bufs s i)} - {bn})" (is "?L = ?R")
    if P: "caches bn (bufs s b) \<or> \<not> P (bufs s b)" for P
  proof (rule set_eqI)
    fix m
    have b: "b < NBUF" and o: "\<forall>i < NBUF. i \<noteq> b \<longrightarrow> \<not> caches bn (bufs s i)"
      using assms(1) by (auto simp: only_in_def)
    show "m \<in> ?L \<longleftrightarrow> m \<in> ?R"
    proof (cases "m = bn")
      case True
      have "m \<in> ?L \<longleftrightarrow> P r"
      proof
        assume "m \<in> ?L"
        then obtain i where "i < NBUF" "caches m (((bufs s)(b := r)) i)" "P (((bufs s)(b := r)) i)" by blast
        with o True show "P r" by (cases "i = b") auto
      next
        assume "P r"
        with b assms(2) True show "m \<in> ?L" by (auto intro: exI [of _ b])
      qed
      with True show ?thesis by simp
    next
      case False
      then have nr: "\<not> caches m r" using assms(2) caches_inj by blast
      have "caches m (bufs s b) \<Longrightarrow> \<not> P (bufs s b)" using P False caches_inj by blast
      with nr have "(caches m (((bufs s)(b := r)) i) \<and> P (((bufs s)(b := r)) i)) =
          (caches m (bufs s i) \<and> P (bufs s i))" for i
        by (cases "i = b") auto
      with False show ?thesis by simp
    qed
  qed
  have e: "bufs (s\<lparr>bufs := (bufs s)(b := r)\<rparr>) = (bufs s)(b := r)" by simp
  show "busyb (s\<lparr>bufs := (bufs s)(b := r)\<rparr>) = (if busy r then insert bn (busyb s) else busyb s - {bn})"
    unfolding busyb_def e by (rule aux) (use assms(1) in \<open>auto simp: only_in_def\<close>)
  show "dirtyb (s\<lparr>bufs := (bufs s)(b := r)\<rparr>) = (if dirty r then insert bn (dirtyb s) else dirtyb s - {bn})"
    unfolding dirtyb_def e by (rule aux) (use assms(1) in \<open>auto simp: only_in_def\<close>)
qed

lemma bview_upd_only:
  assumes "binv s" and "only_in s b bn" and "caches bn r"
  shows "bview (s\<lparr>bufs := (bufs s)(b := r)\<rparr>) = (bview s)(bn := b_data r)"
proof (rule bview_upd [OF assms(1) _ assms(3)])
  show "b < NBUF" and "\<forall>i < NBUF. i \<noteq> b \<longrightarrow> \<not> caches bn (bufs s i)"
    using assms(2) by (simp_all add: only_in_def)
  then show "\<not> caches bn (bufs s b) \<longrightarrow> (\<forall>m. caches m (bufs s b) \<longrightarrow> b_data (bufs s b) = memdisk s m)"
    using assms(2) binv_buf(3) [OF assms(1)] by (auto simp: only_in_def)
qed

lemma ring_upd:
  "b_next r = b_next (bf b) \<Longrightarrow> b_prev r = b_prev (bf b) \<Longrightarrow> ring (bf(b := r)) xs \<longleftrightarrow> ring bf xs"
  by (rule ring_cong) auto

lemma binv_upd:
  assumes inv: "binv s" and o: "only_in s b bn" and r: "caches bn r" "valid r" "length (b_data r) = BSIZE"
    and links: "b_next r = b_next (bufs s b)" "b_prev r = b_prev (bufs s b)"
    and coh: "\<not> dirty r \<Longrightarrow> \<not> busy r \<Longrightarrow> b_data r = memdisk s bn"
  shows "binv (s\<lparr>bufs := (bufs s)(b := r)\<rparr>)"
proof -
  let ?s = "s\<lparr>bufs := (bufs s)(b := r)\<rparr>"
  have dev: "b_dev r = 1" "b_blockno r = bn" using r(1) by (simp_all add: caches_def)
  have u: "i = j" if "i < NBUF" "j < NBUF" "caches m (bufs ?s i)" "caches m (bufs ?s j)" for i j m
  proof -
    have eq: "m = bn" if "caches m r" using that r(1) caches_inj by blast
    show ?thesis
      using that eq o binv_unique [OF inv that(1,2), of m] by (auto simp: only_in_def split: if_splits)
  qed
  have ex: "\<exists>xs. ring (bufs ?s) xs"
    using inv ring_upd [of r "bufs s" b] links by (auto simp: binv_def)
  show ?thesis
    unfolding binv_def
  proof (intro conjI allI impI)
    show "\<exists>xs. ring (bufs ?s) xs" by (rule ex)
    show "i = j" if "i < NBUF" "j < NBUF" "caches m (bufs ?s i)" "caches m (bufs ?s j)" for i j m
      using that by (rule u)
    show "\<not> busy (bufs ?s i)" "\<not> dirty (bufs ?s i)" if "i < NBUF" "b_dev (bufs ?s i) \<noteq> 1" for i
      using that dev inv by (auto simp: binv_def split: if_splits)
    show "valid (bufs ?s i)" "length (b_data (bufs ?s i)) = BSIZE" if "i < NBUF" "b_dev (bufs ?s i) = 1" for i
      using that r inv by (auto simp: binv_def split: if_splits)
    show "b_data (bufs ?s i) = memdisk ?s (b_blockno (bufs ?s i))"
      if "i < NBUF" "b_dev (bufs ?s i) = 1" "\<not> dirty (bufs ?s i)" "\<not> busy (bufs ?s i)" for i
      using that coh dev inv by (auto simp: binv_def split: if_splits)
    show "length (memdisk ?s m) = BSIZE" for m using inv by (simp add: binv_def)
  qed
qed

section \<open>Releasing a buffer\<close>

text \<open>The pointer surgery of \<open>brelse\<close>, on the buffers alone.\<close>

definition set_prev :: "nat \<Rightarrow> nat \<Rightarrow> (nat \<Rightarrow> buf) \<Rightarrow> nat \<Rightarrow> buf" where
  "set_prev i p bf = bf(i := (bf i)\<lparr>b_prev := p\<rparr>)"

definition set_next :: "nat \<Rightarrow> nat \<Rightarrow> (nat \<Rightarrow> buf) \<Rightarrow> nat \<Rightarrow> buf" where
  "set_next i p bf = bf(i := (bf i)\<lparr>b_next := p\<rparr>)"

definition relink :: "nat \<Rightarrow> (nat \<Rightarrow> buf) \<Rightarrow> nat \<Rightarrow> buf" where
  "relink b bf =
     (let bf1 = set_prev (b_next (bf b)) (b_prev (bf b)) bf;
          bf2 = set_next (b_prev (bf1 b)) (b_next (bf1 b)) bf1;
          bf3 = set_next b (b_next (bf2 NBUF)) bf2;
          bf4 = set_prev b NBUF bf3;
          bf5 = set_prev (b_next (bf4 NBUF)) b bf4
      in set_next NBUF b bf5)"

lemma set_links:
  "(\<lambda>i. b_next (set_prev j p bf i)) = (\<lambda>i. b_next (bf i))"
  "(\<lambda>i. b_prev (set_next j p bf i)) = (\<lambda>i. b_prev (bf i))"
  "(\<lambda>i. b_next (set_next j p bf i)) = (\<lambda>i. b_next (bf i))(j := p)"
  "(\<lambda>i. b_prev (set_prev j p bf i)) = (\<lambda>i. b_prev (bf i))(j := p)"
  by (auto simp: set_prev_def set_next_def)

lemma set_links_at [simp]:
  "b_next (set_prev j p bf i) = b_next (bf i)" "b_prev (set_next j p bf i) = b_prev (bf i)"
  "b_next (set_next j p bf i) = (if i = j then p else b_next (bf i))"
  "b_prev (set_prev j p bf i) = (if i = j then p else b_prev (bf i))"
  by (auto simp: set_prev_def set_next_def)

text \<open>Everything but the links is left alone.\<close>

definition same_data :: "(nat \<Rightarrow> buf) \<Rightarrow> (nat \<Rightarrow> buf) \<Rightarrow> bool" where
  "same_data bf bf' \<longleftrightarrow> (\<forall>i. b_flags (bf' i) = b_flags (bf i) \<and> b_dev (bf' i) = b_dev (bf i) \<and>
     b_blockno (bf' i) = b_blockno (bf i) \<and> b_data (bf' i) = b_data (bf i))"

lemma same_data_set: "same_data bf (set_prev j p bf)" "same_data bf (set_next j p bf)"
  by (simp_all add: same_data_def set_prev_def set_next_def)

lemma same_data_trans: "same_data a b \<Longrightarrow> same_data b c \<Longrightarrow> same_data a c"
  by (simp add: same_data_def)

lemma same_data_relink: "same_data bf (relink b bf)"
  unfolding relink_def Let_def by (meson same_data_set same_data_trans)

lemma relink_ring:
  assumes "ring bf (us @ b # vs)"
  shows "ring (relink b bf) (b # us @ vs)"
proof -
  define N where "N = (\<lambda>i. b_next (bf i))"
  define P where "P = (\<lambda>i. b_prev (bf i))"
  have d: "dseg N P NBUF (us @ b # vs) NBUF" and dist: "distinct (NBUF # us @ b # vs)"
      and set: "set (us @ b # vs) = {..<NBUF}"
    using assms by (auto simp: ring_def N_def P_def)
  have nb: "N b \<noteq> b" using d dist dseg_first [of N P b vs NBUF] by (cases vs) (auto simp: dseg_append)
  have bh: "b \<noteq> NBUF" using dist by auto
  let ?N = "N(P b := N b)" and ?P = "P(N b := P b)"
  have "dseg (?N(b := ?N NBUF, NBUF := b)) (?P(b := NBUF, ?N NBUF := b)) NBUF (b # us @ vs) NBUF"
    by (rule dseg_link [OF dseg_unlink [OF d dist]]) (use dist in auto)
  moreover have "(\<lambda>i. b_next (relink b bf i)) = ?N(b := ?N NBUF, NBUF := b)"
    "(\<lambda>i. b_prev (relink b bf i)) = ?P(b := NBUF, ?N NBUF := b)"
    using nb bh by (auto simp: relink_def Let_def N_def P_def fun_eq_iff)
  ultimately show ?thesis using dist set by (auto simp: ring_def)
qed

lemma upd_links:
  "upd_buf i (\<lambda>r. r\<lparr>b_prev := p\<rparr>) s = Ret () (s\<lparr>bufs := set_prev i p (bufs s)\<rparr>)"
  "upd_buf i (\<lambda>r. r\<lparr>b_next := p\<rparr>) s = Ret () (s\<lparr>bufs := set_next i p (bufs s)\<rparr>)"
  by (simp_all add: set_prev_def set_next_def)

definition unbusy :: "nat \<Rightarrow> (nat \<Rightarrow> buf) \<Rightarrow> nat \<Rightarrow> buf" where
  "unbusy b bf = bf(b := (bf b)\<lparr>b_flags := b_flags (bf b) AND NOT B_BUSY\<rparr>)"

lemma upd_unbusy:
  "upd_buf b (\<lambda>r. r\<lparr>b_flags := b_flags r AND NOT B_BUSY\<rparr>) s = Ret () (s\<lparr>bufs := unbusy b (bufs s)\<rparr>)"
  by (simp add: unbusy_def)

lemma brelse_run:
  assumes "busy (bufs s b)" and "bready s"
  shows "brelse b s = Ret () (s\<lparr>cpu := settle (cpu s), procs := awaken (Ch_buf b) (procs s),
    bufs := unbusy b (relink b (bufs s))\<rparr>)"
proof -
  have "locks s Lk_ptable = free_lock" "locks s Lk_bcache = free_lock" "cpu_ok (cpu s)"
    using assms(2) by (simp_all add: bready_def)
  then show ?thesis
    using assms(1) unfolding brelse_def block.simps
    by (simp add: whenk_def bnd_def lock_run wakeup_run upd_links upd_unbusy relink_def Let_def
        del: upd_buf_run set_links_at)
qed

section \<open>Contracts of the cache operations\<close>

lemma data_cong:
  assumes "same_data (bufs s) bf"
  shows "bview (s\<lparr>bufs := bf\<rparr>) = bview s" "busyb (s\<lparr>bufs := bf\<rparr>) = busyb s"
    "dirtyb (s\<lparr>bufs := bf\<rparr>) = dirtyb s" "binv s \<Longrightarrow> \<exists>xs. ring bf xs \<Longrightarrow> binv (s\<lparr>bufs := bf\<rparr>)"
proof -
  have e: "caches bn (bf i) = caches bn (bufs s i)" "busy (bf i) = busy (bufs s i)"
      "valid (bf i) = valid (bufs s i)" "dirty (bf i) = dirty (bufs s i)" for bn i
    using assms by (simp_all add: same_data_def caches_def state_bits)
  have d: "b_data (bf i) = b_data (bufs s i)" "b_dev (bf i) = b_dev (bufs s i)"
      "b_blockno (bf i) = b_blockno (bufs s i)" for i
    using assms by (simp_all add: same_data_def)
  show "bview (s\<lparr>bufs := bf\<rparr>) = bview s"
    by (rule ext) (simp add: bview_def e d cong: option.case_cong)
  show "busyb (s\<lparr>bufs := bf\<rparr>) = busyb s" "dirtyb (s\<lparr>bufs := bf\<rparr>) = dirtyb s"
    by (simp_all add: busyb_def dirtyb_def e)
  show "binv (s\<lparr>bufs := bf\<rparr>)" if "binv s" "\<exists>xs. ring bf xs"
    using that by (simp add: binv_def e d)
qed

text \<open>What a cache operation may change: the CPU's remembered interrupt flag, the states of sleeping
  processes, the disk and the buffers.\<close>

definition bio_step :: "'z bio_state_scheme \<Rightarrow> 'z bio_state_scheme \<Rightarrow> bool" where
  "bio_step s t \<longleftrightarrow> (\<exists>v ps md tr bf. (\<forall>i. \<exists>st. ps i = (procs s i)\<lparr>p_state := st\<rparr>) \<and>
     t = s\<lparr>cpu := (cpu s)\<lparr>intena := v\<rparr>, procs := ps, memdisk := md, iotrace := tr, bufs := bf\<rparr>)"

lemma bio_stepI:
  assumes "\<And>i. \<exists>st. ps i = (procs s i)\<lparr>p_state := st\<rparr>"
  shows "bio_step s (s\<lparr>cpu := (cpu s)\<lparr>intena := v\<rparr>, procs := ps, memdisk := md, iotrace := tr, bufs := bf\<rparr>)"
  using assms unfolding bio_step_def by blast

lemma bio_step_refl [simp]: "bio_step s s"
proof -
  have "\<exists>st. procs s i = (procs s i)\<lparr>p_state := st\<rparr>" for i by (rule exI [of _ "p_state (procs s i)"]) simp
  then show ?thesis
    using bio_stepI [of "procs s" s "bufs s" "iotrace s" "memdisk s" "intena (cpu s)"] by simp
qed

lemma bio_step_trans [trans]:
  assumes "bio_step s t" and "bio_step t u"
  shows "bio_step s u"
proof -
  obtain v ps md tr bf where t: "\<And>i. \<exists>st. ps i = (procs s i)\<lparr>p_state := st\<rparr>"
    "t = s\<lparr>cpu := (cpu s)\<lparr>intena := v\<rparr>, procs := ps, memdisk := md, iotrace := tr, bufs := bf\<rparr>"
    using assms(1) unfolding bio_step_def by blast
  obtain v' ps' md' tr' bf' where u: "\<And>i. \<exists>st. ps' i = (procs t i)\<lparr>p_state := st\<rparr>"
    "u = t\<lparr>cpu := (cpu t)\<lparr>intena := v'\<rparr>, procs := ps', memdisk := md', iotrace := tr', bufs := bf'\<rparr>"
    using assms(2) unfolding bio_step_def by blast
  have "\<exists>st. ps' i = (procs s i)\<lparr>p_state := st\<rparr>" for i
  proof -
    obtain st where "ps' i = (ps i)\<lparr>p_state := st\<rparr>" using u(1) [of i] t(2) by auto
    moreover obtain st' where "ps i = (procs s i)\<lparr>p_state := st'\<rparr>" using t(1) by blast
    ultimately show ?thesis by auto
  qed
  with bio_stepI [of ps' s bf' tr' md' v'] u(2) t(2) show ?thesis by simp
qed

lemma bio_step_simps:
  assumes "bio_step s t"
  shows "locks t = locks s" "mem t = mem s" "freelist t = freelist s" "disksize t = disksize s"
    "curproc (cpu t) = curproc (cpu s)" "cpu_id (cpu t) = cpu_id (cpu s)" "cpu_ok (cpu t) = cpu_ok (cpu s)"
    "bready t = bready s" "ticks t = ticks s" "nextpid t = nextpid s" "initproc t = initproc s"
    "use_lock t = use_lock s" "kend t = kend s"
  using assms by (auto simp: bio_step_def cpu_ok_def bready_def)

lemma settle_intena: "\<exists>v. settle c = c\<lparr>intena := v\<rparr>"
  by (cases "ncli c = 0") (auto simp: settle_def intro: exI [of _ "fl_if c"] exI [of _ "intena c"])

lemma proc_same: "\<exists>st. r = (r :: proc)\<lparr>p_state := st\<rparr>"
  by (rule exI [of _ "p_state r"]) simp

lemma bio_step_disk:
  "bio_step s (s\<lparr>memdisk := md, iotrace := tr, bufs := bf\<rparr>)" "bio_step s (s\<lparr>bufs := bf\<rparr>)"
  using bio_stepI [OF proc_same, of s bf tr md "intena (cpu s)"]
    bio_stepI [OF proc_same, of s bf "iotrace s" "memdisk s" "intena (cpu s)"]
  by simp_all

lemma bio_step_bufs: "bio_step s (s\<lparr>cpu := settle (cpu s), bufs := bf\<rparr>)"
proof -
  obtain v where v: "settle (cpu s) = (cpu s)\<lparr>intena := v\<rparr>" using settle_intena by blast
  show ?thesis
    using bio_stepI [OF proc_same, of s bf "iotrace s" "memdisk s" v] v by simp
qed

text \<open>\<open>bread\<close>: needs a buffer that is neither held nor pinned.\<close>

lemma room_from_card:
  assumes "binv s" and "card (busyb s \<union> dirtyb s) < NBUF"
  shows "\<exists>i < NBUF. \<not> busy (bufs s i) \<and> \<not> dirty (bufs s i)"
proof (rule ccontr)
  assume "\<not> ?thesis"
  then have all: "busy (bufs s i) \<or> dirty (bufs s i)" if "i < NBUF" for i using that by blast
  then have dev: "caches (b_blockno (bufs s i)) (bufs s i)" if "i < NBUF" for i
    using that assms(1) by (auto simp: binv_def caches_def)
  have inj: "inj_on (\<lambda>i. b_blockno (bufs s i)) {..<NBUF}"
    by (rule inj_onI) (metis binv_unique [OF assms(1)] dev lessThan_iff)
  have sub: "(\<lambda>i. b_blockno (bufs s i)) ` {..<NBUF} \<subseteq> busyb s \<union> dirtyb s"
    using all dev by (fastforce simp: busyb_def dirtyb_def)
  have fin: "finite (busyb s \<union> dirtyb s)"
    by (rule finite_subset [of _ "(\<lambda>i. b_blockno (bufs s i)) ` {..<NBUF}"])
      (auto simp: busyb_def dirtyb_def caches_def)
  from card_mono [OF fin sub] card_image [OF inj] assms(2) show False by simp
qed

lemma finite_busyb: "finite (busyb s)" and finite_dirtyb: "finite (dirtyb s)"
proof -
  have "busyb s \<subseteq> (\<lambda>i. b_blockno (bufs s i)) ` {..<NBUF}" "dirtyb s \<subseteq> (\<lambda>i. b_blockno (bufs s i)) ` {..<NBUF}"
    by (auto simp: busyb_def dirtyb_def caches_def)
  then show "finite (busyb s)" "finite (dirtyb s)" by (auto intro: finite_subset)
qed

lemma bread_spec:
  assumes "binv s" and "bready s" and "bn \<notin> busyb s" and "bn < disksize s"
    and "bn \<in> dirtyb s \<or> card (busyb s \<union> dirtyb s) < NBUF"
  shows "wp (bread 1 bn) (\<lambda>b t. bio_step s t \<and> binv t \<and> holds t b bn \<and> bview t = bview s \<and>
    busyb t = insert bn (busyb s) \<and> dirtyb t = dirtyb s \<and> memdisk t = memdisk s \<and>
    iotrace t = iotrace s \<and> (\<forall>c m. holds s c m \<longrightarrow> holds t c m)) s"
proof -
  obtain b r where b: "b < NBUF" "got (bview s bn) bn (bufs s b) r" "\<not> busy (bufs s b)"
      "caches bn (bufs s b) \<or> \<not> dirty (bufs s b) \<and> (\<forall>i < NBUF. \<not> caches bn (bufs s i))"
      "bread 1 bn s = Ret b (s\<lparr>cpu := settle (cpu s), bufs := (bufs s)(b := r)\<rparr>)"
    using bread_run [OF assms(1-4)] room_from_card [OF assms(1)] assms(5) by blast
  let ?s = "s\<lparr>cpu := settle (cpu s)\<rparr>" and ?t = "s\<lparr>cpu := settle (cpu s), bufs := (bufs s)(b := r)\<rparr>"
  have inv: "binv ?s" using assms(1) by simp
  have r: "caches bn r" "busy r" "valid r" "b_data r = bview s bn" "dirty r = dirty (bufs s b)"
      "b_next r = b_next (bufs s b)" "b_prev r = b_prev (bufs s b)"
    using b(2) by (simp_all add: got_def)
  have o: "only_in ?s b bn"
    using b(1,3,4) only_in_cached [OF inv b(1)] by (cases "caches bn (bufs s b)") (auto simp: only_in_def)
  have "binv ?t"
    using binv_upd [OF inv o r(1,3)] r length_bview [OF assms(1)] by simp
  moreover have "bview ?t = bview s"
    using bview_upd_only [OF inv o r(1)] r(4) by simp
  moreover have "busyb ?t = insert bn (busyb s)" "dirtyb ?t = dirtyb s"
  proof -
    show "busyb ?t = insert bn (busyb s)" using sets_upd(1) [OF o r(1)] r(2) by simp
    have "bn \<in> dirtyb s" if "dirty (bufs s b)" using that b(1,4) by (auto simp: dirtyb_def)
    moreover have "bn \<notin> dirtyb s" if "\<not> dirty (bufs s b)"
      using that b(1,4) o binv_unique [OF assms(1)] by (auto simp: dirtyb_def only_in_def)
    ultimately show "dirtyb ?t = dirtyb s" using sets_upd(2) [OF o r(1)] r(5) by auto
  qed
  moreover have "holds ?t c m" if "holds s c m" for c m
    using that b(3) by (auto simp: holds_def)
  ultimately show ?thesis using b(1,5) r bio_step_bufs by (auto simp: wp_iff holds_def)
qed

lemma bset_spec:
  assumes "binv s" and "holds s b bn" and "length d = BSIZE"
  shows "wp (upd_buf b (\<lambda>r. r\<lparr>b_data := d\<rparr>)) (\<lambda>_ t. bio_step s t \<and> binv t \<and> bview t = (bview s)(bn := d) \<and>
    busyb t = busyb s \<and> dirtyb t = dirtyb s \<and> memdisk t = memdisk s \<and> iotrace t = iotrace s \<and>
    (\<forall>c m. holds s c m \<longrightarrow> holds t c m)) s"
proof -
  let ?r = "(bufs s b)\<lparr>b_data := d\<rparr>" and ?t = "s\<lparr>bufs := (bufs s)(b := (bufs s b)\<lparr>b_data := d\<rparr>)\<rparr>"
  have h: "b < NBUF" "caches bn (bufs s b)" "busy (bufs s b)" using assms(2) by (auto simp: holds_def)
  have o: "only_in s b bn" by (rule only_in_cached [OF assms(1) h(1,2)])
  have r: "caches bn ?r" "valid ?r" "busy ?r" "dirty ?r = dirty (bufs s b)"
    using h binv_buf(1) [OF assms(1) h(1,2)] by (simp_all add: caches_def state_bits)
  have inv: "binv ?t" by (rule binv_upd [OF assms(1) o r(1,2)]) (use assms(3) r in simp_all)
  have st: "bio_step s ?t" by (rule bio_step_disk(2))
  have "busyb ?t = busyb s" "dirtyb ?t = dirtyb s"
    using sets_upd [OF o r(1)] r(3,4) h assms(1) o
    by (auto simp: busyb_def dirtyb_def only_in_def)
  moreover have "holds ?t c m" if "holds s c m" for c m
    using that r h by (auto simp: holds_def caches_def)
  ultimately show ?thesis using st inv bview_upd_only [OF assms(1) o r(1)] by (simp add: wp_def)
qed

lemma bwrite_run:
  assumes "busy (bufs s b)" and "b_dev (bufs s b) = 1" and "b_blockno (bufs s b) < disksize s"
  shows "bwrite b s = Ret () (s\<lparr>
    memdisk := (memdisk s)(b_blockno (bufs s b) := b_data (bufs s b)),
    iotrace := iotrace s @ [(b_blockno (bufs s b), b_data (bufs s b))],
    bufs := (bufs s)(b := (bufs s b)\<lparr>b_flags :=
      (b_flags (bufs s b) OR B_DIRTY) AND NOT B_DIRTY OR B_VALID\<rparr>)\<rparr>)"
proof -
  let ?s = "s\<lparr>bufs := (bufs s)(b := (bufs s b)\<lparr>b_flags := b_flags (bufs s b) OR B_DIRTY\<rparr>)\<rparr>"
  have "iderw b ?s = Ret () (s\<lparr>
    memdisk := (memdisk s)(b_blockno (bufs s b) := b_data (bufs s b)),
    iotrace := iotrace s @ [(b_blockno (bufs s b), b_data (bufs s b))],
    bufs := (bufs s)(b := (bufs s b)\<lparr>b_flags :=
      (b_flags (bufs s b) OR B_DIRTY) AND NOT B_DIRTY OR B_VALID\<rparr>)\<rparr>)"
    unfolding iderw_def block.simps whenk_def bnd_def
    using assms by (simp add: raw_tests state_bits bit_or_iff linorder_not_le
        del: flag_tests flag_nothing_to_do)
  then show ?thesis using assms(1) by (simp add: bwrite_def whenk_def bnd_def)
qed

lemma flags_after_write:
  "busy (r\<lparr>b_flags := (b_flags r OR B_DIRTY) AND NOT B_DIRTY OR B_VALID\<rparr>) = busy r"
  "valid (r\<lparr>b_flags := (b_flags r OR B_DIRTY) AND NOT B_DIRTY OR B_VALID\<rparr>)"
  "\<not> dirty (r\<lparr>b_flags := (b_flags r OR B_DIRTY) AND NOT B_DIRTY OR B_VALID\<rparr>)"
  by (auto simp: state_bits bit_or_iff bit_and_iff bit_not_iff)

text \<open>The disk may change under a held buffer.\<close>

lemma disk_upd:
  assumes "binv u" and "holds u b bn" and "length d = BSIZE"
  shows "binv (u\<lparr>memdisk := (memdisk u)(bn := d)\<rparr>)"
    and "bview (u\<lparr>memdisk := (memdisk u)(bn := d)\<rparr>) = bview u"
proof -
  let ?t = "u\<lparr>memdisk := (memdisk u)(bn := d)\<rparr>"
  have h: "b < NBUF" "caches bn (bufs u b)" "busy (bufs u b)" using assms(2) by (auto simp: holds_def)
  have ne: "b_blockno (bufs u i) \<noteq> bn" if "i < NBUF" "b_dev (bufs u i) = 1" "\<not> busy (bufs u i)" for i
    using that h binv_unique [OF assms(1) that(1) h(1), of bn] by (auto simp: caches_def)
  show inv: "binv ?t"
    unfolding binv_def
  proof (intro conjI allI impI)
    show "b_data (bufs ?t i) = memdisk ?t (b_blockno (bufs ?t i))"
      if "i < NBUF" "b_dev (bufs ?t i) = 1" "\<not> dirty (bufs ?t i)" "\<not> busy (bufs ?t i)" for i
      using that ne [of i] assms(1) by (simp add: binv_def)
    show "length (memdisk ?t m) = BSIZE" for m
      using assms(1,3) by (simp add: binv_def)
    show "i = j" if "i < NBUF" "j < NBUF" "caches m (bufs ?t i)" "caches m (bufs ?t j)" for i j m
      using binv_unique [OF assms(1) that(1,2)] that(3,4) by simp
  qed (use assms(1) in \<open>simp_all add: binv_def\<close>)
  show "bview ?t = bview u"
  proof
    fix m
    show "bview ?t m = bview u m"
    proof (cases "m = bn")
      case True
      then show ?thesis using bview_cached [OF inv h(1)] bview_cached [OF assms(1) h(1)] h(2) by simp
    next
      case False
      then show ?thesis by (simp add: bview_def split: option.split)
    qed
  qed
qed

lemma bwrite_spec:
  assumes "binv s" and "holds s b bn" and "bn < disksize s"
  shows "wp (bwrite b) (\<lambda>_ t. bio_step s t \<and> binv t \<and> bview t = bview s \<and> busyb t = busyb s \<and>
    dirtyb t = dirtyb s - {bn} \<and> memdisk t = (memdisk s)(bn := bview s bn) \<and>
    iotrace t = iotrace s @ [(bn, bview s bn)] \<and> (\<forall>c m. holds s c m \<longrightarrow> holds t c m)) s"
proof -
  let ?r = "(bufs s b)\<lparr>b_flags := (b_flags (bufs s b) OR B_DIRTY) AND NOT B_DIRTY OR B_VALID\<rparr>"
  let ?d = "bview s bn"
  have h: "b < NBUF" "caches bn (bufs s b)" "busy (bufs s b)" using assms(2) by (auto simp: holds_def)
  have dat: "b_data (bufs s b) = ?d" "b_dev (bufs s b) = 1" "b_blockno (bufs s b) = bn"
    using holds_view [OF assms(1,2)] h(2) by (simp_all add: caches_def)
  have o: "only_in s b bn" by (rule only_in_cached [OF assms(1) h(1,2)])
  have r: "caches bn ?r" "valid ?r" "busy ?r" "\<not> dirty ?r" "b_data ?r = ?d"
    using h dat by (simp_all add: caches_def flags_after_write)
  define u where "u = s\<lparr>bufs := (bufs s)(b := ?r)\<rparr>"
  define t where "t = u\<lparr>memdisk := (memdisk u)(bn := ?d)\<rparr>\<lparr>iotrace := iotrace s @ [(bn, ?d)]\<rparr>"
  have inv: "binv u" unfolding u_def
    by (rule binv_upd [OF assms(1) o r(1,2)]) (use r(3) dat length_bview [OF assms(1)] in simp_all)
  have hu: "holds u b bn" using h(1) r(1,3) by (simp add: u_def holds_def)
  have vu: "bview u = bview s" using bview_upd_only [OF assms(1) o r(1)] r(5) by (simp add: u_def)
  note du = disk_upd [OF inv hu length_bview [OF assms(1)], of bn]
  have "binv t" "bview t = bview s" using du vu by (simp_all add: t_def)
  moreover have "busyb t = busyb s" "dirtyb t = dirtyb s - {bn}"
    using sets_upd [OF o r(1)] r(3,4) h by (auto simp: t_def u_def busyb_def)
  moreover have "holds t c m" if "holds s c m" for c m
    using that r(1,3) h by (auto simp: t_def u_def holds_def caches_def)
  moreover have "bwrite b s = Ret () t"
    using bwrite_run [OF h(3)] dat assms(3) by (simp add: t_def u_def)
  moreover have "bio_step s t"
  proof -
    have "t = s\<lparr>memdisk := (memdisk s)(bn := ?d), iotrace := iotrace s @ [(bn, ?d)],
        bufs := (bufs s)(b := ?r)\<rparr>"
      by (simp add: t_def u_def)
    then show ?thesis by (simp only: bio_step_disk)
  qed
  ultimately show ?thesis by (simp add: wp_def) (simp add: t_def u_def)
qed

lemma awaken_state: "\<exists>st. awaken ch ps i = (ps i)\<lparr>p_state := st\<rparr>"
  unfolding awaken_def using proc_same [of "ps i"] by auto

lemma brelse_spec:
  assumes "binv s" and "bready s" and "holds s b bn" and "bn \<in> dirtyb s \<or> bview s bn = memdisk s bn"
  shows "wp (brelse b) (\<lambda>_ t. bio_step s t \<and> binv t \<and> bview t = bview s \<and> busyb t = busyb s - {bn} \<and>
    dirtyb t = dirtyb s \<and> memdisk t = memdisk s \<and> iotrace t = iotrace s \<and>
    (\<forall>c m. holds s c m \<longrightarrow> c \<noteq> b \<longrightarrow> holds t c m)) s"
proof -
  have h: "b < NBUF" "caches bn (bufs s b)" "busy (bufs s b)" using assms(3) by (auto simp: holds_def)
  have dat: "b_data (bufs s b) = bview s bn" by (rule holds_view [OF assms(1,3)])
  define l where "l = s\<lparr>cpu := settle (cpu s), procs := awaken (Ch_buf b) (procs s)\<rparr>"
  define u where "u = l\<lparr>bufs := relink b (bufs l)\<rparr>"
  let ?r = "(bufs u b)\<lparr>b_flags := b_flags (bufs u b) AND NOT B_BUSY\<rparr>"
  define t where "t = u\<lparr>bufs := (bufs u)(b := ?r)\<rparr>"
  obtain xs where xs: "ring (bufs s) xs" using assms(1) by (auto simp: binv_def)
  then have "b \<in> set xs" using h(1) by (simp add: ring_def)
  then obtain us vs where "xs = us @ b # vs" by (meson split_list)
  then have ring: "\<exists>ys. ring (relink b (bufs s)) ys" using relink_ring xs by blast
  have sd: "same_data (bufs l) (relink b (bufs l))" by (rule same_data_relink)
  have l: "bufs l = bufs s" "binv l" "bview l = bview s" "busyb l = busyb s" "dirtyb l = dirtyb s"
      "memdisk l = memdisk s"
    using assms(1) by (simp_all add: l_def)
  note dc = data_cong [OF sd]
  have u: "binv u" "bview u = bview s" "busyb u = busyb s" "dirtyb u = dirtyb s" "memdisk u = memdisk s"
    using dc l ring by (simp_all add: u_def)
  have ub: "b_flags (bufs u i) = b_flags (bufs s i)" "caches m (bufs u i) = caches m (bufs s i)"
      "b_data (bufs u i) = b_data (bufs s i)" for m i
    using sd l by (simp_all add: u_def same_data_def caches_def)
  have o: "only_in u b bn" using only_in_cached [OF u(1) h(1)] ub h by simp
  have fl: "busy (bufs u b) = busy (bufs s b)" "valid (bufs u b) = valid (bufs s b)"
      "dirty (bufs u b) = dirty (bufs s b)"
    using flags_of_cong [OF ub(1)] by blast+
  have v: "valid (bufs s b)" "length (b_data (bufs s b)) = BSIZE"
    using binv_buf [OF assms(1) h(1,2)] by simp_all
  have dirty: "dirty (bufs s b) \<longleftrightarrow> bn \<in> dirtyb s"
    using h binv_unique [OF assms(1) h(1)] by (auto simp: dirtyb_def)
  have r: "caches bn ?r" "valid ?r" "\<not> busy ?r" "dirty ?r = dirty (bufs s b)" "b_data ?r = bview s bn"
    using ub(2) [of bn b] h v fl dat ub(3) [of b] by (simp_all add: caches_def)
  have inv: "binv t" unfolding t_def
    by (rule binv_upd [OF u(1) o r(1,2)]) (use r v dat u(5) assms(4) dirty in auto)
  moreover have "bview t = bview s" unfolding t_def using bview_upd_only [OF u(1) o r(1)] r(5) u(2) by simp
  moreover have "busyb t = busyb s - {bn}" "dirtyb t = dirtyb s"
    unfolding t_def using sets_upd [OF o r(1)] r(3,4) u dirty by auto
  moreover have "holds t c m" if "holds s c m" "c \<noteq> b" for c m
    using that ub(2) [of m c] flags_of_cong [OF ub(1) [of c]] by (simp add: t_def holds_def)
  moreover have "brelse b s = Ret () t"
    unfolding brelse_run [OF h(3) assms(2)] by (simp add: t_def u_def l_def unbusy_def)
  moreover have "bio_step s t"
  proof -
    obtain w where "settle (cpu s) = (cpu s)\<lparr>intena := w\<rparr>" using settle_intena by blast
    then show ?thesis
      using bio_stepI [of "awaken (Ch_buf b) (procs s)" s "bufs t" "iotrace s" "memdisk s" w] awaken_state
      by (simp add: t_def u_def l_def)
  qed
  ultimately show ?thesis by (simp add: wp_def) (simp add: t_def u_def l_def)
qed

section \<open>The interface: a cache over an array of blocks\<close>

text \<open>
  What the log and the file system rely on. \<open>ok s\<close> is the provider's invariant; \<open>view\<close> is the contents of
  the blocks as clients see them and \<open>disk\<close> what is on the disk; \<open>held\<close> and \<open>pinned\<close> are the blocks
  somebody holds and the ones that wait for a commit; \<open>rest s t\<close> says that nothing outside the
  block layer changed.
\<close>

text \<open>A client that reads and writes whole blocks through the cache, and what it should see: an array of
  blocks.\<close>

datatype blk_op = Blk_read uint | Blk_write uint "byte list"

fun blk_run :: "(uint \<Rightarrow> ('s, nat) kern) \<Rightarrow> (nat \<Rightarrow> byte list \<Rightarrow> ('s, unit) kern) \<Rightarrow> (nat \<Rightarrow> ('s, unit) kern) \<Rightarrow>
    (nat \<Rightarrow> ('s, unit) kern) \<Rightarrow> ('s \<Rightarrow> nat \<Rightarrow> byte list) \<Rightarrow> blk_op list \<Rightarrow> ('s, byte list list) kern" where
  "blk_run rd setd wr rel contents [] = ret []"
| "blk_run rd setd wr rel contents (Blk_read bn # ops) =
     bnd (rd bn) (\<lambda>b. bnd (gets (\<lambda>s. contents s b)) (\<lambda>d. bnd (rel b) (\<lambda>_.
     bnd (blk_run rd setd wr rel contents ops) (\<lambda>out. ret (d # out)))))"
| "blk_run rd setd wr rel contents (Blk_write bn d # ops) =
     bnd (rd bn) (\<lambda>b. bnd (setd b d) (\<lambda>_. bnd (wr b) (\<lambda>_. bnd (rel b) (\<lambda>_.
     blk_run rd setd wr rel contents ops))))"

fun blk_spec :: "blk_op list \<Rightarrow> (uint \<Rightarrow> byte list) \<Rightarrow> byte list list \<times> (uint \<Rightarrow> byte list)" where
  "blk_spec [] a = ([], a)"
| "blk_spec (Blk_read bn # ops) a = (let (out, a') = blk_spec ops a in (a bn # out, a'))"
| "blk_spec (Blk_write bn d # ops) a = blk_spec ops (a(bn := d))"

fun blk_ok :: "uint \<Rightarrow> blk_op \<Rightarrow> bool" where
  "blk_ok n (Blk_read bn) \<longleftrightarrow> bn < n"
| "blk_ok n (Blk_write bn d) \<longleftrightarrow> bn < n \<and> length d = BSIZE"

locale block_cache =
  fixes rd :: "uint \<Rightarrow> ('s, nat) kern"
    and setd :: "nat \<Rightarrow> byte list \<Rightarrow> ('s, unit) kern"
    and wr :: "nat \<Rightarrow> ('s, unit) kern"
    and rel :: "nat \<Rightarrow> ('s, unit) kern"
    and ok :: "'s \<Rightarrow> bool"
    and has :: "'s \<Rightarrow> nat \<Rightarrow> uint \<Rightarrow> bool"
    and contents :: "'s \<Rightarrow> nat \<Rightarrow> byte list"
    and view :: "'s \<Rightarrow> uint \<Rightarrow> byte list"
    and disk :: "'s \<Rightarrow> uint \<Rightarrow> byte list"
    and held :: "'s \<Rightarrow> uint set"
    and pinned :: "'s \<Rightarrow> uint set"
    and trace :: "'s \<Rightarrow> (uint \<times> byte list) list"
    and range :: "'s \<Rightarrow> uint"
    and rest :: "'s \<Rightarrow> 's \<Rightarrow> bool"
  assumes rest_trans: "rest s t \<Longrightarrow> rest t u \<Longrightarrow> rest s u"
    and rest_range: "rest s t \<Longrightarrow> range t = range s"
    and held_finite: "finite (held s)" and pinned_finite: "finite (pinned s)"
    and view_length: "ok s \<Longrightarrow> length (view s bn) = BSIZE"
    and has_contents: "ok s \<Longrightarrow> has s b bn \<Longrightarrow> contents s b = view s bn"
    and has_held: "has s b bn \<Longrightarrow> bn \<in> held s"
    and has_unique: "ok s \<Longrightarrow> has s b bn \<Longrightarrow> has s c bn \<Longrightarrow> b = c"
    and has_block: "has s b bn \<Longrightarrow> has s b bm \<Longrightarrow> bn = bm"
    and clean: "ok s \<Longrightarrow> bn \<notin> held s \<Longrightarrow> bn \<notin> pinned s \<Longrightarrow> view s bn = disk s bn"
    and rd_law: "ok s \<Longrightarrow> bn \<notin> held s \<Longrightarrow> bn < range s \<Longrightarrow>
      bn \<in> pinned s \<or> card (held s \<union> pinned s) < NBUF \<Longrightarrow>
      wp (rd bn) (\<lambda>b t. rest s t \<and> ok t \<and> has t b bn \<and> view t = view s \<and> held t = insert bn (held s) \<and>
        pinned t = pinned s \<and> disk t = disk s \<and> trace t = trace s \<and> (\<forall>c m. has s c m \<longrightarrow> has t c m)) s"
    and setd_law: "ok s \<Longrightarrow> has s b bn \<Longrightarrow> length d = BSIZE \<Longrightarrow>
      wp (setd b d) (\<lambda>_ t. rest s t \<and> ok t \<and> view t = (view s)(bn := d) \<and> held t = held s \<and>
        pinned t = pinned s \<and> disk t = disk s \<and> trace t = trace s \<and> (\<forall>c m. has s c m \<longrightarrow> has t c m)) s"
    and wr_law: "ok s \<Longrightarrow> has s b bn \<Longrightarrow> bn < range s \<Longrightarrow>
      wp (wr b) (\<lambda>_ t. rest s t \<and> ok t \<and> view t = view s \<and> held t = held s \<and> pinned t = pinned s - {bn} \<and>
        disk t = (disk s)(bn := view s bn) \<and> trace t = trace s @ [(bn, view s bn)] \<and>
        (\<forall>c m. has s c m \<longrightarrow> has t c m)) s"
    and rel_law: "ok s \<Longrightarrow> has s b bn \<Longrightarrow> bn \<in> pinned s \<or> view s bn = disk s bn \<Longrightarrow>
      wp (rel b) (\<lambda>_ t. rest s t \<and> ok t \<and> view t = view s \<and> held t = held s - {bn} \<and> pinned t = pinned s \<and>
        disk t = disk s \<and> trace t = trace s \<and> (\<forall>c m. has s c m \<longrightarrow> c \<noteq> b \<longrightarrow> has t c m)) s"
begin

lemma read_two:
  assumes "ok s" and "held s = {}" and "a \<noteq> b" and "a < range s" and "b < range s"
    and "a \<in> pinned s \<or> card (pinned s) < NBUF" and "b \<in> pinned s \<or> card (insert a (pinned s)) < NBUF"
  obtains x t y u where "rd a s = Ret x t" and "rest s t" and "rd b t = Ret y u" and "rest s u" and "ok u"
    and "has u x a" and "has u y b" and "view u = view s" and "held u = {a, b}" and "pinned u = pinned s"
    and "disk u = disk s" and "trace u = trace s"
proof -
  have r: "a \<notin> held s" "a \<in> pinned s \<or> card (held s \<union> pinned s) < NBUF" using assms(2,6) by simp_all
  obtain x t where p1: "rd a s = Ret x t" and t: "rest s t" "ok t" "has t x a" "view t = view s"
      "held t = insert a (held s)" "pinned t = pinned s" "disk t = disk s" "trace t = trace s"
    using rd_law [OF assms(1) r(1) assms(4) r(2)] unfolding wp_iff by blast
  have q: "b \<notin> held t" "b < range t" "b \<in> pinned t \<or> card (held t \<union> pinned t) < NBUF"
    using assms(2,3,5,7) rest_range [OF t(1)] by (simp_all add: t)
  obtain y u where p2: "rd b t = Ret y u" and u: "rest t u" "ok u" "has u y b" "has u x a" "view u = view t"
      "held u = insert b (held t)" "pinned u = pinned t" "disk u = disk t" "trace u = trace t"
    using rd_law [OF t(2) q] t(3) unfolding wp_iff by blast
  have "rest s u" using t(1) u(1) rest_trans by blast
  moreover have "held u = {a, b}" using u(6) t(5) assms(2) by auto
  ultimately show ?thesis using that [OF p1 t(1) p2] u t by simp
qed

text \<open>Copying one held block over another and writing it: the loop bodies of \<open>write_log\<close> and
  \<open>install_trans\<close> after their two reads.\<close>

lemma copy_held:
  assumes "ok s" and "has s t to" and "has s f src" and "src \<noteq> to" and "to < range s"
    and "held s = {src, to}" and "src \<in> pinned s \<or> view s src = disk s src"
  shows "wp (bnd (\<lambda>s. setd t (contents s f) s) (\<lambda>_. bnd (wr t) (\<lambda>_. bnd (rel f) (\<lambda>_. rel t))))
    (\<lambda>_ u. rest s u \<and> ok u \<and> held u = {} \<and> pinned u = pinned s - {to} \<and> view u = (view s)(to := view s src) \<and>
      disk u = (disk s)(to := view s src) \<and> trace u = trace s @ [(to, view s src)]) s"
proof -
  let ?d = "view s src"
  have tf: "t \<noteq> f" using assms(2-4) has_block by blast
  have c: "contents s f = ?d" using has_contents assms(1,3) by blast
  obtain s1 where p1: "setd t ?d s = Ret () s1" and s1: "rest s s1" "ok s1" "view s1 = (view s)(to := ?d)"
      "held s1 = held s" "pinned s1 = pinned s" "disk s1 = disk s" "trace s1 = trace s"
      "has s1 t to" "has s1 f src"
    using setd_law [OF assms(1,2) view_length [OF assms(1)], of src] assms(2,3) unfolding wp_unit by blast
  have r1: "to < range s1" using rest_range [OF s1(1)] assms(5) by simp
  obtain s2 where p2: "wr t s1 = Ret () s2" and s2: "rest s1 s2" "ok s2" "view s2 = view s1"
      "held s2 = held s1" "pinned s2 = pinned s1 - {to}" "disk s2 = (disk s1)(to := view s1 to)"
      "trace s2 = trace s1 @ [(to, view s1 to)]" "has s2 t to" "has s2 f src"
    using wr_law [OF s1(2,8) r1] s1(8,9) unfolding wp_unit by blast
  have q2: "src \<in> pinned s2 \<or> view s2 src = disk s2 src"
    using assms(4,7) unfolding s2 s1 by simp
  obtain s3 where p3: "rel f s2 = Ret () s3" and s3: "rest s2 s3" "ok s3" "view s3 = view s2"
      "held s3 = held s2 - {src}" "pinned s3 = pinned s2" "disk s3 = disk s2" "trace s3 = trace s2"
      "has s3 t to"
    using rel_law [OF s2(2,9) q2] s2(8) tf unfolding wp_unit by blast
  have q3: "to \<in> pinned s3 \<or> view s3 to = disk s3 to" unfolding s3 s2 s1 by simp
  obtain u where p4: "rel t s3 = Ret () u" and u: "rest s3 u" "ok u" "view u = view s3"
      "held u = held s3 - {to}" "pinned u = pinned s3" "disk u = disk s3" "trace u = trace s3"
    using rel_law [OF s3(2,8) q3] unfolding wp_unit by blast
  have "rest s u" using s1(1) s2(1) s3(1) u(1) rest_trans by blast
  moreover have "held u = {}" unfolding u s3 s2 s1 assms(6) by blast
  ultimately show ?thesis
    using u(2) by (simp add: wp_def bnd_def c p1 p2 p3 p4 u(3,5-7) s3(3,5-7) s2(3,5-7) s1(3,5-7))
qed

lemma read_block:
  assumes "ok s" and "held s = {}" and "bn < range s" and "bn \<in> pinned s \<or> card (pinned s) < NBUF"
  obtains b s1 t where "rd bn s = Ret b s1" and "contents s1 b = view s bn" and "rel b s1 = Ret () t"
    and "rest s s1" and "rest s t" and "ok t" and "held t = {}" and "pinned t = pinned s" and "disk t = disk s"
    and "view t = view s" and "trace t = trace s"
proof -
  have r: "bn \<notin> held s" "bn \<in> pinned s \<or> card (held s \<union> pinned s) < NBUF"
    using assms(2,4) by simp_all
  obtain b s1 where p1: "rd bn s = Ret b s1" and s1: "rest s s1" "ok s1" "has s1 b bn" "view s1 = view s"
      "held s1 = insert bn (held s)" "pinned s1 = pinned s" "disk s1 = disk s" "trace s1 = trace s"
    using rd_law [OF assms(1) r(1) assms(3) r(2)] unfolding wp_iff by blast
  have q: "bn \<in> pinned s1 \<or> view s1 bn = disk s1 bn"
    using clean [OF assms(1), of bn] assms(2) unfolding s1 by auto
  obtain t where p2: "rel b s1 = Ret () t" and t: "rest s1 t" "ok t" "held t = held s1 - {bn}"
      "pinned t = pinned s1" "disk t = disk s1" "view t = view s1" "trace t = trace s1"
    using rel_law [OF s1(2,3) q] unfolding wp_unit by blast
  have "rest s t" using s1(1) t(1) rest_trans by blast
  moreover have "held t = {}" unfolding t s1 assms(2) by simp
  ultimately show ?thesis
    by (intro that [OF p1 _ p2]) (simp_all add: has_contents [OF s1(2,3)] s1(1,4,6-8) t(2,4-7))
qed

lemma write_one:
  assumes "ok s" and "held s = {}" and "bn < range s" and "length d = BSIZE"
    and "bn \<in> pinned s \<or> card (pinned s) < NBUF"
  obtains b s1 s2 s3 t where "rd bn s = Ret b s1" and "rest s s1" and "contents s1 b = view s bn"
    and "setd b d s1 = Ret () s2" and "wr b s2 = Ret () s3" and "rel b s3 = Ret () t" and "rest s t" and "ok t"
    and "held t = {}" and "pinned t = pinned s - {bn}" and "disk t = (disk s)(bn := d)"
    and "view t = (view s)(bn := d)" and "trace t = trace s @ [(bn, d)]"
proof -
  have r: "bn \<notin> held s" "bn \<in> pinned s \<or> card (held s \<union> pinned s) < NBUF"
    using assms(2,5) by simp_all
  obtain b s1 where p1: "rd bn s = Ret b s1" and s1: "rest s s1" "ok s1" "has s1 b bn"
      "held s1 = insert bn (held s)" "pinned s1 = pinned s" "disk s1 = disk s" "view s1 = view s"
      "trace s1 = trace s"
    using rd_law [OF assms(1) r(1) assms(3) r(2)] unfolding wp_iff by blast
  obtain s2 where p2: "setd b d s1 = Ret () s2" and s2: "rest s1 s2" "ok s2" "has s2 b bn"
      "view s2 = (view s1)(bn := d)" "held s2 = held s1" "pinned s2 = pinned s1" "disk s2 = disk s1"
      "trace s2 = trace s1"
    using setd_law [OF s1(2,3) assms(4)] s1(3) unfolding wp_unit by blast
  have "bn < range s2" using rest_range [OF s1(1)] rest_range [OF s2(1)] assms(3) by simp
  then obtain s3 where p3: "wr b s2 = Ret () s3" and s3: "rest s2 s3" "ok s3" "has s3 b bn" "view s3 = view s2"
      "held s3 = held s2" "pinned s3 = pinned s2 - {bn}" "disk s3 = (disk s2)(bn := view s2 bn)"
      "trace s3 = trace s2 @ [(bn, view s2 bn)]"
    using wr_law [OF s2(2,3)] s2(3) unfolding wp_unit by blast
  have q: "bn \<in> pinned s3 \<or> view s3 bn = disk s3 bn" unfolding s3 s2 by simp
  obtain t where p4: "rel b s3 = Ret () t" and t: "rest s3 t" "ok t" "held t = held s3 - {bn}"
      "pinned t = pinned s3" "disk t = disk s3" "view t = view s3" "trace t = trace s3"
    using rel_law [OF s3(2,3) q] unfolding wp_unit by blast
  have "rest s t" using s1(1) s2(1) s3(1) t(1) rest_trans by blast
  moreover have "held t = {}" unfolding t s3 s2 s1 using assms(2) by auto
  ultimately show ?thesis
    by (intro that [OF p1 s1(1) _ p2 p3 p4])
      (simp_all add: has_contents [OF s1(2,3)] s1(5-8) s2(4,6-8) s3(4,6-8) t(2,4-7))
qed

lemma run_refines:
  "ok s \<Longrightarrow> held s = {} \<Longrightarrow> pinned s = {} \<Longrightarrow> list_all (blk_ok (range s)) ops \<Longrightarrow>
   wp (blk_run rd setd wr rel contents ops)
     (\<lambda>out t. (out, disk t) = blk_spec ops (disk s) \<and> ok t \<and> held t = {} \<and> pinned t = {}) s"
proof (induction ops arbitrary: s)
  case Nil
  then show ?case by (simp add: wp_ret)
next
  case (Cons op ops)
  show ?case
  proof (cases op)
    case (Blk_read bn)
    then have bn: "bn < range s" using Cons.prems(4) by simp
    have v: "view s bn = disk s bn" using clean [OF Cons.prems(1), of bn] Cons.prems(2,3) by simp
    obtain b s1 t where s: "rd bn s = Ret b s1" "contents s1 b = disk s bn" "rel b s1 = Ret () t"
        "rest s t" "ok t" "held t = {}" "pinned t = {}" "disk t = disk s"
      by (rule read_block [OF Cons.prems(1,2) bn]) (use Cons.prems(3) v that in \<open>auto simp: NBUF_def\<close>)
    have "list_all (blk_ok (range t)) ops" using Cons.prems(4) rest_range [OF s(4)] by simp
    from Cons.IH [OF s(5-7) this] show ?thesis
      unfolding wp_iff by (auto simp: Blk_read bnd_def s split: prod.splits)
  next
    case (Blk_write bn d)
    then have bn: "bn < range s" "length d = BSIZE" using Cons.prems(4) by simp_all
    obtain b s1 s2 s3 t where s: "rd bn s = Ret b s1" "setd b d s1 = Ret () s2" "wr b s2 = Ret () s3"
        "rel b s3 = Ret () t" "rest s t" "ok t" "held t = {}" "pinned t = {}" "disk t = (disk s)(bn := d)"
      by (rule write_one [OF Cons.prems(1,2) bn]) (use Cons.prems(3) that in \<open>auto simp: NBUF_def\<close>)
    have "list_all (blk_ok (range t)) ops" using Cons.prems(4) rest_range [OF s(5)] by simp
    from Cons.IH [OF s(6-8) this] show ?thesis
      unfolding wp_iff by (auto simp: Blk_write bnd_def s)
  qed
qed

end

definition bok :: "'z bio_state_scheme \<Rightarrow> bool" where
  "bok s \<longleftrightarrow> binv s \<and> bready s"

lemma bio_step_ok: "bio_step s t \<Longrightarrow> bok s \<Longrightarrow> binv t \<Longrightarrow> bok t"
  using bio_step_simps(8) by (auto simp: bok_def)

definition bput :: "nat \<Rightarrow> byte list \<Rightarrow> ('z bio_state_scheme, unit) kern" where
  "bput b d = upd_buf b (\<lambda>r. r\<lparr>b_data := d\<rparr>)"

definition bcontents :: "'z bio_state_scheme \<Rightarrow> nat \<Rightarrow> byte list" where
  "bcontents s b = b_data (bufs s b)"

lemma bview_clean:
  assumes "binv s" and "bn \<notin> busyb s" and "bn \<notin> dirtyb s"
  shows "bview s bn = memdisk s bn"
proof (cases "\<exists>i < NBUF. caches bn (bufs s i)")
  case True
  then obtain i where i: "i < NBUF" "caches bn (bufs s i)" by blast
  then have "\<not> busy (bufs s i)" "\<not> dirty (bufs s i)" using assms(2,3) by (auto simp: busyb_def dirtyb_def)
  then show ?thesis using bview_cached [OF assms(1) i] binv_buf(3) [OF assms(1) i] by simp
next
  case False
  then show ?thesis by (intro bview_uncached) blast
qed

interpretation bc: block_cache "bread 1" bput bwrite brelse bok holds bcontents bview memdisk busyb dirtyb
  iotrace disksize bio_step
proof (unfold_locales, goal_cases)
  case (1 s t u)
  then show ?case by (rule bio_step_trans)
next
  case (2 s t)
  then show ?case by (rule bio_step_simps)
next
  case (3 s)
  then show ?case by (rule finite_busyb)
next
  case (4 s)
  then show ?case by (rule finite_dirtyb)
next
  case (5 s bn)
  then show ?case by (intro length_bview) (simp add: bok_def)
next
  case (6 s b bn)
  then show ?case by (simp add: bok_def bcontents_def holds_view)
next
  case (7 s b bn)
  then show ?case by (auto simp: holds_def busyb_def)
next
  case (8 s b bn c)
  then show ?case using binv_unique by (auto simp: bok_def holds_def)
next
  case (9 s b bn bm)
  then show ?case using caches_inj by (auto simp: holds_def)
next
  case (10 s bn)
  then show ?case by (intro bview_clean) (simp_all add: bok_def)
next
  case (11 s bn)
  then have "binv s" "bready s" by (simp_all add: bok_def)
  from bread_spec [OF this 11(2-4)] show ?case by (rule wp_mono) (use 11(1) bio_step_ok in blast)
next
  case (12 s b bn d)
  then have "binv s" by (simp add: bok_def)
  from bset_spec [OF this 12(2,3)] show ?case
    unfolding bput_def by (rule wp_mono) (use 12(1) bio_step_ok in blast)
next
  case (13 s b bn)
  then have "binv s" by (simp add: bok_def)
  from bwrite_spec [OF this 13(2,3)] show ?case by (rule wp_mono) (use 13(1) bio_step_ok in blast)
next
  case (14 s b bn)
  then have "binv s" "bready s" by (simp_all add: bok_def)
  from brelse_spec [OF this 14(2,3)] show ?case by (rule wp_mono) (use 14(1) bio_step_ok in blast)
qed

section \<open>The cache is correct\<close>

text \<open>One round of the loop of \<open>binit\<close>: buffer \<open>b\<close> goes to the front of the ring.\<close>

definition set_dev :: "nat \<Rightarrow> uint \<Rightarrow> (nat \<Rightarrow> buf) \<Rightarrow> nat \<Rightarrow> buf" where
  "set_dev i d bf = bf(i := (bf i)\<lparr>b_dev := d\<rparr>)"

definition push_front :: "nat \<Rightarrow> (nat \<Rightarrow> buf) \<Rightarrow> nat \<Rightarrow> buf" where
  "push_front b bf =
     (let bf1 = set_next b (b_next (bf NBUF)) bf; bf2 = set_prev b NBUF bf1; bf3 = set_dev b (-1) bf2;
          bf4 = set_prev (b_next (bf3 NBUF)) b bf3
      in set_next NBUF b bf4)"

lemma set_dev_simps [simp]:
  "b_next (set_dev i d bf j) = b_next (bf j)" "b_prev (set_dev i d bf j) = b_prev (bf j)"
  "b_dev (set_dev i d bf j) = (if i = j then d else b_dev (bf j))"
  "b_flags (set_dev i d bf j) = b_flags (bf j)" "b_data (set_dev i d bf j) = b_data (bf j)"
  by (simp_all add: set_dev_def)

lemma set_link_others [simp]:
  "b_dev (set_next i p bf j) = b_dev (bf j)" "b_dev (set_prev i p bf j) = b_dev (bf j)"
  "b_flags (set_next i p bf j) = b_flags (bf j)" "b_flags (set_prev i p bf j) = b_flags (bf j)"
  "b_data (set_next i p bf j) = b_data (bf j)" "b_data (set_prev i p bf j) = b_data (bf j)"
  by (simp_all add: set_next_def set_prev_def)

lemma push_front_others:
  "b_dev (push_front b bf j) = (if j = b then -1 else b_dev (bf j))"
  "b_flags (push_front b bf j) = b_flags (bf j)" "b_data (push_front b bf j) = b_data (bf j)"
  by (simp_all add: push_front_def Let_def)

lemma push_front_ring:
  assumes "dseg (\<lambda>i. b_next (bf i)) (\<lambda>i. b_prev (bf i)) NBUF xs NBUF" and "distinct (NBUF # b # xs)"
  shows "dseg (\<lambda>i. b_next (push_front b bf i)) (\<lambda>i. b_prev (push_front b bf i)) NBUF (b # xs) NBUF"
proof -
  let ?N = "\<lambda>i. b_next (bf i)" and ?P = "\<lambda>i. b_prev (bf i)"
  have "(\<lambda>i. b_next (push_front b bf i)) = ?N(b := ?N NBUF, NBUF := b)"
    "(\<lambda>i. b_prev (push_front b bf i)) = ?P(b := NBUF, ?N NBUF := b)"
    using assms(2) by (auto simp: push_front_def Let_def fun_eq_iff)
  then show ?thesis using dseg_link [OF assms] by simp
qed

lemma upd_dev: "upd_buf i (\<lambda>r. r\<lparr>b_dev := d\<rparr>) s = Ret () (s\<lparr>bufs := set_dev i d (bufs s)\<rparr>)"
  by (simp add: set_dev_def)

lemma binit_run:
  "binit s = Ret () (s\<lparr>locks := (locks s)(Lk_bcache := free_lock),
     bufs := fold push_front [0..<NBUF] (set_next NBUF NBUF (set_prev NBUF NBUF (bufs s)))\<rparr>)"
proof -
  have f: "fold (\<lambda>b s. s\<lparr>bufs := push_front b (bufs s)\<rparr>) bs u = u\<lparr>bufs := fold push_front bs (bufs u)\<rparr>"
    for bs and u :: "'a bio_state_scheme"
    by (induction bs arbitrary: u) simp_all
  have body: "(\<lambda>b. block [
       \<lambda>s. upd_buf b (\<lambda>r. r\<lparr>b_next := b_next (bufs s NBUF)\<rparr>) s,
       upd_buf b (\<lambda>r. r\<lparr>b_prev := NBUF\<rparr>),
       upd_buf b (\<lambda>r. r\<lparr>b_dev := -1\<rparr>),
       \<lambda>s. upd_buf (b_next (bufs s NBUF)) (\<lambda>r. r\<lparr>b_prev := b\<rparr>) s,
       upd_buf NBUF (\<lambda>h. h\<lparr>b_next := b\<rparr>)]) =
     (\<lambda>b. modify (\<lambda>s :: 'a bio_state_scheme. s\<lparr>bufs := push_front b (bufs s)\<rparr>))"
    by (simp add: fun_eq_iff bnd_def upd_links upd_dev push_front_def Let_def
        del: upd_buf_run set_links_at)
  show ?thesis
    unfolding binit_def body
    by (simp add: initlock_def bnd_def upd_links foreach_modify f free_lock_def del: upd_buf_run)
qed

lemma push_all:
  assumes "dseg (\<lambda>i. b_next (bf i)) (\<lambda>i. b_prev (bf i)) NBUF [] NBUF" and "k \<le> NBUF"
  shows "dseg (\<lambda>i. b_next (fold push_front [0..<k] bf i)) (\<lambda>i. b_prev (fold push_front [0..<k] bf i)) NBUF
      (rev [0..<k]) NBUF \<and>
    (\<forall>i. b_flags (fold push_front [0..<k] bf i) = b_flags (bf i)) \<and>
    (\<forall>i < k. b_dev (fold push_front [0..<k] bf i) = -1)"
  using assms(2)
proof (induction k)
  case 0
  then show ?case using assms(1) by simp
next
  case (Suc k)
  then show ?case using push_front_ring [of "fold push_front [0..<k] bf" "rev [0..<k]" k]
    by (auto simp: push_front_others less_Suc_eq)
qed

lemma binit_inv:
  assumes "\<forall>i < NBUF. b_flags (bufs s i) = 0" and "\<forall>bn. length (memdisk s bn) = BSIZE"
    and "idle Lk_ptable s" and "cpu_ok (cpu s)"
  shows "wp binit (\<lambda>_ t. bok t \<and> busyb t = {} \<and> dirtyb t = {} \<and> memdisk t = memdisk s \<and>
    disksize t = disksize s \<and> iotrace t = iotrace s \<and>
    (\<exists>bf. t = s\<lparr>locks := (locks s)(Lk_bcache := free_lock), bufs := bf\<rparr>)) s"
proof -
  let ?bf = "set_next NBUF NBUF (set_prev NBUF NBUF (bufs s))"
  let ?t = "s\<lparr>locks := (locks s)(Lk_bcache := free_lock), bufs := fold push_front [0..<NBUF] ?bf\<rparr>"
  have "dseg (\<lambda>i. b_next (?bf i)) (\<lambda>i. b_prev (?bf i)) NBUF [] NBUF" by simp
  note p = push_all [OF this order_refl]
  have fl: "b_flags (bufs ?t i) = 0" "b_dev (bufs ?t i) = -1" if "i < NBUF" for i
    using p assms(1) that by simp_all
  then have n: "\<not> caches bn (bufs ?t i)" "\<not> busy (bufs ?t i)" "\<not> dirty (bufs ?t i)" if "i < NBUF" for bn i
    using fl [OF that] by (simp_all add: caches_def state_bits)
  have "ring (bufs ?t) (rev [0..<NBUF])" using p by (auto simp: ring_def)
  then have "binv ?t" using n fl assms(2) unfolding binv_def by auto
  moreover have "bready ?t" using assms(3,4) by (simp add: bready_def)
  moreover have "busyb ?t = {}" "dirtyb ?t = {}" using n by (auto simp: busyb_def dirtyb_def)
  moreover have "\<exists>bf. ?t = s\<lparr>locks := (locks s)(Lk_bcache := free_lock), bufs := bf\<rparr>" by blast
  ultimately show ?thesis by (simp add: wp_def binit_run bok_def)
qed

text \<open>C6. The buffer cache is transparent. From a cache on which no block is held or waits for a commit
  (\<open>binit\<close> gives one), a client that reads and writes blocks of the root device with \<open>bread\<close>,
  \<open>bwrite\<close> and \<open>brelse\<close>, in any order and over more blocks than the cache has buffers, always returns,
  and reads and leaves on the disk exactly what an array of blocks would hold.\<close>

theorem cache_refines_disk:
  assumes "bok s" and "busyb s = {}" and "dirtyb s = {}" and "list_all (blk_ok (disksize s)) ops"
  shows "wp (blk_run (bread 1) bput bwrite brelse bcontents ops)
    (\<lambda>out t. (out, memdisk t) = blk_spec ops (memdisk s) \<and> bview t = memdisk t \<and> bok t) s"
proof (rule wp_mono [OF bc.run_refines [OF assms]])
  fix out and t :: "'a bio_state_scheme"
  assume a: "(out, memdisk t) = blk_spec ops (memdisk s) \<and> bok t \<and> busyb t = {} \<and> dirtyb t = {}"
  then have "bview t = memdisk t" by (intro ext bc.clean) simp_all
  with a show "(out, memdisk t) = blk_spec ops (memdisk s) \<and> bview t = memdisk t \<and> bok t" by blast
qed

definition demo_buf :: buf where
  "demo_buf = \<lparr>b_flags = 0, b_dev = 0, b_blockno = 0, b_prev = 0, b_next = 0, b_data = []\<rparr>"

definition bio_demo :: bio_state where
  "bio_demo = sched_state.extend demo_sched
     \<lparr>memdisk = (\<lambda>_. replicate BSIZE 0), disksize = 1000, iotrace = [], bufs = (\<lambda>_. demo_buf)\<rparr>"

lemma bio_demo_init: "wp binit (\<lambda>_ t. bok t \<and> busyb t = {} \<and> dirtyb t = {} \<and>
    memdisk t = (\<lambda>_. replicate BSIZE 0) \<and> disksize t = 1000 \<and> iotrace t = []) bio_demo"
  using binit_inv [of bio_demo] unfolding wp_unit
  by (auto simp: bio_demo_def demo_sched_def demo_cpu_def demo_buf_def sched_state.defs cpu_ok_def)

theorem cache_refines_disk_witness:
  "\<exists>s t. binit bio_demo = Ret () s \<and>
     blk_run (bread 1) bput bwrite brelse bcontents
       [Blk_write 5 (replicate BSIZE 1), Blk_read 5, Blk_read 6] s =
       Ret [replicate BSIZE 1, replicate BSIZE 0] t \<and>
     memdisk t 5 = replicate BSIZE 1"
proof -
  obtain s where s: "binit bio_demo = Ret () s" "bok s" "busyb s = {}" "dirtyb s = {}"
      "memdisk s = (\<lambda>_. replicate BSIZE 0)" "disksize s = 1000"
    using bio_demo_init unfolding wp_unit by blast
  have "list_all (blk_ok (disksize s)) [Blk_write 5 (replicate BSIZE 1), Blk_read 5, Blk_read 6]"
    by (simp add: s(6))
  from cache_refines_disk [OF s(2-4) this] s(1) show ?thesis
    unfolding wp_iff by (auto simp: s(5))
qed

end
