(* ===== verification/Log.thy ===== *)
theory Log
  imports Bio
begin

text \<open>
  The write-ahead log (\<open>log.c\<close>): transactions of file-system calls, group commit and recovery. The
  on-disk header is read and written byte by byte. Because the buffer cache records every block write
  that reaches the disk, the commit protocol is judged at every point where the machine may stop.

  A block write is taken to be atomic, as the protocol assumes of the header.
\<close>

section \<open>State\<close>

definition MAXOPBLOCKS :: int where "MAXOPBLOCKS = 10"
definition LOGSIZE :: int where "LOGSIZE = MAXOPBLOCKS * 3"

text \<open>\<open>struct superblock\<close> of \<open>fs.h\<close>, read by \<open>initlog\<close> and by the file system.\<close>

record superblock =
  sb_size :: uint
  sb_nblocks :: uint
  sb_ninodes :: uint
  sb_nlog :: uint
  sb_logstart :: uint
  sb_inodestart :: uint
  sb_bmapstart :: uint

text \<open>\<open>struct log\<close>; \<open>log_n\<close> and \<open>log_block\<close> are its \<open>struct logheader\<close>.\<close>

record log_state = bio_state +
  log_start :: uint
  log_size :: int
  log_outstanding :: int
  log_committing :: bool
  log_dev :: uint
  log_n :: int
  log_block :: "nat \<Rightarrow> uint"

section \<open>Operations\<close>

definition dec_sb :: "byte list \<Rightarrow> superblock" where
  "dec_sb d = \<lparr>sb_size = rd32 d 0, sb_nblocks = rd32 d 4, sb_ninodes = rd32 d 8, sb_nlog = rd32 d 12,
     sb_logstart = rd32 d 16, sb_inodestart = rd32 d 20, sb_bmapstart = rd32 d 24\<rparr>"

definition readsb :: "uint \<Rightarrow> ('z bio_state_scheme, superblock) kern" where
  "readsb dev =
     bnd (bread dev 1) (\<lambda>bp.
     bnd (gets (\<lambda>s. dec_sb (bcontents s bp))) (\<lambda>sb.
     bnd (brelse bp) (\<lambda>_.
     ret sb)))"

text \<open>The header in a block: \<open>n\<close>, then the block numbers.\<close>

definition head_n :: "byte list \<Rightarrow> int" where
  "head_n d = sint (rd32 d 0)"

definition head_block :: "byte list \<Rightarrow> nat \<Rightarrow> uint" where
  "head_block d i = rd32 d (4 + 4 * i)"

definition enc_head :: "int \<Rightarrow> (nat \<Rightarrow> uint) \<Rightarrow> byte list \<Rightarrow> byte list" where
  "enc_head n blk d =
     fold (\<lambda>i d. wr32 d (4 + 4 * i) (blk i)) [0..<nat n] (wr32 d 0 (word_of_int n))"

definition read_head :: "('z log_state_scheme, unit) kern" where
  "read_head =
     bnd (\<lambda>s. bread (log_dev s) (log_start s) s) (\<lambda>buf.
     bnd (modify (\<lambda>s. s\<lparr>log_n := head_n (bcontents s buf)\<rparr>)) (\<lambda>_.
     bnd (\<lambda>s. foreach (\<lambda>i. modify (\<lambda>s. s\<lparr>log_block := (log_block s)(i := head_block (bcontents s buf) i)\<rparr>))
       [0..<nat (log_n s)] s) (\<lambda>_.
     brelse buf)))"

definition write_head :: "('z log_state_scheme, unit) kern" where
  "write_head =
     bnd (\<lambda>s. bread (log_dev s) (log_start s) s) (\<lambda>buf.
     bnd (\<lambda>s. bput buf (enc_head (log_n s) (log_block s) (bcontents s buf)) s) (\<lambda>_.
     bnd (bwrite buf) (\<lambda>_.
     brelse buf)))"

definition install_block :: "nat \<Rightarrow> ('z log_state_scheme, unit) kern" where
  "install_block tail =
     bnd (\<lambda>s. bread (log_dev s) (log_start s + of_nat tail + 1) s) (\<lambda>lbuf.
     bnd (\<lambda>s. bread (log_dev s) (log_block s tail) s) (\<lambda>dbuf.
     bnd (\<lambda>s. bput dbuf (bcontents s lbuf) s) (\<lambda>_.
     bnd (bwrite dbuf) (\<lambda>_.
     bnd (brelse lbuf) (\<lambda>_.
     brelse dbuf)))))"

definition install_trans :: "('z log_state_scheme, unit) kern" where
  "install_trans s = foreach install_block [0..<nat (log_n s)] s"

definition recover_from_log :: "('z log_state_scheme, unit) kern" where
  "recover_from_log = block [
     read_head,
     install_trans,
     modify (\<lambda>s. s\<lparr>log_n := 0\<rparr>),
     write_head]"

text \<open>The size check compares constants: a header is \<open>4 + 4 * LOGSIZE\<close> bytes.\<close>

definition initlog :: "uint \<Rightarrow> ('z log_state_scheme, unit) kern" where
  "initlog dev =
     bnd (whenk (4 + 4 * LOGSIZE \<ge> int BSIZE) (kpanic ''initlog: too big logheader'')) (\<lambda>_.
     bnd (initlock Lk_log) (\<lambda>_.
     bnd (readsb dev) (\<lambda>sb. block [
       modify (\<lambda>s. s\<lparr>log_start := sb_logstart sb\<rparr>),
       modify (\<lambda>s. s\<lparr>log_size := sint (sb_nlog sb)\<rparr>),
       modify (\<lambda>s. s\<lparr>log_dev := dev\<rparr>),
       recover_from_log])))"

text \<open>The loop of \<open>begin_op\<close>, with \<open>log.lock\<close> held; it starts over after each sleep.\<close>

definition begin_op_loop :: "('z log_state_scheme, unit) kern" where
  "begin_op_loop s =
     (if log_committing s then sleep Ch_log (Some Lk_log) s
      else if log_n s + (log_outstanding s + 1) * MAXOPBLOCKS > LOGSIZE
      then sleep Ch_log (Some Lk_log) s
      else block [
        modify (\<lambda>s. s\<lparr>log_outstanding := log_outstanding s + 1\<rparr>),
        release Lk_log] s)"

definition begin_op :: "('z log_state_scheme, unit) kern" where
  "begin_op = bnd (acquire Lk_log) (\<lambda>_. begin_op_loop)"

definition begin_op_resume :: "bool \<Rightarrow> ('z log_state_scheme, unit) kern" where
  "begin_op_resume v = bnd (sleep_resume v Lk_log) (\<lambda>_. begin_op_loop)"

definition write_block :: "nat \<Rightarrow> ('z log_state_scheme, unit) kern" where
  "write_block tail =
     bnd (\<lambda>s. bread (log_dev s) (log_start s + of_nat tail + 1) s) (\<lambda>to.
     bnd (\<lambda>s. bread (log_dev s) (log_block s tail) s) (\<lambda>frm.
     bnd (\<lambda>s. bput to (bcontents s frm) s) (\<lambda>_.
     bnd (bwrite to) (\<lambda>_.
     bnd (brelse frm) (\<lambda>_.
     brelse to)))))"

definition write_log :: "('z log_state_scheme, unit) kern" where
  "write_log s = foreach write_block [0..<nat (log_n s)] s"

definition commit :: "('z log_state_scheme, unit) kern" where
  "commit s = whenk (log_n s > 0) (block [
     write_log,
     write_head,
     install_trans,
     modify (\<lambda>s. s\<lparr>log_n := 0\<rparr>),
     write_head]) s"

definition end_op :: "('z log_state_scheme, unit) kern" where
  "end_op =
     bnd (acquire Lk_log) (\<lambda>_.
     bnd (modify (\<lambda>s. s\<lparr>log_outstanding := log_outstanding s - 1\<rparr>)) (\<lambda>_.
     bnd (\<lambda>s. whenk (log_committing s) (kpanic ''log.committing'') s) (\<lambda>_.
     bnd (gets (\<lambda>s. log_outstanding s = 0)) (\<lambda>do_commit.
     bnd (if do_commit then modify (\<lambda>s. s\<lparr>log_committing := True\<rparr>) else wakeup Ch_log) (\<lambda>_.
     bnd (release Lk_log) (\<lambda>_.
     whenk do_commit (block [
       commit,
       acquire Lk_log,
       modify (\<lambda>s. s\<lparr>log_committing := False\<rparr>),
       wakeup Ch_log,
       release Lk_log])))))))"

definition log_write :: "nat \<Rightarrow> ('z log_state_scheme, unit) kern" where
  "log_write b = block [
     \<lambda>s. whenk (log_n s \<ge> LOGSIZE \<or> log_n s \<ge> log_size s - 1) (kpanic ''too big a transaction'') s,
     \<lambda>s. whenk (log_outstanding s < 1) (kpanic ''log_write outside of trans'') s,
     acquire Lk_log,
     \<lambda>s. (let bn = b_blockno (bufs s b);
              i = (case find (\<lambda>i. log_block s i = bn) [0..<nat (log_n s)] of
                     Some i \<Rightarrow> i | None \<Rightarrow> nat (log_n s))
          in Ret () (s\<lparr>log_block := (log_block s)(i := bn),
               log_n := (if int i = log_n s then log_n s + 1 else log_n s)\<rparr>)),
     upd_buf b (\<lambda>r. r\<lparr>b_flags := b_flags r OR B_DIRTY\<rparr>),
     release Lk_log]"

section \<open>Headers\<close>

lemma enc_head_Suc:
  "fold (\<lambda>i d. wr32 d (4 + 4 * i) (blk i)) [0..<Suc k] d =
     wr32 (fold (\<lambda>i d. wr32 d (4 + 4 * i) (blk i)) [0..<k] d) (4 + 4 * k) (blk k)"
  by simp

lemma enc_blocks:
  assumes "length d = BSIZE" and "k \<le> 30"
  shows "length (fold (\<lambda>i d. wr32 d (4 + 4 * i) (blk i)) [0..<k] d) = BSIZE \<and>
    rd32 (fold (\<lambda>i d. wr32 d (4 + 4 * i) (blk i)) [0..<k] d) 0 = rd32 d 0 \<and>
    (\<forall>i < k. rd32 (fold (\<lambda>i d. wr32 d (4 + 4 * i) (blk i)) [0..<k] d) (4 + 4 * i) = blk i)"
  using assms(2)
proof (induction k)
  case 0
  then show ?case using assms(1) by simp
next
  case (Suc k)
  let ?e = "fold (\<lambda>i d. wr32 d (4 + 4 * i) (blk i)) [0..<k] d"
  have ih: "length ?e = BSIZE" "rd32 ?e 0 = rd32 d 0" "\<forall>i < k. rd32 ?e (4 + 4 * i) = blk i"
    using Suc by simp_all
  have b: "4 + 4 * k + 4 \<le> BSIZE" using Suc.prems by (simp add: BSIZE_def)
  have "rd32 (wr32 ?e (4 + 4 * k) (blk k)) (4 + 4 * i) = blk i" if "i < Suc k" for i
    using that b ih by (cases "i = k") (simp_all add: rd32_wr32_other)
  moreover have "rd32 (wr32 ?e (4 + 4 * k) (blk k)) 0 = rd32 d 0"
    using b ih by (simp add: rd32_wr32_other)
  ultimately show ?case unfolding enc_head_Suc using ih b by simp
qed

lemma enc_head_props:
  assumes "length d = BSIZE" and "0 \<le> n" and "n \<le> 30"
  shows "length (enc_head n blk d) = BSIZE" and "head_n (enc_head n blk d) = n"
    and "i < nat n \<Longrightarrow> head_block (enc_head n blk d) i = blk i"
proof -
  let ?d = "wr32 d 0 (word_of_int n)"
  have l: "length ?d = BSIZE" "rd32 ?d 0 = word_of_int n" using assms(1) by (simp_all add: BSIZE_def)
  have e: "length (enc_head n blk d) = BSIZE \<and> rd32 (enc_head n blk d) 0 = rd32 ?d 0 \<and>
      (\<forall>i < nat n. rd32 (enc_head n blk d) (4 + 4 * i) = blk i)"
    unfolding enc_head_def by (rule enc_blocks) (use l assms in simp_all)
  show "length (enc_head n blk d) = BSIZE" using e by simp
  have "sint (word_of_int n :: uint) = n"
    using signed_take_bit_int_eq_self [of 31 n] assms(2,3) by (simp add: signed_of_int)
  then show "head_n (enc_head n blk d) = n" using e l by (simp add: head_n_def)
  show "i < nat n \<Longrightarrow> head_block (enc_head n blk d) i = blk i" using e by (simp add: head_block_def)
qed

section \<open>Sequences of block writes\<close>

definition apply_writes :: "('b \<times> 'd) list \<Rightarrow> ('b \<Rightarrow> 'd) \<Rightarrow> 'b \<Rightarrow> 'd" where
  "apply_writes ws d = fold (\<lambda>(b, x) d. d(b := x)) ws d"

lemma apply_writes_simps [simp]:
  "apply_writes [] d = d" "apply_writes ((b, x) # ws) d = apply_writes ws (d(b := x))"
  "apply_writes (ws @ vs) d = apply_writes vs (apply_writes ws d)"
  by (simp_all add: apply_writes_def)

lemma apply_writes_other: "b \<notin> fst ` set ws \<Longrightarrow> apply_writes ws d b = d b"
  by (induction ws arbitrary: d) auto

lemma apply_writes_map:
  "inj_on f {..<n} \<Longrightarrow> i < n \<Longrightarrow> apply_writes (map (\<lambda>i. (f i, g i)) [0..<n]) d (f i) = g i"
proof (induction n)
  case (Suc n)
  have "inj_on f {..<n}" using Suc.prems(1) by (rule inj_on_subset) auto
  moreover have "f i \<noteq> f n" if "i < n" using Suc.prems that by (auto dest!: inj_onD [of _ _ i n])
  ultimately show ?case using Suc by (cases "i = n") auto
qed simp

lemma apply_writes_map_other:
  "b \<notin> f ` {..<n} \<Longrightarrow> apply_writes (map (\<lambda>i. (f i, g i)) [0..<n]) d b = d b"
  by (rule apply_writes_other) (auto simp: image_iff)

lemma apply_writes_all:
  "\<forall>(b, x) \<in> set ws. P x \<Longrightarrow> \<forall>b. P (d b) \<Longrightarrow> P (apply_writes ws d b)"
  by (induction ws arbitrary: d) auto

text \<open>Writing what a block already holds changes nothing.\<close>

lemma apply_writes_same: "(\<forall>(b, x) \<in> set ws. d b = x) \<Longrightarrow> apply_writes ws d = d"
  by (induction ws) (auto simp: fun_upd_idem)

section \<open>The log area\<close>

definition log_slot :: "uint \<Rightarrow> nat \<Rightarrow> uint" where
  "log_slot start i = start + of_nat i + 1"

definition in_log :: "uint \<Rightarrow> uint \<Rightarrow> bool" where
  "in_log start b \<longleftrightarrow> b - start \<le> 30"

lemma in_log_slot: "i < 30 \<Longrightarrow> in_log start (log_slot start i)"
proof -
  assume i: "i < 30"
  have "log_slot start i - start = of_nat (Suc i)" by (simp add: log_slot_def)
  with i show ?thesis by (simp add: in_log_def word_le_nat_alt unat_of_nat del: of_nat_Suc)
qed

lemma in_log_start [simp]: "in_log start start"
  by (simp add: in_log_def)

lemma log_slot_inj: "inj_on (log_slot start) {..<30}"
proof (rule inj_onI)
  fix i j :: nat
  assume "i \<in> {..<30}" "j \<in> {..<30}" and "log_slot start i = log_slot start j"
  then have "(of_nat i :: uint) = of_nat j" "i < 2 ^ 32" "j < 2 ^ 32" by (simp_all add: log_slot_def)
  then show "i = j" using of_nat_inj32 by blast
qed

lemma log_slot_not_start: "i < 30 \<Longrightarrow> log_slot start i \<noteq> start"
proof
  assume i: "i < 30" "log_slot start i = start"
  then have "(of_nat (Suc i) :: uint) = of_nat 0" by (simp add: log_slot_def add.assoc add.commute)
  then show False using of_nat_inj32 [of "Suc i" 0] i(1) by simp
qed

lemma start_not_slot: "n \<le> 30 \<Longrightarrow> start \<notin> log_slot start ` {..<n}"
  using log_slot_not_start [of _ start] by (fastforce dest: sym)

lemma log_slot_range:
  assumes "unat start + 30 < unat (n :: uint)" and "i < 30"
  shows "log_slot start i < n"
proof -
  have "log_slot start i = start + of_nat (Suc i)" by (simp add: log_slot_def)
  moreover have "unat start + Suc i < 2 ^ 32" using assms unat_lt32 [of n] by simp
  ultimately have "unat (log_slot start i) = unat start + Suc i"
    using assms(2) by (simp add: unat_word_ariths unat_of_nat del: of_nat_Suc)
  then show ?thesis using assms by (simp add: word_less_nat_alt)
qed

section \<open>The three phases of a commit\<close>

definition log_wf :: "'z log_state_scheme \<Rightarrow> bool" where
  "log_wf s \<longleftrightarrow> log_dev s = 1 \<and> unat (log_start s) + 30 < unat (disksize s) \<and> 0 \<le> log_n s \<and> log_n s \<le> 29 \<and>
     inj_on (log_block s) {..<nat (log_n s)} \<and>
     (\<forall>i < nat (log_n s). log_block s i < disksize s \<and> \<not> in_log (log_start s) (log_block s i))"

lemma bio_step_log:
  fixes s t :: "'z log_state_scheme"
  assumes "bio_step s t"
  shows "log_start t = log_start s" "log_size t = log_size s" "log_outstanding t = log_outstanding s"
    "log_committing t = log_committing s" "log_dev t = log_dev s" "log_n t = log_n s"
    "log_block t = log_block s" "log_wf t = log_wf s"
  using assms by (auto simp: bio_step_def log_wf_def)

text \<open>Between its phases a commit holds no buffer.\<close>

definition quiet :: "'z bio_state_scheme \<Rightarrow> bool" where
  "quiet s \<longleftrightarrow> bok s \<and> busyb s = {}"

text \<open>\<open>wrote s t ws\<close>: from \<open>s\<close> to \<open>t\<close> the blocks \<open>ws\<close> were written, in order, and nothing else.\<close>

definition wrote :: "'z bio_state_scheme \<Rightarrow> 'z bio_state_scheme \<Rightarrow> (uint \<times> byte list) list \<Rightarrow> bool" where
  "wrote s t ws \<longleftrightarrow> bio_step s t \<and> quiet t \<and> memdisk t = apply_writes ws (memdisk s) \<and>
     bview t = apply_writes ws (bview s) \<and> iotrace t = iotrace s @ ws"

lemma wrote_refl: "quiet s \<Longrightarrow> wrote s s []"
  by (simp add: wrote_def)

lemma wrote_trans: "wrote s t ws \<Longrightarrow> wrote t u vs \<Longrightarrow> wrote s u (ws @ vs)"
  using bio_step_trans by (auto simp: wrote_def)

lemma copy_step:
  assumes q: "quiet s" and ab: "src \<noteq> dst" "src < disksize s" "dst < disksize s"
    and first: "{src, dst} = {a, b}"
    and room: "a \<in> dirtyb s \<or> card (dirtyb s) < NBUF" "b \<in> dirtyb s \<or> card (insert a (dirtyb s)) < NBUF"
  obtains x t y u w where "bread 1 a s = Ret x t" and "bio_step s t" and "bread 1 b t = Ret y u"
    and "bio_step s u"
    and "bnd (\<lambda>s. bput (if a = dst then x else y) (bcontents s (if a = dst then y else x)) s) (\<lambda>_.
      bnd (bwrite (if a = dst then x else y)) (\<lambda>_. bnd (brelse (if a = dst then y else x)) (\<lambda>_.
      brelse (if a = dst then x else y)))) u = Ret () w"
    and "wrote s w [(dst, bview s src)]" and "dirtyb w = dirtyb s - {dst}"
proof -
  have ok: "bok s" "busyb s = {}" using q by (simp_all add: quiet_def)
  have "a \<noteq> b" "a < disksize s" "b < disksize s" using ab first by (auto simp: doubleton_eq_iff)
  then obtain x t y u where p: "bread 1 a s = Ret x t" "bio_step s t" "bread 1 b t = Ret y u" "bio_step s u"
      and u: "bok u" "holds u x a" "holds u y b" "bview u = bview s" "busyb u = {a, b}"
      "dirtyb u = dirtyb s" "memdisk u = memdisk s" "iotrace u = iotrace s"
    using bc.read_two [OF ok _ _ _ room] by blast
  let ?d = "if a = dst then x else y" and ?f = "if a = dst then y else x"
  have h: "holds u ?d dst" "holds u ?f src" using u(2,3) first ab(1) by (auto simp: doubleton_eq_iff)
  have sz: "dst < disksize u" using ab(3) bio_step_simps(4) [OF p(4)] by simp
  have hu: "busyb u = {src, dst}" using u(5) first by simp
  have cl: "src \<in> dirtyb u \<or> bview u src = memdisk u src"
    using bview_clean [of s src] ok by (auto simp: u bok_def)
  obtain w where "bnd (\<lambda>s. bput ?d (bcontents s ?f) s) (\<lambda>_. bnd (bwrite ?d) (\<lambda>_. bnd (brelse ?f) (\<lambda>_. brelse ?d))) u =
        Ret () w" "bio_step u w" "bok w" "busyb w = {}" "dirtyb w = dirtyb u - {dst}"
        "bview w = (bview u)(dst := bview u src)" "memdisk w = (memdisk u)(dst := bview u src)"
        "iotrace w = iotrace u @ [(dst, bview u src)]"
    using bc.copy_held [OF u(1) h ab(1) sz hu cl] unfolding wp_unit by blast
  moreover from this have "wrote s w [(dst, bview s src)]"
    using bio_step_trans [OF p(4)] by (simp add: wrote_def quiet_def u)
  ultimately show ?thesis using that p u(6) by simp
qed

lemma write_block_spec:
  assumes "quiet s" and "log_wf s" and "dirtyb s = log_block s ` {..<nat (log_n s)}" and "i < nat (log_n s)"
  shows "wp (write_block i) (\<lambda>_ t. wrote s t [(log_slot (log_start s) i, bview s (log_block s i))] \<and>
    dirtyb t = dirtyb s) s"
proof -
  let ?a = "log_slot (log_start s) i" and ?b = "log_block s i"
  have i: "i < 30" and dev: "log_dev s = 1" and fin: "card (dirtyb s) < NBUF"
    using assms(2-4) card_image_le [of "{..<nat (log_n s)}" "log_block s"]
    by (auto simp: log_wf_def NBUF_def)
  have ne: "?b \<noteq> ?a" using assms(2,4) in_log_slot [OF i, of "log_start s"] by (auto simp: log_wf_def)
  have rng: "?b < disksize s" "?a < disksize s"
    using assms(2,4) log_slot_range [OF _ i, of "log_start s" "disksize s"] by (auto simp: log_wf_def)
  have nd: "?a \<notin> dirtyb s" using assms(2,3) in_log_slot [OF i, of "log_start s"] by (auto simp: log_wf_def)
  have room: "?a \<in> dirtyb s \<or> card (dirtyb s) < NBUF" "?b \<in> dirtyb s \<or> card (insert ?a (dirtyb s)) < NBUF"
    using fin assms(3,4) by auto
  obtain x t y u w where r: "bread 1 ?a s = Ret x t" "bio_step s t" "bread 1 ?b t = Ret y u" "bio_step s u"
      "bnd (\<lambda>s. bput x (bcontents s y) s) (\<lambda>_. bnd (bwrite x) (\<lambda>_. bnd (brelse y) (\<lambda>_. brelse x))) u = Ret () w"
      "wrote s w [(?a, bview s ?b)]" "dirtyb w = dirtyb s - {?a}"
    by (rule copy_step [OF assms(1) ne rng insert_commute room]) (rule that, simp_all)
  have "write_block i s = Ret () w"
    unfolding write_block_def using r(5)
    by (simp add: bnd_def dev r(1,3) bio_step_log [OF r(2)] flip: log_slot_def)
  then show ?thesis using r(6,7) nd by (simp add: wp_def)
qed

text \<open>\<open>write_log\<close> copies each modified block of the cache into its slot of the log.\<close>

lemma apply_writes_slots_other:
  assumes "\<not> in_log a b" and "n \<le> 30"
  shows "apply_writes (map (\<lambda>i. (log_slot a i, f i)) [0..<n]) d b = d b"
  using assms in_log_slot by (intro apply_writes_map_other) auto

lemma write_log_spec:
  assumes "quiet s" and "log_wf s" and "dirtyb s = log_block s ` {..<nat (log_n s)}"
  shows "wp write_log (\<lambda>_ t. wrote s t (map (\<lambda>i. (log_slot (log_start s) i, bview s (log_block s i))) [0..<nat (log_n s)]) \<and>
    dirtyb t = dirtyb s) s"
proof -
  let ?w = "\<lambda>i. (log_slot (log_start s) i, bview s (log_block s i))"
  let ?I = "\<lambda>i t. wrote s t (map ?w [0..<i]) \<and> dirtyb t = dirtyb s"
  have "wp (foreach write_block [0..<nat (log_n s)]) (\<lambda>_. ?I (nat (log_n s))) s"
  proof (rule wp_foreach_upt)
    show "?I 0 s" using assms(1) by (simp add: wrote_refl)
    fix i t assume i: "i < nat (log_n s)" and t: "?I i t"
    have st: "bio_step s t" "quiet t" using t by (simp_all add: wrote_def)
    note l = bio_step_log [OF st(1)]
    have i30: "i \<le> 30" using i assms(2) by (auto simp: log_wf_def)
    have "bview t (log_block s i) = bview s (log_block s i)"
      using t assms(2) i i30 apply_writes_slots_other [of "log_start s" "log_block s i" i]
      by (auto simp: wrote_def log_wf_def)
    then have "wp (write_block i) (\<lambda>_ u. wrote t u [?w i] \<and> dirtyb u = dirtyb t) t"
      using write_block_spec [OF st(2), of i] assms(2,3) t i by (simp add: l)
    then show "wp (write_block i) (\<lambda>_. ?I (Suc i)) t"
      using t by (auto elim!: wp_mono intro: wrote_trans)
  qed
  then show ?thesis by (simp add: write_log_def wp_def)
qed

lemma install_block_spec:
  assumes "quiet s" and "log_wf s" and "i < nat (log_n s)" and "card (dirtyb s) < NBUF"
    and "log_block s i \<in> dirtyb s \<or> dirtyb s = {}"
  shows "wp (install_block i) (\<lambda>_ t. wrote s t [(log_block s i, bview s (log_slot (log_start s) i))] \<and>
    dirtyb t = dirtyb s - {log_block s i}) s"
proof -
  let ?a = "log_slot (log_start s) i" and ?b = "log_block s i"
  have i: "i < 30" and dev: "log_dev s = 1" using assms(2,3) by (auto simp: log_wf_def)
  have ne: "?a \<noteq> ?b" using assms(2,3) in_log_slot [OF i, of "log_start s"] by (auto simp: log_wf_def)
  have rng: "?a < disksize s" "?b < disksize s"
    using assms(2,3) log_slot_range [OF _ i, of "log_start s" "disksize s"] by (auto simp: log_wf_def)
  have room: "?a \<in> dirtyb s \<or> card (dirtyb s) < NBUF" "?b \<in> dirtyb s \<or> card (insert ?a (dirtyb s)) < NBUF"
    using assms(4,5) by (auto simp: NBUF_def)
  obtain x t y u w where r: "bread 1 ?a s = Ret x t" "bio_step s t" "bread 1 ?b t = Ret y u" "bio_step s u"
      "bnd (\<lambda>s. bput y (bcontents s x) s) (\<lambda>_. bnd (bwrite y) (\<lambda>_. bnd (brelse x) (\<lambda>_. brelse y))) u = Ret () w"
      "wrote s w [(?b, bview s ?a)]" "dirtyb w = dirtyb s - {?b}"
    by (rule copy_step [OF assms(1) ne rng refl room]) (rule that, simp_all add: ne)
  have "install_block i s = Ret () w"
    unfolding install_block_def using r(5)
    by (simp add: bnd_def dev r(1,3) bio_step_log [OF r(2)] flip: log_slot_def)
  then show ?thesis using r(6,7) by (simp add: wp_def)
qed

lemma install_trans_spec:
  assumes "quiet s" and "log_wf s" and "dirtyb s = log_block s ` {..<nat (log_n s)} \<or> dirtyb s = {}"
  shows "wp install_trans (\<lambda>_ t. wrote s t (map (\<lambda>i. (log_block s i, bview s (log_slot (log_start s) i))) [0..<nat (log_n s)]) \<and>
    dirtyb t = {}) s"
proof -
  let ?w = "\<lambda>i. (log_block s i, bview s (log_slot (log_start s) i))"
  let ?I = "\<lambda>i t. wrote s t (map ?w [0..<i]) \<and> dirtyb t = dirtyb s - log_block s ` {..<i}"
  have n: "nat (log_n s) \<le> 29" using assms(2) by (auto simp: log_wf_def nat_le_iff)
  have fin: "finite (dirtyb s)" "card (dirtyb s) < NBUF"
    using assms(3) n card_image_le [of "{..<nat (log_n s)}" "log_block s"] by (auto simp: NBUF_def)
  have "wp (foreach install_block [0..<nat (log_n s)]) (\<lambda>_. ?I (nat (log_n s))) s"
  proof (rule wp_foreach_upt)
    show "?I 0 s" using assms(1) by (simp add: wrote_refl)
    fix i t assume i: "i < nat (log_n s)" and t: "?I i t"
    have st: "bio_step s t" "quiet t" using t by (simp_all add: wrote_def)
    note l = bio_step_log [OF st(1)]
    have c: "card (dirtyb t) < NBUF" using t fin card_Diff_subset_Int [of "dirtyb s"]
      by (metis Diff_subset card_mono order_le_less_trans)
    have "log_block s i \<notin> log_block s ` {..<i}"
      using assms(2) i by (auto simp: log_wf_def dest!: inj_onD [where x = i])
    then have b: "log_block s i \<in> dirtyb t \<or> dirtyb t = {}" using t assms(3) i by auto
    have "log_slot (log_start s) i \<notin> log_block s ` {..<i}"
      using assms(2) i n in_log_slot [of i "log_start s"] by (auto simp: log_wf_def)
    then have "bview t (log_slot (log_start s) i) = bview s (log_slot (log_start s) i)"
      using t by (simp add: wrote_def apply_writes_map_other)
    then have "wp (install_block i) (\<lambda>_ u. wrote t u [?w i] \<and> dirtyb u = dirtyb t - {log_block s i}) t"
      using install_block_spec [OF st(2), of i] assms(2) b c i by (simp add: l)
    then show "wp (install_block i) (\<lambda>_. ?I (Suc i)) t"
      using t by (auto elim!: wp_mono intro: wrote_trans simp: lessThan_Suc)
  qed
  then have "wp install_trans (\<lambda>_. ?I (nat (log_n s))) s" by (simp add: install_trans_def wp_def)
  then show ?thesis by (rule wp_mono) (use assms(3) in auto)
qed

text \<open>\<open>write_head\<close> puts the header of the log in memory on the disk.\<close>

lemma write_head_spec:
  assumes "quiet s" and "log_wf s" and "card (dirtyb s) < NBUF" and "log_start s \<notin> dirtyb s"
  shows "wp write_head (\<lambda>_ t. wrote s t [(log_start s, enc_head (log_n s) (log_block s) (bview s (log_start s)))] \<and>
    dirtyb t = dirtyb s) s"
proof -
  let ?d = "enc_head (log_n s) (log_block s) (bview s (log_start s))"
  have ok: "bok s" "busyb s = {}" and dev: "log_dev s = 1"
    using assms(1,2) by (simp_all add: quiet_def log_wf_def)
  have r: "log_start s < disksize s" using assms(2) by (simp add: log_wf_def word_less_nat_alt)
  have "length (bview s (log_start s)) = BSIZE" using bc.view_length [OF ok(1)] .
  then have d: "length ?d = BSIZE" using enc_head_props(1) assms(2) by (simp add: log_wf_def)
  obtain b s1 s2 s3 t where p: "bread 1 (log_start s) s = Ret b s1" "bio_step s s1"
      "bcontents s1 b = bview s (log_start s)" "bput b ?d s1 = Ret () s2" "bwrite b s2 = Ret () s3"
      "brelse b s3 = Ret () t" and t: "bio_step s t" "bok t" "busyb t = {}" "dirtyb t = dirtyb s - {log_start s}"
      "memdisk t = (memdisk s)(log_start s := ?d)" "bview t = (bview s)(log_start s := ?d)"
      "iotrace t = iotrace s @ [(log_start s, ?d)]"
    using bc.write_one [OF ok r d] assms(3) by blast
  have "write_head s = Ret () t"
    by (simp add: write_head_def bnd_def dev p bio_step_log [OF p(2)])
  then show ?thesis using t assms(4) by (simp add: wp_def wrote_def quiet_def)
qed

text \<open>The buffer cache does not depend on the fields of the log.\<close>

lemma log_upd_bio:
  "quiet (s\<lparr>log_n := n\<rparr>) = quiet s" "dirtyb (s\<lparr>log_n := n\<rparr>) = dirtyb s" "bview (s\<lparr>log_n := n\<rparr>) = bview s"
  "quiet (s\<lparr>log_block := f\<rparr>) = quiet s" "dirtyb (s\<lparr>log_block := f\<rparr>) = dirtyb s"
  "bview (s\<lparr>log_block := f\<rparr>) = bview s" "bok (s\<lparr>log_n := n\<rparr>) = bok s" "bok (s\<lparr>log_block := f\<rparr>) = bok s"
  "busyb (s\<lparr>log_n := n\<rparr>) = busyb s" "busyb (s\<lparr>log_block := f\<rparr>) = busyb s"
  "holds (s\<lparr>log_n := n\<rparr>) = holds s" "holds (s\<lparr>log_block := f\<rparr>) = holds s"
  "bcontents (s\<lparr>log_n := n\<rparr>) = bcontents s"
  by (auto simp: quiet_def bcontents_def bok_def binv_def bready_def dirtyb_def busyb_def bview_def holds_def fun_eq_iff
    cong: option.case_cong)

definition commit_writes :: "'z log_state_scheme \<Rightarrow> (uint \<times> byte list) list" where
  "commit_writes s = (let st = log_start s; blk = log_block s; ix = [0..<nat (log_n s)];
       h = enc_head (log_n s) blk (bview s st) in
     map (\<lambda>i. (log_slot st i, bview s (blk i))) ix @ [(st, h)] @
     map (\<lambda>i. (blk i, bview s (blk i))) ix @ [(st, enc_head 0 blk h)])"

lemma commit_spec:
  assumes q: "quiet s" and wf: "log_wf s" and dirt: "dirtyb s = log_block s ` {..<nat (log_n s)}" and n: "0 < log_n s"
  shows "wp commit (\<lambda>_ t. quiet t \<and> dirtyb t = {} \<and> log_n t = 0 \<and> log_start t = log_start s \<and>
    log_dev t = 1 \<and> disksize t = disksize s \<and> memdisk t = apply_writes (commit_writes s) (memdisk s) \<and>
    bview t = apply_writes (commit_writes s) (bview s) \<and> iotrace t = iotrace s @ commit_writes s) s"
proof -
  let ?n = "nat (log_n s)" and ?st = "log_start s" and ?blk = "log_block s"
  let ?A = "map (\<lambda>i. (log_slot ?st i, bview s (?blk i))) [0..<?n]" and ?h = "enc_head (log_n s) ?blk (bview s ?st)"
  let ?B = "map (\<lambda>i. (?blk i, bview s (?blk i))) [0..<?n]"
  have n30: "?n \<le> 29" using wf by (auto simp: log_wf_def nat_le_iff)
  have card: "card (dirtyb s) < NBUF" using dirt n30 card_image_le [of "{..<?n}" ?blk] by (auto simp: NBUF_def)
  have nst: "?st \<notin> dirtyb s" using wf dirt by (auto simp: log_wf_def)
  obtain s1 where p1: "write_log s = Ret () s1" and s1: "wrote s s1 ?A" "dirtyb s1 = dirtyb s"
    using write_log_spec [OF q wf dirt] unfolding wp_unit by blast
  have b1: "bio_step s s1" "quiet s1" using s1 by (simp_all add: wrote_def)
  note l1 = bio_step_log [OF b1(1)]
  have "bview s1 ?st = bview s ?st"
    using s1(1) start_not_slot [of ?n ?st] n30 by (simp add: wrote_def apply_writes_map_other)
  then obtain s2 where p2: "write_head s1 = Ret () s2" and s2: "wrote s1 s2 [(?st, ?h)]" "dirtyb s2 = dirtyb s1"
    using write_head_spec [OF b1(2)] wf card nst s1(2) unfolding wp_unit l1 by auto
  have w2: "wrote s s2 (?A @ [(?st, ?h)])" using wrote_trans [OF s1(1) s2(1)] .
  then have b2: "bio_step s s2" "quiet s2" by (simp_all add: wrote_def)
  note l2 = bio_step_log [OF b2(1)]
  have "bview s2 (log_slot ?st i) = bview s (?blk i)" if "i < ?n" for i
  proof -
    have "inj_on (log_slot ?st) {..<?n}" using log_slot_inj by (rule inj_on_subset) (use n30 in auto)
    from apply_writes_map [OF this that, of "\<lambda>i. bview s (?blk i)"] show ?thesis
      using w2 log_slot_not_start [of i ?st] that n30 by (simp add: wrote_def)
  qed
  then have B: "map (\<lambda>i. (?blk i, bview s2 (log_slot ?st i))) [0..<?n] = ?B" by simp
  have "log_wf s2" "dirtyb s2 = log_block s2 ` {..<nat (log_n s2)} \<or> dirtyb s2 = {}"
    using wf dirt s1(2) s2(2) by (simp_all add: l2)
  from install_trans_spec [OF b2(2) this]
  obtain s3 where p3: "install_trans s2 = Ret () s3" and s3: "wrote s2 s3 ?B" "dirtyb s3 = {}"
    unfolding wp_unit l2 B by blast
  have w3: "wrote s s3 ((?A @ [(?st, ?h)]) @ ?B)" using wrote_trans [OF w2 s3(1)] .
  then have b3: "bio_step s s3" "quiet s3" by (simp_all add: wrote_def)
  note l3 = bio_step_log [OF b3(1)]
  let ?s3 = "s3\<lparr>log_n := 0\<rparr>"
  have "bview s3 ?st = bview s2 ?st"
    using s3(1) wf by (auto simp: wrote_def log_wf_def intro!: apply_writes_map_other)
  also have "\<dots> = ?h" using s2(1) by (simp add: wrote_def)
  finally have h3: "bview s3 ?st = ?h" .
  have "log_wf ?s3" using wf bio_step_simps(4) [OF b3(1)] by (simp add: log_wf_def l3)
  then obtain t where p4: "write_head ?s3 = Ret () t" and t: "wrote ?s3 t [(?st, enc_head 0 ?blk ?h)]" "dirtyb t = {}"
    using write_head_spec [of ?s3] b3(2) s3(2) h3 unfolding wp_unit by (auto simp: log_upd_bio l3 NBUF_def)
  have "commit s = Ret () t" using n by (simp add: commit_def whenk_def bnd_def p1 p2 p3 p4)
  moreover have "bio_step ?s3 t" using t by (simp add: wrote_def)
  note l4 = bio_step_log [OF this] bio_step_simps(4) [OF this]
  ultimately show ?thesis
    using t w3 wf bio_step_simps(4) [OF b3(1)]
    by (simp add: wp_def wrote_def l4 l3 log_upd_bio commit_writes_def Let_def) (simp add: log_wf_def)
qed

section \<open>Recovery\<close>

text \<open>What recovery makes of a disk: the blocks the header lists are replaced by their copies in the log and
  the header is cleared.\<close>

definition recover_disk :: "uint \<Rightarrow> (uint \<Rightarrow> byte list) \<Rightarrow> uint \<Rightarrow> byte list" where
  "recover_disk start d = (let h = d start;
       e = apply_writes (map (\<lambda>i. (head_block h i, d (log_slot start i))) [0..<nat (head_n h)]) d
     in e(start := wr32 (e start) 0 0))"

definition head_wf :: "uint \<Rightarrow> uint \<Rightarrow> byte list \<Rightarrow> bool" where
  "head_wf start sz h \<longleftrightarrow> 0 \<le> head_n h \<and> head_n h \<le> 29 \<and> inj_on (head_block h) {..<nat (head_n h)} \<and>
     (\<forall>i < nat (head_n h). head_block h i < sz \<and> \<not> in_log start (head_block h i))"

lemma enc_head_0: "enc_head 0 blk d = wr32 d 0 0"
  by (simp add: enc_head_def)

lemma load_blocks:
  "foreach (\<lambda>i. modify (\<lambda>s. s\<lparr>log_block := (log_block s)(i := head_block (bcontents s b) i)\<rparr>)) [0..<n] s =
     Ret () (s\<lparr>log_block := (\<lambda>i. if i < n then head_block (bcontents s b) i else log_block s i)\<rparr>)"
proof -
  let ?f = "\<lambda>i. modify (\<lambda>s. s\<lparr>log_block := (log_block s)(i := head_block (bcontents s b) i)\<rparr>)"
  let ?I = "\<lambda>k t. t = s\<lparr>log_block := (\<lambda>i. if i < k then head_block (bcontents s b) i else log_block s i)\<rparr>"
  have "wp (foreach ?f [0..<n]) (\<lambda>_. ?I n) s"
    by (rule wp_foreach_upt) (auto simp: wp_def modify_def bcontents_def fun_eq_iff less_Suc_eq)
  then show ?thesis unfolding wp_unit by auto
qed

lemma read_head_spec:
  assumes q: "quiet s" and d: "dirtyb s = {}" and dev: "log_dev s = 1" and r: "log_start s < disksize s"
  shows "wp read_head (\<lambda>_ t. quiet t \<and> dirtyb t = {} \<and> log_dev t = 1 \<and> log_start t = log_start s \<and>
    disksize t = disksize s \<and> memdisk t = memdisk s \<and> log_n t = head_n (memdisk s (log_start s)) \<and>
    (\<forall>i < nat (log_n t). log_block t i = head_block (memdisk s (log_start s)) i)) s"
proof -
  let ?st = "log_start s"
  have ok: "bok s" "busyb s = {}" using q by (simp_all add: quiet_def)
  have rm: "?st \<notin> busyb s" "?st \<in> dirtyb s \<or> card (busyb s \<union> dirtyb s) < NBUF"
    using ok d by (simp_all add: NBUF_def)
  obtain b s1 where p1: "bread 1 ?st s = Ret b s1" and s1: "bio_step s s1" "bok s1" "holds s1 b ?st"
      "bview s1 = bview s" "busyb s1 = insert ?st (busyb s)" "dirtyb s1 = dirtyb s" "memdisk s1 = memdisk s"
    using bc.rd_law [OF ok(1) rm(1) r rm(2)] unfolding wp_iff by blast
  have v: "bview s ?st = memdisk s ?st" using bc.clean [OF ok(1), of ?st] ok d by simp
  then have c: "bcontents s1 b = memdisk s ?st" using bc.has_contents [OF s1(2,3)] s1(4) by simp
  define s2 where "s2 = s1\<lparr>log_n := head_n (memdisk s ?st), log_block :=
    (\<lambda>i. if i < nat (head_n (memdisk s ?st)) then head_block (memdisk s ?st) i else log_block s1 i)\<rparr>"
  have s2: "bok s2" "holds s2 b ?st" "?st \<in> dirtyb s2 \<or> bview s2 ?st = memdisk s2 ?st"
    using s1 v by (simp_all add: s2_def log_upd_bio)
  obtain t where p2: "brelse b s2 = Ret () t" and t: "bio_step s2 t" "bok t" "bview t = bview s2"
      "busyb t = busyb s2 - {?st}" "dirtyb t = dirtyb s2" "memdisk t = memdisk s2"
    using bc.rel_law [OF s2] unfolding wp_unit by blast
  have "read_head s = Ret () t"
    using p2 by (simp add: read_head_def bnd_def dev p1 load_blocks s2_def log_upd_bio c cong: if_cong)
  moreover have "busyb t = {}" "dirtyb t = {}" using t(4,5) ok d s1(5,6) by (simp_all add: s2_def log_upd_bio)
  ultimately show ?thesis
    using t(2,6) dev bio_step_log [OF t(1)] bio_step_simps(4) [OF t(1)] bio_step_log [OF s1(1)]
      bio_step_simps(4) [OF s1(1)] s1(7)
    by (simp add: wp_def quiet_def s2_def)
qed

lemma recover_spec:
  assumes q: "quiet s" and d: "dirtyb s = {}" and dev: "log_dev s = 1"
    and r: "unat (log_start s) + 30 < unat (disksize s)"
    and h: "head_wf (log_start s) (disksize s) (memdisk s (log_start s))"
  shows "wp recover_from_log (\<lambda>_ t. quiet t \<and> dirtyb t = {} \<and> log_n t = 0 \<and> log_start t = log_start s \<and>
    disksize t = disksize s \<and> memdisk t = recover_disk (log_start s) (memdisk s)) s"
proof -
  let ?st = "log_start s" let ?h = "memdisk s ?st" let ?n = "nat (head_n ?h)"
  let ?B = "map (\<lambda>i. (head_block ?h i, memdisk s (log_slot ?st i))) [0..<?n]"
  have lt: "?st < disksize s" using r by (simp add: word_less_nat_alt)
  obtain s1 where p1: "read_head s = Ret () s1" and s1: "quiet s1" "dirtyb s1 = {}" "log_dev s1 = 1"
      "log_start s1 = ?st" "disksize s1 = disksize s" "memdisk s1 = memdisk s" "log_n s1 = head_n ?h"
      "\<forall>i < nat (log_n s1). log_block s1 i = head_block ?h i"
    using read_head_spec [OF q d dev lt] unfolding wp_unit by blast
  have "inj_on (log_block s1) {..<?n}"
    using h s1(7,8) by (auto simp: head_wf_def inj_on_def)
  then have wf: "log_wf s1" using h r s1 by (simp add: log_wf_def head_wf_def)
  have v: "bview s1 b = memdisk s b" for b
    using bc.clean [of s1 b] s1 by (simp add: quiet_def)
  have "map (\<lambda>i. (log_block s1 i, bview s1 (log_slot ?st i))) [0..<nat (log_n s1)] = ?B"
    using s1(7,8) by (simp add: v)
  then obtain s2 where p2: "install_trans s1 = Ret () s2" and s2: "wrote s1 s2 ?B" "dirtyb s2 = {}"
    using install_trans_spec [OF s1(1) wf] s1(2,4) unfolding wp_unit by auto
  let ?s2 = "s2\<lparr>log_n := 0\<rparr>"
  have b2: "bio_step s1 s2" "quiet s2" using s2 by (simp_all add: wrote_def)
  note l2 = bio_step_log [OF b2(1)] bio_step_simps(4) [OF b2(1)]
  have "log_wf ?s2" using wf by (simp add: log_wf_def l2)
  then obtain t where p3: "write_head ?s2 = Ret () t"
      and t: "wrote ?s2 t [(?st, enc_head 0 (log_block s1) (bview s2 ?st))]" "dirtyb t = {}"
    using write_head_spec [of ?s2] b2(2) s2(2) s1(4) unfolding wp_unit by (auto simp: log_upd_bio l2 NBUF_def)
  have m2: "memdisk s2 = apply_writes ?B (memdisk s)" using s2(1) s1(6) by (simp add: wrote_def)
  have v2: "bview s2 ?st = memdisk s2 ?st" using bc.clean [of s2 ?st] b2(2) s2(2) by (simp add: quiet_def)
  have "bio_step ?s2 t" using t by (simp add: wrote_def)
  note l4 = bio_step_log [OF this] bio_step_simps(4) [OF this]
  have "recover_from_log s = Ret () t" by (simp add: recover_from_log_def bnd_def p1 p2 p3)
  then show ?thesis
    using t s1 m2 v2 by (simp add: wp_def wrote_def l4 l2 recover_disk_def Let_def enc_head_0)
qed

text \<open>Recovery with an empty header changes only the header; with a full one it installs the copies.\<close>

lemma recover_empty: "head_n (d st) = 0 \<Longrightarrow> b \<noteq> st \<Longrightarrow> recover_disk st d b = d b"
  by (simp add: recover_disk_def)

lemma recover_logged:
  assumes "head_n (d st) = int n" and "\<forall>i < n. head_block (d st) i = blk i" and "inj_on blk {..<n}" and "b \<noteq> st"
    and "\<forall>i < n. d (log_slot st i) = v (blk i)" and "b \<notin> blk ` {..<n} \<longrightarrow> d b = v b"
  shows "recover_disk st d b = v b"
proof -
  have m: "map (\<lambda>i. (head_block (d st) i, d (log_slot st i))) [0..<n] = map (\<lambda>i. (blk i, v (blk i))) [0..<n]"
    using assms(2,5) by simp
  show ?thesis
  proof (cases "b \<in> blk ` {..<n}")
    case True
    then obtain i where "i < n" "b = blk i" by auto
    then show ?thesis
      using assms(1,4) apply_writes_map [OF assms(3), of i "\<lambda>i. v (blk i)"] by (simp add: recover_disk_def Let_def m)
  next
    case False
    then show ?thesis using assms(1,4,6) by (simp add: recover_disk_def Let_def m apply_writes_map_other)
  qed
qed

lemma crash_prefix:
  fixes blk :: "nat \<Rightarrow> uint" and v d0 :: "uint \<Rightarrow> byte list" and st :: uint and n k :: nat
  defines "h \<equiv> enc_head (int n) blk (v st)"
  defines "A \<equiv> map (\<lambda>i. (log_slot st i, v (blk i))) [0..<n]" and "B \<equiv> map (\<lambda>i. (blk i, v (blk i))) [0..<n]"
  defines "d \<equiv> apply_writes (take k (A @ (st, h) # B @ [(st, enc_head 0 blk h)])) d0"
  assumes n: "n \<le> 29" and inj: "inj_on blk {..<n}" and out: "\<forall>i < n. \<not> in_log st (blk i)"
    and len: "length (v st) = BSIZE" and old: "head_n (d0 st) = 0"
    and same: "\<forall>b. \<not> in_log st b \<longrightarrow> b \<notin> blk ` {..<n} \<longrightarrow> v b = d0 b" and b: "\<not> in_log st b"
  shows "(head_n (d st) = 0 \<or> head_n (d st) = int n \<and> (\<forall>i < n. head_block (d st) i = blk i)) \<and>
    recover_disk st d b = (if k \<le> n then d0 b else v b)"
proof -
  have bst: "b \<noteq> st" using b by auto
  have stb: "st \<notin> blk ` {..<j}" if "j \<le> n" for j
    using out that in_log_start [of st] by (metis imageE lessThan_iff order_less_le_trans)
  have hd: "length h = BSIZE" "head_n h = int n" "\<forall>i < n. head_block h i = blk i"
    using enc_head_props [of "v st" "int n"] len n by (simp_all add: h_def)
  have h0: "head_n (enc_head 0 blk h) = 0" using enc_head_props(2) [of h 0] hd(1) by simp
  have slots: "apply_writes (take j A) d0 x = d0 x" if "x = st \<or> \<not> in_log st x" for j x
    using that start_not_slot [of n st] in_log_slot [of _ st] n
    by (intro apply_writes_other) (auto simp: A_def dest!: in_set_takeD)
  have slot: "log_slot st i \<notin> blk ` {..<j}" "log_slot st i \<noteq> st" "apply_writes A d0 (log_slot st i) = v (blk i)"
    if "i < n" "j \<le> n" for i j
  proof -
    show "log_slot st i \<notin> blk ` {..<j}" using in_log_slot [of i st] that n out by (auto simp: image_iff)
    show "log_slot st i \<noteq> st" using log_slot_not_start [of i st] that n by simp
    have "inj_on (log_slot st) {..<n}" using log_slot_inj by (rule inj_on_subset) (use n in auto)
    from apply_writes_map [OF this that(1)] show "apply_writes A d0 (log_slot st i) = v (blk i)"
      by (simp add: A_def)
  qed
  have lA: "length A = n" and lB: "length B = n" by (simp_all add: A_def B_def)
  have "k \<le> n \<or> (\<exists>j \<le> n. k = n + 1 + j) \<or> 2 * n + 1 < k" by presburger
  then consider "k \<le> n" | j where "k = n + 1 + j" "j \<le> n" | "2 * n + 1 < k" by blast
  then show ?thesis
  proof cases
    case 1
    then have "d = apply_writes (take k A) d0" by (simp add: d_def lA)
    then show ?thesis using 1 old slots b bst by (simp add: recover_empty)
  next
    case (2 j)
    then have d: "d = apply_writes (map (\<lambda>i. (blk i, v (blk i))) [0..<j]) ((apply_writes A d0)(st := h))"
      by (simp add: d_def lA lB B_def take_map)
    have ds: "d st = h" using stb [OF 2(2)] by (simp add: d apply_writes_map_other)
    have sl: "\<forall>i < n. d (log_slot st i) = v (blk i)" using slot 2(2) by (simp add: d apply_writes_map_other)
    have "d b = v b" if "b \<notin> blk ` {..<n}"
    proof -
      have "b \<notin> blk ` {..<j}" using that 2(2) by auto
      then show ?thesis using that same b bst slots [of b n] by (simp add: d apply_writes_map_other lA)
    qed
    then show ?thesis using recover_logged [of d st n blk b v] hd ds sl inj bst 2(1) by simp
  next
    case 3
    then have d: "d = (apply_writes B ((apply_writes A d0)(st := h)))(st := enc_head 0 blk h)"
      by (simp add: d_def lA lB)
    have "d b = v b"
    proof (cases "b \<in> blk ` {..<n}")
      case True
      then show ?thesis using apply_writes_map [OF inj, of _ "\<lambda>i. v (blk i)"] bst by (auto simp: d B_def)
    next
      case False
      then show ?thesis using same b bst slots [of b n] by (simp add: d B_def lA apply_writes_map_other)
    qed
    then show ?thesis using h0 bst 3 by (simp add: d recover_empty)
  qed
qed

section \<open>Recording a block in the transaction\<close>

text \<open>Inside a transaction the pinned buffers are exactly the blocks of the in-memory header.\<close>

definition tx_ok :: "'z log_state_scheme \<Rightarrow> bool" where
  "tx_ok s \<longleftrightarrow> bok s \<and> log_wf s \<and> dirtyb s = log_block s ` {..<nat (log_n s)}"

definition absorb :: "uint \<Rightarrow> 'z log_state_scheme \<Rightarrow> nat" where
  "absorb bn s = (case find (\<lambda>i. log_block s i = bn) [0..<nat (log_n s)] of Some i \<Rightarrow> i | None \<Rightarrow> nat (log_n s))"

lemma absorb_cases:
  assumes "0 \<le> log_n s"
  obtains "bn \<in> log_block s ` {..<nat (log_n s)}" and "absorb bn s < nat (log_n s)" and "log_block s (absorb bn s) = bn"
  | "bn \<notin> log_block s ` {..<nat (log_n s)}" and "int (absorb bn s) = log_n s"
proof (cases "find (\<lambda>i. log_block s i = bn) [0..<nat (log_n s)]")
  case None
  then have "bn \<notin> log_block s ` {..<nat (log_n s)}" by (auto simp: find_None_iff)
  moreover have "int (absorb bn s) = log_n s" using None assms by (simp add: absorb_def)
  ultimately show ?thesis by (rule that(2))
next
  case (Some i)
  then have i: "i < nat (log_n s)" "log_block s i = bn" by (auto simp: find_Some_iff)
  then have "bn \<in> log_block s ` {..<nat (log_n s)}" by blast
  then show ?thesis by (rule that(1)) (use Some i in \<open>simp_all add: absorb_def\<close>)
qed

lemma log_write_run:
  assumes "idle Lk_log s" and "cpu_ok (cpu s)" and "log_n s < LOGSIZE" and "log_n s < log_size s - 1"
    and "1 \<le> log_outstanding s"
  shows "log_write b s = Ret () (s\<lparr>cpu := settle (cpu s),
    bufs := (bufs s)(b := (bufs s b)\<lparr>b_flags := b_flags (bufs s b) OR B_DIRTY\<rparr>),
    log_block := (log_block s)(absorb (b_blockno (bufs s b)) s := b_blockno (bufs s b)),
    log_n := (if int (absorb (b_blockno (bufs s b)) s) = log_n s then log_n s + 1 else log_n s)\<rparr>)"
  using assms by (simp add: log_write_def whenk_def bnd_def lock_run upd_buf_def Let_def absorb_def
    cong: option.case_cong)

lemma mark_dirty:
  assumes "binv s" and "holds s b bn"
  defines "t \<equiv> s\<lparr>bufs := (bufs s)(b := (bufs s b)\<lparr>b_flags := b_flags (bufs s b) OR B_DIRTY\<rparr>)\<rparr>"
  shows "binv t" and "bview t = bview s" and "busyb t = busyb s" and "dirtyb t = insert bn (dirtyb s)"
    and "holds s c m \<Longrightarrow> holds t c m"
proof -
  let ?r = "(bufs s b)\<lparr>b_flags := b_flags (bufs s b) OR B_DIRTY\<rparr>"
  have h: "b < NBUF" "caches bn (bufs s b)" "busy (bufs s b)" using assms(2) by (auto simp: holds_def)
  have o: "only_in s b bn" by (rule only_in_cached [OF assms(1) h(1,2)])
  have v: "valid (bufs s b)" "length (b_data (bufs s b)) = BSIZE" using binv_buf [OF assms(1) h(1,2)] by simp_all
  have r: "caches bn ?r" "valid ?r" "busy ?r" "dirty ?r" using h v by (simp_all add: caches_def)
  show "binv t" unfolding t_def by (rule binv_upd [OF assms(1) o r(1,2)]) (use v r in simp_all)
  show "bview t = bview s"
    using bview_upd_only [OF assms(1) o r(1)] holds_view [OF assms(1,2)] by (simp add: t_def fun_upd_idem)
  show "busyb t = busyb s" "dirtyb t = insert bn (dirtyb s)"
    using sets_upd [OF o r(1)] r(3,4) h by (auto simp: t_def busyb_def)
  show "holds s c m \<Longrightarrow> holds t c m" using r h by (auto simp: t_def holds_def caches_def)
qed

lemma log_write_spec:
  assumes ok: "tx_ok s" and h: "holds s b bn" and lk: "idle Lk_log s" and sz: "log_size s = 30" and n: "log_n s < 29"
    and o: "1 \<le> log_outstanding s" and bn: "bn < disksize s" "\<not> in_log (log_start s) bn"
  shows "wp (log_write b) (\<lambda>_ t. tx_ok t \<and> dirtyb t = insert bn (dirtyb s) \<and> bview t = bview s \<and>
    busyb t = busyb s \<and> memdisk t = memdisk s \<and> iotrace t = iotrace s \<and> disksize t = disksize s \<and>
    log_start t = log_start s \<and> log_n t = (if bn \<in> dirtyb s then log_n s else log_n s + 1) \<and>
    (\<forall>c m. holds s c m \<longrightarrow> holds t c m)) s"
proof -
  have w: "bok s" "binv s" "bready s" "log_wf s" "dirtyb s = log_block s ` {..<nat (log_n s)}"
    using ok by (simp_all add: tx_ok_def bok_def)
  have bb: "b_blockno (bufs s b) = bn" using h by (simp add: holds_def caches_def)
  let ?i = "absorb bn s" and ?bf = "(bufs s)(b := (bufs s b)\<lparr>b_flags := b_flags (bufs s b) OR B_DIRTY\<rparr>)"
  let ?blk = "(log_block s)(?i := bn)" and ?n = "if int ?i = log_n s then log_n s + 1 else log_n s"
  define u where "u = s\<lparr>bufs := ?bf\<rparr>"
  define t where "t = u\<lparr>cpu := settle (cpu s), log_block := ?blk, log_n := ?n\<rparr>"
  have run: "log_write b s = Ret () t"
    unfolding t_def u_def using w(3) n o sz
    by (subst log_write_run [OF lk]) (simp_all add: bb bready_def LOGSIZE_def MAXOPBLOCKS_def)
  note m = mark_dirty [OF w(2) h, folded u_def]
  have tu: "binv t = binv u" "bview t = bview u" "busyb t = busyb u" "dirtyb t = dirtyb u" "holds t = holds u"
    by (simp_all add: t_def binv_def bview_def busyb_def dirtyb_def holds_def fun_eq_iff cong: option.case_cong)
  have "bready t" using w(3) by (simp add: t_def u_def bready_def)
  then have "bok t" using m(1) tu by (simp add: bok_def)
  moreover have "log_wf t \<and> insert bn (dirtyb s) = log_block t ` {..<nat (log_n t)} \<and>
    log_n t = (if bn \<in> dirtyb s then log_n s else log_n s + 1)"
  proof (rule absorb_cases [of s bn])
    show "0 \<le> log_n s" using w(4) by (simp add: log_wf_def)
  next
    assume a: "bn \<in> log_block s ` {..<nat (log_n s)}" "?i < nat (log_n s)" "log_block s ?i = bn"
    then have "?blk = log_block s" "int ?i \<noteq> log_n s" by auto
    then show ?thesis using w(4,5) a(1) by (simp add: t_def u_def log_wf_def insert_absorb)
  next
    assume a: "bn \<notin> log_block s ` {..<nat (log_n s)}" "int ?i = log_n s"
    then have i: "nat (log_n s) = ?i" "nat (log_n s + 1) = Suc ?i" and pos: "0 \<le> log_n s + 1" by simp_all
    have "inj_on ?blk {..<Suc ?i}" "\<forall>j < Suc ?i. ?blk j < disksize s \<and> \<not> in_log (log_start s) (?blk j)"
      using w(4) a(1) bn unfolding log_wf_def i
      by (auto simp: lessThan_Suc inj_on_def less_Suc_eq image_iff)
    moreover have "?blk ` {..<Suc ?i} = insert bn (log_block s ` {..<?i})"
      by (auto simp: lessThan_Suc image_iff)
    ultimately show ?thesis
      using w(4,5) a n pos unfolding t_def u_def by (simp add: log_wf_def i a(2))
  qed
  moreover have "memdisk t = memdisk s" "iotrace t = iotrace s" "disksize t = disksize s" "log_start t = log_start s"
    by (simp_all add: t_def u_def)
  ultimately show ?thesis
    using m tu unfolding wp_Ret [of "log_write b", OF run] tx_ok_def by simp
qed

section \<open>Updating a block in a transaction\<close>

text \<open>What a file-system operation relies on between its accesses to the disk, and what such an access leaves alone:
  everything but the buffer cache, the saved interrupt flag, sleeping processes and the header in memory.\<close>

definition tx_ready :: "'z log_state_scheme \<Rightarrow> bool" where
  "tx_ready s \<longleftrightarrow> tx_ok s \<and> busyb s = {} \<and> idle Lk_log s \<and> log_size s = 30 \<and> 1 \<le> log_outstanding s"

definition tx_step :: "'z log_state_scheme \<Rightarrow> 'z log_state_scheme \<Rightarrow> bool" where
  "tx_step s t \<longleftrightarrow> (\<exists>u n blk. bio_step s u \<and> t = u\<lparr>log_n := n, log_block := blk\<rparr>)"

lemma tx_step_refl [simp]: "tx_step s s"
proof -
  have "s = s\<lparr>log_n := log_n s, log_block := log_block s\<rparr>" by simp
  then show ?thesis unfolding tx_step_def using bio_step_refl by blast
qed

lemma tx_step_bio: "bio_step s t \<Longrightarrow> tx_step s t"
proof -
  assume "bio_step s t"
  moreover have "t = t\<lparr>log_n := log_n t, log_block := log_block t\<rparr>" by simp
  ultimately show ?thesis unfolding tx_step_def by blast
qed

lemma bio_step_log_upd:
  assumes "bio_step (s\<lparr>log_n := n, log_block := blk\<rparr>) t"
  obtains u where "bio_step s u" and "t = u\<lparr>log_n := n, log_block := blk\<rparr>"
proof -
  let ?w = "s\<lparr>log_n := n, log_block := blk\<rparr>"
  obtain v ps md tr bf where ps: "\<forall>i. \<exists>st. ps i = (procs ?w i)\<lparr>p_state := st\<rparr>"
    and t: "t = ?w\<lparr>cpu := (cpu ?w)\<lparr>intena := v\<rparr>, procs := ps, memdisk := md, iotrace := tr, bufs := bf\<rparr>"
    using assms unfolding bio_step_def by blast
  let ?u = "s\<lparr>cpu := (cpu s)\<lparr>intena := v\<rparr>, procs := ps, memdisk := md, iotrace := tr, bufs := bf\<rparr>"
  have "bio_step s ?u" by (rule bio_stepI) (use ps in simp)
  moreover have "t = ?u\<lparr>log_n := n, log_block := blk\<rparr>" unfolding t by simp
  ultimately show ?thesis using that by blast
qed

lemma tx_step_trans [trans]:
  assumes "tx_step s t" and "tx_step t u"
  shows "tx_step s u"
proof -
  obtain a n blk where a: "bio_step s a" "t = a\<lparr>log_n := n, log_block := blk\<rparr>"
    using assms(1) unfolding tx_step_def by blast
  obtain b n' blk' where b: "bio_step (a\<lparr>log_n := n, log_block := blk\<rparr>) b" "u = b\<lparr>log_n := n', log_block := blk'\<rparr>"
    using assms(2) a(2) unfolding tx_step_def by blast
  obtain c where c: "bio_step a c" "b = c\<lparr>log_n := n, log_block := blk\<rparr>" using bio_step_log_upd [OF b(1)] .
  have "bio_step s c" using bio_step_trans [OF a(1) c(1)] .
  moreover have "u = c\<lparr>log_n := n', log_block := blk'\<rparr>" by (simp add: b(2) c(2))
  ultimately show ?thesis unfolding tx_step_def by blast
qed

lemma tx_step_simps:
  assumes "tx_step s t"
  shows "locks t = locks s" "disksize t = disksize s" "log_start t = log_start s" "log_size t = log_size s"
    "log_outstanding t = log_outstanding s" "log_dev t = log_dev s" "log_committing t = log_committing s"
    "curproc (cpu t) = curproc (cpu s)" "cpu_ok (cpu t) = cpu_ok (cpu s)" "mem t = mem s" "bready t = bready s"
    "cpu_id (cpu t) = cpu_id (cpu s)"
  using assms unfolding tx_step_def
  by (auto simp: bio_step_simps bio_step_log bready_def)

lemma tx_pins: "tx_ok s \<Longrightarrow> log_n s \<le> 29 \<and> card (dirtyb s) \<le> nat (log_n s)"
  using card_image_le [of "{..<nat (log_n s)}" "log_block s"] by (auto simp: tx_ok_def log_wf_def)

lemma log_write_step:
  assumes "idle Lk_log s" and "cpu_ok (cpu s)" and "log_write b s = Ret () t"
  shows "tx_step s t"
proof -
  have g: "log_n s < LOGSIZE" "log_n s < log_size s - 1" "1 \<le> log_outstanding s"
    using assms(3) by (auto simp: log_write_def whenk_def bnd_def split: if_splits)
  let ?u = "s\<lparr>cpu := settle (cpu s), bufs := (bufs s)(b := (bufs s b)\<lparr>b_flags := b_flags (bufs s b) OR B_DIRTY\<rparr>)\<rparr>"
  have "bio_step s ?u" by (rule bio_step_bufs)
  moreover have "t = ?u\<lparr>log_n := log_n t, log_block := log_block t\<rparr>"
    using log_write_run [OF assms(1,2) g, of b] assms(3) by auto
  ultimately show ?thesis unfolding tx_step_def by blast
qed

lemma tx_update:
  assumes rd: "tx_ready s" and n: "log_n s < 29" and bn: "bn < disksize s" "\<not> in_log (log_start s) bn"
    and d: "length d = BSIZE"
  obtains b s1 s2 s3 t where "bread 1 bn s = Ret b s1" and "bio_step s s1" and "bcontents s1 b = bview s bn"
    and "bput b d s1 = Ret () s2" and "log_write b s2 = Ret () s3" and "brelse b s3 = Ret () t"
    and "tx_step s t" and "tx_ready t" and "bview t = (bview s)(bn := d)" and "memdisk t = memdisk s"
    and "log_n t \<le> log_n s + 1" and "dirtyb t = insert bn (dirtyb s)"
proof -
  have s: "tx_ok s" "bok s" "busyb s = {}" "idle Lk_log s" "log_size s = 30" "1 \<le> log_outstanding s"
    using rd by (simp_all add: tx_ready_def tx_ok_def)
  have r: "bn \<notin> busyb s" "bn \<in> dirtyb s \<or> card (busyb s \<union> dirtyb s) < NBUF"
    using s(3) tx_pins [OF s(1)] n by (auto simp: NBUF_def)
  obtain b s1 where p1: "bread 1 bn s = Ret b s1" and s1: "bio_step s s1" "bok s1" "holds s1 b bn"
      "bview s1 = bview s" "busyb s1 = insert bn (busyb s)" "dirtyb s1 = dirtyb s" "memdisk s1 = memdisk s"
    using bc.rd_law [OF s(2) r(1) bn(1) r(2)] unfolding wp_iff by blast
  obtain s2 where p2: "bput b d s1 = Ret () s2" and s2: "bio_step s1 s2" "bok s2"
      "bview s2 = (bview s1)(bn := d)" "busyb s2 = busyb s1" "dirtyb s2 = dirtyb s1"
      "memdisk s2 = memdisk s1" "holds s2 b bn"
    using bc.setd_law [OF s1(2,3) d] s1(3) unfolding wp_unit by blast
  note st = bio_step_trans [OF s1(1) s2(1)]
  note l = bio_step_log [OF st] bio_step_simps [OF st]
  have tx: "tx_ok s2" using s(1) s1 s2 by (simp add: tx_ok_def l)
  have h: "idle Lk_log s2" "log_size s2 = 30" "log_n s2 < 29" "1 \<le> log_outstanding s2" "bn < disksize s2"
      "\<not> in_log (log_start s2) bn"
    using s n bn by (simp_all add: l)
  from log_write_spec [OF tx s2(7) h]
  obtain s3 where p3: "log_write b s2 = Ret () s3" and s3: "tx_ok s3" "dirtyb s3 = insert bn (dirtyb s2)"
      "bview s3 = bview s2" "busyb s3 = busyb s2" "memdisk s3 = memdisk s2"
      "log_n s3 = (if bn \<in> dirtyb s2 then log_n s2 else log_n s2 + 1)" "holds s3 b bn"
    using s2(7) unfolding wp_unit by blast
  have ok3: "bok s3" "bn \<in> dirtyb s3 \<or> bview s3 bn = memdisk s3 bn"
    using s3(1) s3(2) unfolding tx_ok_def by blast+
  obtain t where p4: "brelse b s3 = Ret () t" and t: "bio_step s3 t" "bok t" "bview t = bview s3"
      "busyb t = busyb s3 - {bn}" "dirtyb t = dirtyb s3" "memdisk t = memdisk s3"
    using bc.rel_law [OF ok3(1) s3(7) ok3(2)] unfolding wp_unit by blast
  have "cpu_ok (cpu s2)" using s2(2) by (simp add: bok_def bready_def)
  note st3 = log_write_step [OF h(1) this p3]
  have stt: "tx_step s t"
    using tx_step_trans [OF tx_step_trans [OF tx_step_bio [OF st] st3] tx_step_bio [OF t(1)]] .
  note l4 = bio_step_log [OF t(1)] and f = tx_step_simps [OF stt]
  have "tx_ok t" using s3(1) t(2,5) by (simp add: tx_ok_def l4)
  then have "tx_ready t" using s s1(5) s2(4) s3(4) t(4) by (simp add: tx_ready_def f)
  moreover have "log_n t \<le> log_n s + 1" by (simp add: l4 l s3(6))
  ultimately show ?thesis
    using that [OF p1 s1(1) _ p2 p3 p4 stt] bc.has_contents [OF s1(2,3)] s1(4,6,7) s2(3,5,6) s3(2,3,5) t(3,5,6)
    by simp
qed

text \<open>Reading a block in a transaction leaves its contents alone.\<close>

lemma tx_read:
  assumes rd: "tx_ready s" and n: "log_n s < 30" and bn: "bn < disksize s"
  obtains b s1 t where "bread 1 bn s = Ret b s1" and "bio_step s s1" and "bcontents s1 b = bview s bn"
    and "brelse b s1 = Ret () t" and "bio_step s t" and "tx_ready t" and "bview t = bview s"
    and "memdisk t = memdisk s" and "dirtyb t = dirtyb s"
proof -
  have s: "tx_ok s" "bok s" "busyb s = {}" using rd by (simp_all add: tx_ready_def tx_ok_def)
  have r: "bn \<in> dirtyb s \<or> card (dirtyb s) < NBUF" using tx_pins [OF s(1)] n by (auto simp: NBUF_def)
  obtain b s1 t where p: "bread 1 bn s = Ret b s1" "bcontents s1 b = bview s bn" "brelse b s1 = Ret () t"
      "bio_step s s1" and t: "bio_step s t" "bok t" "busyb t = {}" "dirtyb t = dirtyb s" "memdisk t = memdisk s"
      "bview t = bview s"
    by (rule bc.read_block [OF s(2,3) bn r]) (rule that; assumption)
  note l = bio_step_log [OF t(1)] bio_step_simps [OF t(1)]
  have "tx_ready t" using rd t by (simp add: tx_ready_def tx_ok_def l)
  then show ?thesis using that [OF p(1,4,2,3) t(1)] t(4-6) by simp
qed

section \<open>A transaction on a small disk\<close>

definition log_demo :: "(uint \<Rightarrow> byte list) \<Rightarrow> log_state" where
  "log_demo d = bio_state.extend (bio_demo\<lparr>memdisk := d\<rparr>)
     \<lparr>log_start = 2, log_size = 30, log_outstanding = 1, log_committing = False, log_dev = 1, log_n = 0,
      log_block = (\<lambda>_. 0)\<rparr>"

definition demo_tx :: "(log_state, unit) kern" where
  "demo_tx = bnd binit (\<lambda>_. bnd (bread 1 50) (\<lambda>b.
     bnd (bput b (replicate BSIZE 7)) (\<lambda>_. bnd (log_write b) (\<lambda>_. brelse b))))"

lemma log_demo_boot:
  assumes "\<forall>bn. length (d bn) = BSIZE"
  shows "wp binit (\<lambda>_ t. bok t \<and> tx_ok t \<and> busyb t = {} \<and> dirtyb t = {} \<and> memdisk t = d \<and> disksize t = 1000 \<and>
    iotrace t = [] \<and> log_dev t = 1 \<and> log_start t = 2 \<and> log_size t = 30 \<and> log_outstanding t = 1 \<and>
    log_n t = 0 \<and> idle Lk_log t) (log_demo d)"
proof -
  have "\<forall>i < NBUF. b_flags (bufs (log_demo d) i) = 0" "\<forall>bn. length (memdisk (log_demo d) bn) = BSIZE"
    "idle Lk_ptable (log_demo d)" "cpu_ok (cpu (log_demo d))"
    using assms by (simp_all add: log_demo_def bio_demo_def demo_sched_def demo_cpu_def demo_buf_def
      sched_state.defs bio_state.defs cpu_ok_def)
  from binit_inv [OF this] obtain t bf where run: "binit (log_demo d) = Ret () t"
      and t: "bok t" "busyb t = {}" "dirtyb t = {}"
      and eq: "t = (log_demo d)\<lparr>locks := (locks (log_demo d))(Lk_bcache := free_lock), bufs := bf\<rparr>"
    unfolding wp_unit by blast
  have f: "memdisk t = d" "disksize t = 1000" "iotrace t = []" "log_dev t = 1" "log_start t = 2" "log_size t = 30"
      "log_outstanding t = 1" "log_n t = 0" "idle Lk_log t"
    unfolding eq by (simp_all add: log_demo_def bio_demo_def demo_sched_def sched_state.defs bio_state.defs)
  show ?thesis unfolding wp_Ret [of binit, OF run] by (simp add: t f tx_ok_def log_wf_def)
qed

lemma demo_tx_run:
  "wp demo_tx (\<lambda>_ s. tx_ok s \<and> busyb s = {} \<and> log_n s = 1 \<and> memdisk s = (\<lambda>_. replicate BSIZE 0) \<and>
     bview s = (\<lambda>_. replicate BSIZE 0)(50 := replicate BSIZE 7) \<and> log_start s = 2 \<and> disksize s = 1000)
   (log_demo (\<lambda>_. replicate BSIZE 0))"
proof -
  let ?d = "\<lambda>_::uint. replicate BSIZE (0::byte)"
  obtain s0 where p0: "binit (log_demo ?d) = Ret () s0" and s0: "bok s0" "tx_ok s0" "busyb s0 = {}" "dirtyb s0 = {}"
      "memdisk s0 = ?d" "disksize s0 = 1000" "log_start s0 = 2" "log_size s0 = 30" "log_outstanding s0 = 1"
      "log_n s0 = 0" "idle Lk_log s0"
    using log_demo_boot [of ?d] unfolding wp_unit by auto
  have v0: "bview s0 = ?d" using bc.clean [OF s0(1)] s0 by (simp add: fun_eq_iff)
  have h: "tx_ready s0" "log_n s0 < 29" "50 < disksize s0" "\<not> in_log (log_start s0) 50"
    using s0 by (simp_all add: tx_ready_def in_log_def)
  obtain b s1 s2 s3 t where p: "bread 1 50 s0 = Ret b s1" "bput b (replicate BSIZE 7) s1 = Ret () s2"
      "log_write b s2 = Ret () s3" "brelse b s3 = Ret () t" and t: "tx_step s0 t" "tx_ready t"
      "bview t = (bview s0)(50 := replicate BSIZE 7)" "memdisk t = memdisk s0" "log_n t \<le> log_n s0 + 1"
      "dirtyb t = insert 50 (dirtyb s0)"
    by (rule tx_update [OF h length_replicate]) (rule that; assumption)
  note f = tx_step_simps [OF t(1)]
  have "log_n t \<noteq> 0" using t(2,6) by (auto simp: tx_ready_def tx_ok_def)
  then have "log_n t = 1" using t(2,5) s0(10) by (simp add: tx_ready_def tx_ok_def log_wf_def)
  then show ?thesis
    using t s0 v0 by (simp add: wp_def demo_tx_def bnd_def p0 p f tx_ready_def)
qed

section \<open>Theorems\<close>

text \<open>C9. Inside a transaction \<open>log_write\<close> records the block once: a block already in the log keeps its
  slot, a new one takes the next slot; the buffer is pinned, the contents of no block change, nothing goes to the
  disk, and the pinned buffers are again exactly the blocks of the header.\<close>

theorem log_write_records:
  assumes "tx_ok s" and "holds s b bn" and "idle Lk_log s" and "log_size s = 30" and "log_n s < 29"
    and "1 \<le> log_outstanding s" and "bn < disksize s" and "\<not> in_log (log_start s) bn"
  shows "wp (log_write b) (\<lambda>_ t. tx_ok t \<and> dirtyb t = insert bn (dirtyb s) \<and> bview t = bview s \<and>
    memdisk t = memdisk s \<and> iotrace t = iotrace s \<and>
    log_n t = (if bn \<in> dirtyb s then log_n s else log_n s + 1)) s"
  by (rule wp_mono [OF log_write_spec [OF assms]]) auto

lemma commit_prefix:
  assumes ok: "tx_ok s" and q: "busyb s = {}" and old: "head_n (memdisk s (log_start s)) = 0"
    and b: "\<not> in_log (log_start s) b"
    and d: "d = apply_writes (take k (commit_writes s)) (memdisk s)"
  shows "(head_n (d (log_start s)) = 0 \<or> head_n (d (log_start s)) = log_n s \<and>
      (\<forall>i < nat (log_n s). head_block (d (log_start s)) i = log_block s i)) \<and>
    recover_disk (log_start s) d b = (if k \<le> nat (log_n s) then memdisk s b else bview s b)"
proof -
  have wf: "log_wf s" and bok: "bok s" and dirt: "dirtyb s = log_block s ` {..<nat (log_n s)}"
    using ok by (simp_all add: tx_ok_def)
  have n: "int (nat (log_n s)) = log_n s" "nat (log_n s) \<le> 29" using wf by (auto simp: log_wf_def nat_le_iff)
  have "\<forall>b. \<not> in_log (log_start s) b \<longrightarrow> b \<notin> log_block s ` {..<nat (log_n s)} \<longrightarrow> bview s b = memdisk s b"
    using bc.clean [OF bok] q dirt by auto
  from crash_prefix [OF n(2) _ _ bc.view_length [OF bok] old this b, of k] wf show ?thesis
    by (simp add: d commit_writes_def Let_def n(1) log_wf_def)
qed

lemma commit_writes_final:
  assumes "tx_ok s" and "busyb s = {}" and "0 < log_n s" and "head_n (memdisk s (log_start s)) = 0"
  shows "head_n (apply_writes (commit_writes s) (memdisk s) (log_start s)) = 0"
    and "\<not> in_log (log_start s) b \<Longrightarrow> apply_writes (commit_writes s) (memdisk s) b = bview s b"
proof -
  let ?d = "apply_writes (commit_writes s) (memdisk s)"
  let ?h = "enc_head (log_n s) (log_block s) (bview s (log_start s))"
  have s: "bok s" "log_wf s" using assms(1) by (simp_all add: tx_ok_def)
  have hd: "?d (log_start s) = enc_head 0 (log_block s) ?h" by (simp add: commit_writes_def Let_def)
  have "length ?h = BSIZE" using enc_head_props(1) [OF bc.view_length [OF s(1)]] s(2) by (simp add: log_wf_def)
  then show h0: "head_n (?d (log_start s)) = 0" using enc_head_props(2) [of ?h 0] by (simp add: hd)
  show "?d b = bview s b" if b: "\<not> in_log (log_start s) b"
  proof -
    have "recover_disk (log_start s) ?d b = bview s b"
      using commit_prefix [OF assms(1,2,4) b, of ?d "length (commit_writes s)"] assms(3)
      by (simp add: commit_writes_def Let_def)
    moreover have "b \<noteq> log_start s" using b by auto
    ultimately show ?thesis using recover_empty [of ?d, OF h0] by simp
  qed
qed

text \<open>C8. A commit installs the transaction: it returns, every block outside the log then has on the disk the
  contents the transaction gave it, the log on disk and in memory is empty again and no buffer is pinned.\<close>

theorem commit_installs:
  assumes "tx_ok s" and "busyb s = {}" and "0 < log_n s" and "head_n (memdisk s (log_start s)) = 0"
  shows "wp commit (\<lambda>_ t. (\<forall>b. \<not> in_log (log_start s) b \<longrightarrow> memdisk t b = bview s b) \<and>
    head_n (memdisk t (log_start s)) = 0 \<and> log_n t = 0 \<and> tx_ok t \<and> busyb t = {} \<and> dirtyb t = {}) s"
proof -
  have s: "quiet s" "log_wf s" "bok s" "dirtyb s = log_block s ` {..<nat (log_n s)}"
    using assms(1,2) by (simp_all add: tx_ok_def quiet_def)
  obtain t where run: "commit s = Ret () t" and t: "quiet t" "dirtyb t = {}" "log_n t = 0" "log_start t = log_start s"
      "log_dev t = 1" "disksize t = disksize s" and m: "memdisk t = apply_writes (commit_writes s) (memdisk s)"
    using commit_spec [OF s(1,2,4) assms(3)] unfolding wp_unit by blast
  have "log_wf t" using s(2) t by (simp add: log_wf_def)
  then show ?thesis
    using run t commit_writes_final [OF assms] by (simp add: wp_def tx_ok_def quiet_def m)
qed

text \<open>C7. A transaction is all or nothing. Suppose the machine stops after the first \<open>k\<close> disk writes of a
  commit, for any \<open>k\<close>, and boots with an empty buffer cache from the disk it left. Then \<open>recover_from_log\<close>
  returns, and either every block outside the log is as before the transaction or every such block is as the
  completed commit would have left it.\<close>

theorem commit_crash_safe:
  assumes "tx_ok s" and "busyb s = {}" and "0 < log_n s" and "head_n (memdisk s (log_start s)) = 0"
    and "commit s = Ret () s'" and "iotrace s' = iotrace s @ ws"
    and "bok t" and "busyb t = {}" and "dirtyb t = {}" and "log_dev t = 1" and "log_start t = log_start s"
    and "disksize t = disksize s" and "memdisk t = apply_writes (take k ws) (memdisk s)"
  shows "wp recover_from_log (\<lambda>_ u.
    (\<forall>b. \<not> in_log (log_start s) b \<longrightarrow> memdisk u b = memdisk s b) \<or>
    (\<forall>b. \<not> in_log (log_start s) b \<longrightarrow> memdisk u b = memdisk s' b)) t"
proof -
  have s: "quiet s" "log_wf s" "dirtyb s = log_block s ` {..<nat (log_n s)}" and t: "quiet t"
    using assms(1,2,7,8) by (simp_all add: tx_ok_def quiet_def)
  have ws: "ws = commit_writes s" and s': "memdisk s' = apply_writes (commit_writes s) (memdisk s)"
    using wp_iff [THEN iffD1, OF commit_spec [OF s assms(3)]] assms(5,6) by simp_all
  note p = commit_prefix [OF assms(1,2,4)]
  have new: "memdisk s' b = bview s b" if "\<not> in_log (log_start s) b" for b
    using commit_writes_final(2) [OF assms(1-4) that] by (simp add: s')
  have out: "\<not> in_log (log_start s) (log_block s i) \<and> log_block s i < disksize s" if "i < nat (log_n s)" for i
    using s(2) that by (auto simp: log_wf_def)
  have "head_wf (log_start s) (disksize s) (memdisk t (log_start s))"
    using p [OF out [of 0, THEN conjunct1] assms(13) [unfolded ws]] assms(3) s(2) out
    by (auto simp: head_wf_def log_wf_def inj_on_def)
  moreover have "unat (log_start t) + 30 < unat (disksize t)" using s(2) assms(11,12) by (simp add: log_wf_def)
  ultimately have "wp recover_from_log (\<lambda>_ u. memdisk u = recover_disk (log_start s) (memdisk t)) t"
    using recover_spec [OF t assms(9,10)] assms(11,12) by (auto elim!: wp_mono)
  then show ?thesis
    by (rule wp_mono) (use p [OF _ assms(13) [unfolded ws]] new in \<open>auto split: if_splits\<close>)
qed

lemma tx_head_demo: "head_n (replicate BSIZE 0) = 0"
  by (simp add: head_n_def rd32_def BSIZE_def numeral_eq_Suc)

theorem commit_installs_witness:
  "\<exists>s t. demo_tx (log_demo (\<lambda>_. replicate BSIZE 0)) = Ret () s \<and> memdisk s 50 = replicate BSIZE 0 \<and>
     commit s = Ret () t \<and> memdisk t 50 = replicate BSIZE 7"
proof -
  obtain s where s: "demo_tx (log_demo (\<lambda>_. replicate BSIZE 0)) = Ret () s" "tx_ok s" "busyb s = {}" "log_n s = 1"
      "memdisk s = (\<lambda>_. replicate BSIZE 0)" "bview s = (\<lambda>_. replicate BSIZE 0)(50 := replicate BSIZE 7)"
      "log_start s = 2"
    using demo_tx_run unfolding wp_unit by blast
  have "0 < log_n s" "head_n (memdisk s (log_start s)) = 0" using s tx_head_demo by simp_all
  from commit_installs [OF s(2,3) this] show ?thesis
    using s unfolding wp_unit by (auto simp: in_log_def)
qed

theorem commit_crash_safe_witness:
  "\<exists>s s' ws (t :: log_state) u. demo_tx (log_demo (\<lambda>_. replicate BSIZE 0)) = Ret () s \<and> commit s = Ret () s' \<and>
     iotrace s' = iotrace s @ ws \<and> memdisk t = apply_writes (take 2 ws) (memdisk s) \<and>
     recover_from_log t = Ret () u \<and> (memdisk u 50 = memdisk s 50 \<or> memdisk u 50 = memdisk s' 50)"
proof -
  obtain s where s: "demo_tx (log_demo (\<lambda>_. replicate BSIZE 0)) = Ret () s" "tx_ok s" "busyb s = {}" "log_n s = 1"
      "memdisk s = (\<lambda>_. replicate BSIZE 0)" "log_start s = 2" "disksize s = 1000"
    using demo_tx_run unfolding wp_unit by blast
  have n: "0 < log_n s" "head_n (memdisk s (log_start s)) = 0" using s tx_head_demo by simp_all
  have q: "quiet s" "log_wf s" "bok s" "dirtyb s = log_block s ` {..<nat (log_n s)}"
    using s(2,3) by (simp_all add: tx_ok_def quiet_def)
  obtain s' where s': "commit s = Ret () s'" "iotrace s' = iotrace s @ commit_writes s"
    using commit_spec [OF q(1,2,4) n(1)] unfolding wp_unit by blast
  let ?d = "apply_writes (take 2 (commit_writes s)) (memdisk s)"
  have "length (x :: byte list) = BSIZE" if "(b, x) \<in> set (commit_writes s)" for b x
    using that bc.view_length [OF q(3)] enc_head_props(1) [OF bc.view_length [OF q(3)], of 1] s(4)
    by (auto simp: commit_writes_def Let_def enc_head_0 BSIZE_def)
  then have "\<forall>(b, x) \<in> set (take 2 (commit_writes s)). length x = BSIZE" by (auto dest!: in_set_takeD)
  then have "length (?d bn) = BSIZE" for bn by (rule apply_writes_all) (simp add: s(5))
  then have "\<forall>bn. length (?d bn) = BSIZE" ..
  from log_demo_boot [OF this] obtain t :: log_state where t: "bok t" "busyb t = {}" "dirtyb t = {}" "memdisk t = ?d"
      "disksize t = 1000" "log_dev t = 1" "log_start t = 2"
    unfolding wp_unit by blast
  have "log_start t = log_start s" "disksize t = disksize s" using t s by simp_all
  from commit_crash_safe [OF s(2,3) n s' t(1-3,6) this t(4)]
  obtain u where u: "recover_from_log t = Ret () u"
      "(\<forall>b. \<not> in_log (log_start s) b \<longrightarrow> memdisk u b = memdisk s b) \<or>
       (\<forall>b. \<not> in_log (log_start s) b \<longrightarrow> memdisk u b = memdisk s' b)"
    unfolding wp_unit by blast
  moreover have "\<not> in_log (log_start s) 50" by (simp add: s(6) in_log_def)
  ultimately show ?thesis using s(1) s' t(4) by blast
qed

theorem log_write_records_witness:
  "\<exists>s b s1 t. binit (log_demo (\<lambda>_. replicate BSIZE 0)) = Ret () s \<and> bread 1 50 s = Ret b s1 \<and>
     log_write b s1 = Ret () t \<and> dirtyb t = {50} \<and> log_n t = 1"
proof -
  let ?d = "\<lambda>_::uint. replicate BSIZE (0::byte)"
  obtain s where s: "binit (log_demo ?d) = Ret () s" "bok s" "tx_ok s" "busyb s = {}" "dirtyb s = {}"
      "disksize s = 1000" "log_start s = 2" "log_size s = 30" "log_outstanding s = 1" "log_n s = 0" "idle Lk_log s"
    using log_demo_boot [of ?d] unfolding wp_unit by auto
  have r: "50 \<notin> busyb s" "50 < disksize s" "50 \<in> dirtyb s \<or> card (busyb s \<union> dirtyb s) < NBUF"
    using s by (simp_all add: NBUF_def)
  obtain b s1 where p1: "bread 1 50 s = Ret b s1" and s1: "bio_step s s1" "bok s1" "holds s1 b 50"
      "dirtyb s1 = dirtyb s"
    using bc.rd_law [OF s(2) r] unfolding wp_iff by blast
  note l = bio_step_log [OF s1(1)] bio_step_simps [OF s1(1)]
  have "tx_ok s1" using s(3) s1(2,4) by (simp add: tx_ok_def l)
  from log_write_records [OF this s1(3)] show ?thesis
    using s p1 s1(4) unfolding wp_unit by (auto simp: l in_log_def)
qed

text \<open>C10. A log header written to its block is read back: the count and every block number, for any log of at
  most \<open>LOGSIZE\<close> blocks and any old contents of the block.\<close>

theorem log_header_roundtrip:
  assumes "length d = BSIZE" and "0 \<le> n" and "n \<le> LOGSIZE"
  shows "length (enc_head n blk d) = BSIZE \<and> head_n (enc_head n blk d) = n \<and>
    map (head_block (enc_head n blk d)) [0..<nat n] = map blk [0..<nat n]"
  using enc_head_props [OF assms(1,2)] assms(3) by (simp add: LOGSIZE_def MAXOPBLOCKS_def)

theorem log_header_roundtrip_witness:
  "head_n (enc_head 2 (\<lambda>i. of_nat i + 40) (replicate BSIZE 9)) = 2 \<and>
   map (head_block (enc_head 2 (\<lambda>i. of_nat i + 40) (replicate BSIZE 9))) [0..<2] = [40, 41]"
  using log_header_roundtrip [of "replicate BSIZE 9" 2 "\<lambda>i. of_nat i + 40"]
  by (simp add: LOGSIZE_def MAXOPBLOCKS_def numeral_2_eq_2)

text \<open>C11. The reservation of \<open>begin_op\<close> promises more than the log takes. With the log empty and two operations
  in progress it admits a third, thirty blocks in all; but with the log of thirty blocks that \<open>mkfs\<close> makes,
  the thirtieth distinct block of these operations makes \<open>log_write\<close> panic.\<close>

theorem reservation_exceeds_log:
  assumes "idle Lk_log s" and "cpu_ok (cpu s)" and "\<not> log_committing s" and "log_n s = 0"
    and "log_outstanding s = 2" and "log_size t = LOGSIZE" and "log_n t = LOGSIZE - 1"
  shows "wp begin_op (\<lambda>_ u. log_outstanding u = 3 \<and> log_n u + log_outstanding u * MAXOPBLOCKS = LOGSIZE) s \<and>
    log_write b t = Panic ''too big a transaction''"
  using assms
  by (simp add: begin_op_def begin_op_loop_def wp_def bnd_def lock_run log_write_def whenk_def kpanic_def
    LOGSIZE_def MAXOPBLOCKS_def)

theorem reservation_exceeds_log_witness:
  "(\<exists>u. begin_op ((log_demo (\<lambda>_. []))\<lparr>log_outstanding := 2\<rparr>) = Ret () u \<and> log_outstanding u = 3) \<and>
   log_write 0 ((log_demo (\<lambda>_. []))\<lparr>log_n := 29\<rparr>) = Panic ''too big a transaction''"
  using reservation_exceeds_log [of "(log_demo (\<lambda>_. []))\<lparr>log_outstanding := 2\<rparr>"
      "(log_demo (\<lambda>_. []))\<lparr>log_n := 29\<rparr>" 0] unfolding wp_unit
  by (auto simp: log_demo_def bio_demo_def demo_sched_def demo_cpu_def sched_state.defs bio_state.defs cpu_ok_def
    LOGSIZE_def MAXOPBLOCKS_def)

end
