(* ===== verification/Inode.thy ===== *)
theory Inode
  imports Log
begin

text \<open>
  The block allocator and the inode layer (\<open>fs.c\<close>, up to \<open>stati\<close>): the free bitmap, the inode cache with
  its reference counts and its \<open>I_BUSY\<close> locks, inodes on disk, and the map from a file's block numbers to disk
  blocks.

  Inode pointers are indices into \<open>icache.inode\<close>; on-disk structures are read and written at their byte
  offsets in a block.
\<close>

section \<open>State\<close>

definition NINODE :: nat where "NINODE = 50"
definition NDIRECT :: nat where "NDIRECT = 12"
definition NINDIRECT :: nat where "NINDIRECT = BSIZE div 4"
definition MAXFILE :: nat where "MAXFILE = NDIRECT + NINDIRECT"
definition BPB :: nat where "BPB = BSIZE * 8"

text \<open>\<open>sizeof(struct dinode)\<close> is 64.\<close>

definition IPB :: nat where "IPB = BSIZE div 64"

definition I_BUSY :: uint where "I_BUSY = 0x1"
definition I_VALID :: uint where "I_VALID = 0x2"

definition T_DIR :: "16 word" where "T_DIR = 1"
definition T_FILE :: "16 word" where "T_FILE = 2"
definition T_DEV :: "16 word" where "T_DEV = 3"

text \<open>\<open>struct inode\<close>. A C \<open>short\<close> is a \<^typ>\<open>16 word\<close>, read by \<open>sint\<close> where its sign matters.\<close>

record inode =
  i_dev :: uint
  i_inum :: uint
  i_ref :: int
  i_flags :: uint
  i_type :: "16 word"
  i_major :: "16 word"
  i_minor :: "16 word"
  i_nlink :: "16 word"
  i_size :: uint
  i_addrs :: "nat \<Rightarrow> uint"

text \<open>\<open>struct stat\<close>.\<close>

record stat =
  st_type :: "16 word"
  st_dev :: uint
  st_ino :: uint
  st_nlink :: "16 word"
  st_size :: uint

record icache_state = log_state +
  fs_sb :: superblock
  inodes :: "nat \<Rightarrow> inode"

definition upd_inode :: "nat \<Rightarrow> (inode \<Rightarrow> inode) \<Rightarrow> ('z icache_state_scheme, unit) kern" where
  "upd_inode ip f = modify (\<lambda>s. s\<lparr>inodes := (inodes s)(ip := f (inodes s ip))\<rparr>)"

definition IBLOCK :: "uint \<Rightarrow> superblock \<Rightarrow> uint" where
  "IBLOCK i sb = i div of_nat IPB + sb_inodestart sb"

definition BBLOCK :: "uint \<Rightarrow> superblock \<Rightarrow> uint" where
  "BBLOCK b sb = b div of_nat BPB + sb_bmapstart sb"

section \<open>Blocks\<close>

definition bzero :: "uint \<Rightarrow> uint \<Rightarrow> ('z icache_state_scheme, unit) kern" where
  "bzero dev bno =
     bnd (bread dev bno) (\<lambda>bp. block [
       bput bp (replicate BSIZE 0),
       log_write bp,
       brelse bp])"

definition bit_used :: "byte list \<Rightarrow> nat \<Rightarrow> bool" where
  "bit_used d bi \<longleftrightarrow> (d ! (bi div 8)) AND push_bit (bi mod 8) 1 \<noteq> 0"

definition set_bit_used :: "nat \<Rightarrow> byte list \<Rightarrow> byte list" where
  "set_bit_used bi d = d[bi div 8 := (d ! (bi div 8)) OR push_bit (bi mod 8) 1]"

definition clear_bit_used :: "nat \<Rightarrow> byte list \<Rightarrow> byte list" where
  "clear_bit_used bi d = d[bi div 8 := (d ! (bi div 8)) AND NOT (push_bit (bi mod 8) 1)]"

text \<open>The body of the outer loop of \<open>balloc\<close>, at block \<open>b\<close>: the inner loop looks for the first clear bit.\<close>

definition balloc_scan :: "uint \<Rightarrow> nat \<Rightarrow> ('z icache_state_scheme, uint option) kern" where
  "balloc_scan dev b =
     bnd (\<lambda>s. bread dev (BBLOCK (of_nat b) (fs_sb s)) s) (\<lambda>bp.
     bnd (gets (\<lambda>s. find (\<lambda>bi. \<not> bit_used (bcontents s bp) bi)
       [0..<min BPB (unat (sb_size (fs_sb s)) - b)])) (\<lambda>found.
     case found of
       Some bi \<Rightarrow>
         bnd (\<lambda>s. bput bp (set_bit_used bi (bcontents s bp)) s) (\<lambda>_.
         bnd (log_write bp) (\<lambda>_.
         bnd (brelse bp) (\<lambda>_.
         bnd (bzero dev (of_nat (b + bi))) (\<lambda>_.
         ret (Some (of_nat (b + bi)))))))
     | None \<Rightarrow> bnd (brelse bp) (\<lambda>_. ret None)))"

definition balloc :: "uint \<Rightarrow> ('z icache_state_scheme, uint) kern" where
  "balloc dev =
     bnd (\<lambda>s. forexit (balloc_scan dev)
       (map (\<lambda>k. k * BPB) [0..<(unat (sb_size (fs_sb s)) + BPB - 1) div BPB]) s) (\<lambda>r.
     case r of Some b \<Rightarrow> ret b | None \<Rightarrow> kpanic ''balloc: out of blocks'')"

definition bfree :: "uint \<Rightarrow> uint \<Rightarrow> ('z icache_state_scheme, unit) kern" where
  "bfree dev b =
     bnd (readsb dev) (\<lambda>sb.
     bnd (modify (\<lambda>s. s\<lparr>fs_sb := sb\<rparr>)) (\<lambda>_.
     bnd (\<lambda>s. bread dev (BBLOCK b (fs_sb s)) s) (\<lambda>bp.
     let bi = unat b mod BPB in block [
       \<lambda>s. whenk (\<not> bit_used (bcontents s bp) bi) (kpanic ''freeing free block'') s,
       \<lambda>s. bput bp (clear_bit_used bi (bcontents s bp)) s,
       log_write bp,
       brelse bp])))"

section \<open>Inodes on disk\<close>

text \<open>The byte offset of inode \<open>inum\<close> in its block, and \<open>struct dinode\<close> there.\<close>

definition dip_off :: "uint \<Rightarrow> nat" where
  "dip_off inum = 64 * (unat inum mod IPB)"

definition dip_type :: "byte list \<Rightarrow> nat \<Rightarrow> 16 word" where
  "dip_type d off = rd16 d off"

definition load_dinode :: "byte list \<Rightarrow> nat \<Rightarrow> inode \<Rightarrow> inode" where
  "load_dinode d off r = r\<lparr>i_type := rd16 d off, i_major := rd16 d (off + 2), i_minor := rd16 d (off + 4),
     i_nlink := rd16 d (off + 6), i_size := rd32 d (off + 8),
     i_addrs := (\<lambda>i. if i \<le> NDIRECT then rd32 d (off + 12 + 4 * i) else i_addrs r i)\<rparr>"

definition store_dinode :: "inode \<Rightarrow> nat \<Rightarrow> byte list \<Rightarrow> byte list" where
  "store_dinode r off d =
     fold (\<lambda>i d. wr32 d (off + 12 + 4 * i) (i_addrs r i)) [0..<NDIRECT + 1]
       (wr32 (wr16 (wr16 (wr16 (wr16 d off (i_type r)) (off + 2) (i_major r)) (off + 4) (i_minor r))
         (off + 6) (i_nlink r)) (off + 8) (i_size r))"

definition iupdate :: "nat \<Rightarrow> ('z icache_state_scheme, unit) kern" where
  "iupdate ip =
     bnd (\<lambda>s. bread (i_dev (inodes s ip)) (IBLOCK (i_inum (inodes s ip)) (fs_sb s)) s) (\<lambda>bp. block [
       \<lambda>s. bput bp (store_dinode (inodes s ip) (dip_off (i_inum (inodes s ip))) (bcontents s bp)) s,
       log_write bp,
       brelse bp])"

section \<open>The inode cache\<close>

definition iget :: "uint \<Rightarrow> uint \<Rightarrow> ('z icache_state_scheme, nat) kern" where
  "iget dev inum =
     bnd (acquire Lk_icache) (\<lambda>_.
     bnd (gets (\<lambda>s. find (\<lambda>i. i_ref (inodes s i) > 0 \<and> i_dev (inodes s i) = dev \<and> i_inum (inodes s i) = inum)
       [0..<NINODE])) (\<lambda>cached.
     case cached of
       Some ip \<Rightarrow>
         bnd (upd_inode ip (\<lambda>r. r\<lparr>i_ref := i_ref r + 1\<rparr>)) (\<lambda>_.
         bnd (release Lk_icache) (\<lambda>_.
         ret ip))
     | None \<Rightarrow>
         bnd (gets (\<lambda>s. find (\<lambda>i. i_ref (inodes s i) = 0) [0..<NINODE])) (\<lambda>empty.
         case empty of
           None \<Rightarrow> kpanic ''iget: no inodes''
         | Some ip \<Rightarrow>
             bnd (upd_inode ip (\<lambda>r. r\<lparr>i_dev := dev, i_inum := inum, i_ref := 1, i_flags := 0\<rparr>)) (\<lambda>_.
             bnd (release Lk_icache) (\<lambda>_.
             ret ip)))))"

definition ialloc_at :: "uint \<Rightarrow> 16 word \<Rightarrow> uint \<Rightarrow> ('z icache_state_scheme, nat option) kern" where
  "ialloc_at dev ty inum =
     bnd (\<lambda>s. bread dev (IBLOCK inum (fs_sb s)) s) (\<lambda>bp.
     bnd (gets (\<lambda>s. dip_type (bcontents s bp) (dip_off inum))) (\<lambda>dty.
     if dty = 0 then
       bnd (\<lambda>s. bput bp (wr16 (splice (bcontents s bp) (dip_off inum) (replicate 64 0)) (dip_off inum) ty) s) (\<lambda>_.
       bnd (log_write bp) (\<lambda>_.
       bnd (brelse bp) (\<lambda>_.
       bnd (iget dev inum) (\<lambda>ip.
       ret (Some ip)))))
     else bnd (brelse bp) (\<lambda>_. ret None)))"

definition ialloc :: "uint \<Rightarrow> 16 word \<Rightarrow> ('z icache_state_scheme, nat) kern" where
  "ialloc dev ty =
     bnd (\<lambda>s. forexit (\<lambda>inum. ialloc_at dev ty (of_nat inum)) [1..<unat (sb_ninodes (fs_sb s))] s) (\<lambda>r.
     case r of Some ip \<Rightarrow> ret ip | None \<Rightarrow> kpanic ''ialloc: no inodes'')"

definition idup :: "nat \<Rightarrow> ('z icache_state_scheme, nat) kern" where
  "idup ip =
     bnd (acquire Lk_icache) (\<lambda>_.
     bnd (upd_inode ip (\<lambda>r. r\<lparr>i_ref := i_ref r + 1\<rparr>)) (\<lambda>_.
     bnd (release Lk_icache) (\<lambda>_.
     ret ip)))"

text \<open>\<open>ilock\<close>: the wait for \<open>I_BUSY\<close>, with \<open>icache.lock\<close> held, and the read from disk. Woken up, a waiter
  goes on with \<open>ilock_resume\<close>.\<close>

definition ilock_load :: "nat \<Rightarrow> ('z icache_state_scheme, unit) kern" where
  "ilock_load ip s = whenk (i_flags (inodes s ip) AND I_VALID = 0) (
     bnd (\<lambda>s. bread (i_dev (inodes s ip)) (IBLOCK (i_inum (inodes s ip)) (fs_sb s)) s) (\<lambda>bp. block [
       \<lambda>s. upd_inode ip (load_dinode (bcontents s bp) (dip_off (i_inum (inodes s ip)))) s,
       brelse bp,
       upd_inode ip (\<lambda>r. r\<lparr>i_flags := i_flags r OR I_VALID\<rparr>),
       \<lambda>s. whenk (i_type (inodes s ip) = 0) (kpanic ''ilock: no type'') s])) s"

definition ilock_loop :: "nat \<Rightarrow> ('z icache_state_scheme, unit) kern" where
  "ilock_loop ip s =
     (if i_flags (inodes s ip) AND I_BUSY \<noteq> 0 then sleep (Ch_inode ip) (Some Lk_icache) s
      else block [
        upd_inode ip (\<lambda>r. r\<lparr>i_flags := i_flags r OR I_BUSY\<rparr>),
        release Lk_icache,
        ilock_load ip] s)"

definition ilock :: "nat \<Rightarrow> ('z icache_state_scheme, unit) kern" where
  "ilock ip = block [
     \<lambda>s. whenk (i_ref (inodes s ip) < 1) (kpanic ''ilock'') s,
     acquire Lk_icache,
     ilock_loop ip]"

definition ilock_resume :: "nat \<Rightarrow> bool \<Rightarrow> ('z icache_state_scheme, unit) kern" where
  "ilock_resume ip v = bnd (sleep_resume v Lk_icache) (\<lambda>_. ilock_loop ip)"

definition iunlock :: "nat \<Rightarrow> ('z icache_state_scheme, unit) kern" where
  "iunlock ip = block [
     \<lambda>s. whenk (i_flags (inodes s ip) AND I_BUSY = 0 \<or> i_ref (inodes s ip) < 1) (kpanic ''iunlock'') s,
     acquire Lk_icache,
     upd_inode ip (\<lambda>r. r\<lparr>i_flags := i_flags r AND NOT I_BUSY\<rparr>),
     wakeup (Ch_inode ip),
     release Lk_icache]"

section \<open>Inode content\<close>

text \<open>\<open>bmap\<close>: the disk block of block \<open>bn\<close> of the file, allocated if there is none.\<close>

definition bmap_slot :: "nat \<Rightarrow> nat \<Rightarrow> ('z icache_state_scheme, uint) kern" where
  "bmap_slot ip k =
     bnd (gets (\<lambda>s. i_addrs (inodes s ip) k)) (\<lambda>addr.
     if addr = 0 then
       bnd (\<lambda>s. balloc (i_dev (inodes s ip)) s) (\<lambda>addr.
       bnd (upd_inode ip (\<lambda>r. r\<lparr>i_addrs := (i_addrs r)(k := addr)\<rparr>)) (\<lambda>_.
       ret addr))
     else ret addr)"

definition bmap :: "nat \<Rightarrow> uint \<Rightarrow> ('z icache_state_scheme, uint) kern" where
  "bmap ip bn =
     (if unat bn < NDIRECT then bmap_slot ip (unat bn)
      else let bn = unat bn - NDIRECT in
      if bn < NINDIRECT then
        bnd (bmap_slot ip NDIRECT) (\<lambda>addr.
        bnd (\<lambda>s. bread (i_dev (inodes s ip)) addr s) (\<lambda>bp.
        bnd (gets (\<lambda>s. rd32 (bcontents s bp) (4 * bn))) (\<lambda>addr.
        bnd (if addr = 0 then
               bnd (\<lambda>s. balloc (i_dev (inodes s ip)) s) (\<lambda>addr.
               bnd (\<lambda>s. bput bp (wr32 (bcontents s bp) (4 * bn) addr) s) (\<lambda>_.
               bnd (log_write bp) (\<lambda>_.
               ret addr)))
             else ret addr) (\<lambda>addr.
        bnd (brelse bp) (\<lambda>_.
        ret addr)))))
      else kpanic ''bmap: out of range'')"

definition itrunc_direct :: "nat \<Rightarrow> nat \<Rightarrow> ('z icache_state_scheme, unit) kern" where
  "itrunc_direct ip i s = whenk (i_addrs (inodes s ip) i \<noteq> 0) (block [
     \<lambda>s. bfree (i_dev (inodes s ip)) (i_addrs (inodes s ip) i) s,
     upd_inode ip (\<lambda>r. r\<lparr>i_addrs := (i_addrs r)(i := 0)\<rparr>)]) s"

definition itrunc :: "nat \<Rightarrow> ('z icache_state_scheme, unit) kern" where
  "itrunc ip = block [
     foreach (itrunc_direct ip) [0..<NDIRECT],
     \<lambda>s. whenk (i_addrs (inodes s ip) NDIRECT \<noteq> 0) (
       bnd (\<lambda>s. bread (i_dev (inodes s ip)) (i_addrs (inodes s ip) NDIRECT) s) (\<lambda>bp. block [
         foreach (\<lambda>j s. let a = rd32 (bcontents s bp) (4 * j) in
           whenk (a \<noteq> 0) (bfree (i_dev (inodes s ip)) a) s) [0..<NINDIRECT],
         brelse bp,
         \<lambda>s. bfree (i_dev (inodes s ip)) (i_addrs (inodes s ip) NDIRECT) s,
         upd_inode ip (\<lambda>r. r\<lparr>i_addrs := (i_addrs r)(NDIRECT := 0)\<rparr>)])) s,
     upd_inode ip (\<lambda>r. r\<lparr>i_size := 0\<rparr>),
     iupdate ip]"

definition iput :: "nat \<Rightarrow> ('z icache_state_scheme, unit) kern" where
  "iput ip = block [
     acquire Lk_icache,
     \<lambda>s. whenk (i_ref (inodes s ip) = 1 \<and> i_flags (inodes s ip) AND I_VALID \<noteq> 0 \<and> i_nlink (inodes s ip) = 0) (block [
       \<lambda>s. whenk (i_flags (inodes s ip) AND I_BUSY \<noteq> 0) (kpanic ''iput busy'') s,
       upd_inode ip (\<lambda>r. r\<lparr>i_flags := i_flags r OR I_BUSY\<rparr>),
       release Lk_icache,
       itrunc ip,
       upd_inode ip (\<lambda>r. r\<lparr>i_type := 0\<rparr>),
       iupdate ip,
       acquire Lk_icache,
       upd_inode ip (\<lambda>r. r\<lparr>i_flags := 0\<rparr>),
       wakeup (Ch_inode ip)]) s,
     upd_inode ip (\<lambda>r. r\<lparr>i_ref := i_ref r - 1\<rparr>),
     release Lk_icache]"

definition iunlockput :: "nat \<Rightarrow> ('z icache_state_scheme, unit) kern" where
  "iunlockput ip = block [iunlock ip, iput ip]"

definition stati :: "nat \<Rightarrow> ('z icache_state_scheme, stat) kern" where
  "stati ip = gets (\<lambda>s. let r = inodes s ip in
     \<lparr>st_type = i_type r, st_dev = i_dev r, st_ino = i_inum r, st_nlink = i_nlink r, st_size = i_size r\<rparr>)"

section \<open>The free bitmap\<close>

lemma bit_used_iff: "bit_used d bi \<longleftrightarrow> bit (d ! (bi div 8)) (bi mod 8)"
  by (simp add: bit_used_def push_bit_eq_mult and_exp_eq_0_iff_not_bit)

lemma bit_used_set:
  assumes "bi div 8 < length d"
  shows "bit_used (set_bit_used bi d) c \<longleftrightarrow> c = bi \<or> bit_used d c"
proof (cases "c div 8 = bi div 8")
  case True
  then have "c mod 8 = bi mod 8 \<longleftrightarrow> c = bi" by (metis div_mult_mod_eq)
  then show ?thesis using True assms by (auto simp: bit_used_iff set_bit_used_def bit_simps)
next
  case False
  then show ?thesis by (auto simp: bit_used_iff set_bit_used_def)
qed

lemma bit_used_clear:
  assumes "bi div 8 < length d"
  shows "bit_used (clear_bit_used bi d) c \<longleftrightarrow> c \<noteq> bi \<and> bit_used d c"
proof (cases "c div 8 = bi div 8")
  case True
  then have "c mod 8 = bi mod 8 \<longleftrightarrow> c = bi" by (metis div_mult_mod_eq)
  then show ?thesis using True assms by (auto simp: bit_used_iff clear_bit_used_def bit_simps)
next
  case False
  then show ?thesis by (auto simp: bit_used_iff clear_bit_used_def)
qed

lemma length_bit_used [simp]: "length (set_bit_used bi d) = length d" "length (clear_bit_used bi d) = length d"
  by (simp_all add: set_bit_used_def clear_bit_used_def)

text \<open>Block \<open>b\<close> is marked in use, as the file system sees the disk.\<close>

definition block_used :: "'z icache_state_scheme \<Rightarrow> nat \<Rightarrow> bool" where
  "block_used s b \<longleftrightarrow> bit_used (bview s (BBLOCK (of_nat b) (fs_sb s))) (b mod BPB)"

lemma BBLOCK_nat: "b < 2 ^ 32 \<Longrightarrow> BBLOCK (of_nat b) sb = of_nat (b div BPB) + sb_bmapstart sb"
proof -
  assume b: "b < 2 ^ 32"
  then have "b div 4096 < 2 ^ 32" by simp
  with b have "(of_nat b :: uint) div 4096 = of_nat (b div 4096)"
    by (simp add: word_unat_eq_iff unat_div_distrib unat_of_nat)
  then show ?thesis by (simp add: BBLOCK_def BPB_def BSIZE_def)
qed

text \<open>What disk accesses leave of the inode layer's own state.\<close>

lemma tx_step_inode:
  fixes s t :: "'z icache_state_scheme"
  assumes "tx_step s t"
  shows "fs_sb t = fs_sb s" "inodes t = inodes s"
  using assms by (auto simp: tx_step_def bio_step_def)

lemma bio_step_inode:
  fixes s t :: "'z icache_state_scheme"
  assumes "bio_step s t"
  shows "fs_sb t = fs_sb s" "inodes t = inodes s"
  using assms by (auto simp: bio_step_def)

text \<open>The superblock describes the disk: the bitmap and the blocks it covers are on it, the bitmap is outside the
  log, and its blocks are in use.\<close>

definition sb_wf :: "'z icache_state_scheme \<Rightarrow> bool" where
  "sb_wf s \<longleftrightarrow> sb_size (fs_sb s) \<le> disksize s \<and>
     (\<forall>b < unat (sb_size (fs_sb s)). BBLOCK (of_nat b) (fs_sb s) < disksize s \<and>
        \<not> in_log (log_start s) (BBLOCK (of_nat b) (fs_sb s)) \<and>
        block_used s (unat (BBLOCK (of_nat b) (fs_sb s))))"

lemma bzero_spec:
  assumes "tx_ready s" and "log_n s < 29" and "bn < disksize s" and "\<not> in_log (log_start s) bn"
  shows "wp (bzero 1 bn) (\<lambda>_ t. tx_step s t \<and> tx_ready t \<and> bview t = (bview s)(bn := replicate BSIZE 0) \<and>
    memdisk t = memdisk s \<and> log_n t \<le> log_n s + 1) s"
proof -
  obtain b s1 s2 s3 t where p: "bread 1 bn s = Ret b s1" "bput b (replicate BSIZE 0) s1 = Ret () s2"
      "log_write b s2 = Ret () s3" "brelse b s3 = Ret () t" and t: "tx_step s t" "tx_ready t"
      "bview t = (bview s)(bn := replicate BSIZE 0)" "memdisk t = memdisk s" "log_n t \<le> log_n s + 1"
    by (rule tx_update [OF assms length_replicate]) (rule that; assumption)
  have "bzero 1 bn s = Ret () t" by (simp add: bzero_def bnd_def p)
  then show ?thesis using t by (simp add: wp_def)
qed

text \<open>C31. Freeing a block clears its bit, in the transaction, and changes nothing else the file system sees; freeing a
  block that is free panics.\<close>

theorem bfree_clears_bit:
  assumes "tx_ready s" and "log_n s < 29" and "1 < disksize s" and "dec_sb (bview s 1) = fs_sb s"
    and "BBLOCK b (fs_sb s) < disksize s" and "\<not> in_log (log_start s) (BBLOCK b (fs_sb s))"
  shows "if block_used s (unat b)
    then wp (bfree 1 b) (\<lambda>_ t. tx_ready t \<and> \<not> block_used t (unat b) \<and>
      (\<forall>x. x \<noteq> BBLOCK b (fs_sb s) \<longrightarrow> bview t x = bview s x) \<and>
      (\<forall>c. c \<noteq> unat b mod BPB \<longrightarrow> bit_used (bview t (BBLOCK b (fs_sb s))) c =
        bit_used (bview s (BBLOCK b (fs_sb s))) c) \<and>
      inodes t = inodes s \<and> fs_sb t = fs_sb s \<and> memdisk t = memdisk s) s
    else bfree 1 b s = Panic ''freeing free block''"
proof -
  let ?sb = "fs_sb s" let ?bb = "BBLOCK b ?sb" and ?bi = "unat b mod BPB"
  have n: "log_n s < 30" using assms(2) by simp
  obtain b0 s0 u where p0: "bread 1 1 s = Ret b0 s0" "bcontents s0 b0 = bview s 1" "brelse b0 s0 = Ret () u"
      and u: "bio_step s u" "tx_ready u" "bview u = bview s" "memdisk u = memdisk s"
    by (rule tx_read [OF assms(1) n assms(3)]) (rule that; assumption)
  have rsb: "readsb 1 s = Ret ?sb u" by (simp add: readsb_def bnd_def p0 assms(4))
  note l = bio_step_log [OF u(1)] bio_step_simps [OF u(1)] bio_step_inode [OF u(1)]
  have same: "u\<lparr>fs_sb := ?sb\<rparr> = u" using l by simp
  have len: "length (bview s ?bb) = BSIZE" using bc.view_length assms(1) by (auto simp: tx_ready_def tx_ok_def)
  have h: "log_n u < 29" "?bb < disksize u" "\<not> in_log (log_start u) ?bb" using assms by (simp_all add: l)
  let ?d = "clear_bit_used ?bi (bview s ?bb)"
  have d: "length ?d = BSIZE" using len by simp
  obtain bp s1 s2 s3 t where p: "bread 1 ?bb u = Ret bp s1" "bio_step u s1" "bcontents s1 bp = bview u ?bb"
      "bput bp ?d s1 = Ret () s2" "log_write bp s2 = Ret () s3" "brelse bp s3 = Ret () t"
      and t: "tx_step u t" "tx_ready t" "bview t = (bview u)(?bb := ?d)" "memdisk t = memdisk u"
    by (rule tx_update [OF u(2) h d]) (rule that; assumption)
  have used: "block_used s (unat b) \<longleftrightarrow> bit_used (bview s ?bb) ?bi" by (simp add: block_used_def)
  show ?thesis
  proof (cases "bit_used (bview s ?bb) ?bi")
    case True
    then have run: "bfree 1 b s = Ret () t"
      by (simp add: bfree_def bnd_def rsb same p(1,3-6) u(3) l whenk_def Let_def)
    have "?bi div 8 < length (bview s ?bb)" using len by (simp add: BPB_def BSIZE_def less_mult_imp_div_less)
    note c = bit_used_clear [OF this]
    note f = tx_step_inode [OF t(1)]
    have "\<not> block_used t (unat b)" by (simp add: block_used_def f l t(3) c)
    then show ?thesis using True run t u by (simp add: wp_def used f l c)
  next
    case False
    then show ?thesis
      by (simp add: used bfree_def bnd_def rsb same p(1,3) u(3) l whenk_def Let_def)
  qed
qed

text \<open>The scan of one bitmap block by \<open>balloc\<close>: without a clear bit it goes on, with one it takes the first.\<close>

lemma bmap_block:
  assumes "k * BPB + bi < 2 ^ 32" and "bi < BPB"
  shows "BBLOCK (of_nat (k * BPB + bi)) sb = BBLOCK (of_nat (k * BPB)) sb"
  using assms BBLOCK_nat [of "k * BPB + bi" sb] BBLOCK_nat [of "k * BPB" sb] by simp

lemma balloc_scan_none:
  assumes "tx_ready s" and "log_n s < 30" and "BBLOCK (of_nat b) (fs_sb s) < disksize s"
    and "find (\<lambda>bi. \<not> bit_used (bview s (BBLOCK (of_nat b) (fs_sb s))) bi)
      [0..<min BPB (unat (sb_size (fs_sb s)) - b)] = None"
  shows "wp (balloc_scan 1 b) (\<lambda>r t. r = None \<and> bio_step s t \<and> tx_ready t \<and> bview t = bview s \<and> memdisk t = memdisk s) s"
proof -
  obtain bp s1 t where p: "bread 1 (BBLOCK (of_nat b) (fs_sb s)) s = Ret bp s1" "bio_step s s1"
      "bcontents s1 bp = bview s (BBLOCK (of_nat b) (fs_sb s))" "brelse bp s1 = Ret () t"
      and t: "bio_step s t" "tx_ready t" "bview t = bview s" "memdisk t = memdisk s"
    by (rule tx_read [OF assms(1-3)]) (rule that; assumption)
  have "balloc_scan 1 b s = Ret None t"
    using assms(4) by (simp add: balloc_scan_def bnd_def p bio_step_inode [OF p(2)])
  then show ?thesis using t by (simp add: wp_def)
qed

lemma balloc_scan_some:
  assumes "tx_ready s" and "log_n s < 28" and "BBLOCK (of_nat b) (fs_sb s) < disksize s"
    and "\<not> in_log (log_start s) (BBLOCK (of_nat b) (fs_sb s))"
    and "find (\<lambda>bi. \<not> bit_used (bview s (BBLOCK (of_nat b) (fs_sb s))) bi)
      [0..<min BPB (unat (sb_size (fs_sb s)) - b)] = Some bi"
    and "of_nat (b + bi) < disksize s" and "\<not> in_log (log_start s) (of_nat (b + bi))"
  shows "wp (balloc_scan 1 b) (\<lambda>r t. r = Some (of_nat (b + bi)) \<and> tx_step s t \<and> tx_ready t \<and> memdisk t = memdisk s \<and>
    bview t = (bview s)(BBLOCK (of_nat b) (fs_sb s) := set_bit_used bi (bview s (BBLOCK (of_nat b) (fs_sb s))),
      of_nat (b + bi) := replicate BSIZE 0)) s"
proof -
  let ?bb = "BBLOCK (of_nat b) (fs_sb s)" let ?d = "set_bit_used bi (bview s ?bb)" and ?x = "of_nat (b + bi) :: uint"
  have n: "log_n s < 29" using assms(2) by simp
  have "length ?d = BSIZE" using bc.view_length assms(1) by (auto simp: tx_ready_def tx_ok_def)
  then obtain bp s1 s2 s3 u where p: "bread 1 ?bb s = Ret bp s1" "bio_step s s1" "bcontents s1 bp = bview s ?bb"
      "bput bp ?d s1 = Ret () s2" "log_write bp s2 = Ret () s3" "brelse bp s3 = Ret () u"
      and u: "tx_step s u" "tx_ready u" "bview u = (bview s)(?bb := ?d)" "memdisk u = memdisk s" "log_n u \<le> log_n s + 1"
    using tx_update [OF assms(1) n assms(3,4), of ?d] by metis
  note f = tx_step_simps [OF u(1)]
  have h: "log_n u < 29" "?x < disksize u" "\<not> in_log (log_start u) ?x" using assms(2,6,7) u(5) by (simp_all add: f)
  obtain t where z: "bzero 1 ?x u = Ret () t" and t: "tx_step u t" "tx_ready t"
      "bview t = (bview u)(?x := replicate BSIZE 0)" "memdisk t = memdisk u"
    using bzero_spec [OF u(2) h] unfolding wp_unit by blast
  have "balloc_scan 1 b s = Ret (Some ?x) t"
    using assms(5) z by (simp add: balloc_scan_def bnd_def p bio_step_inode [OF p(2)])
  then show ?thesis using t u tx_step_trans [OF u(1) t(1)] by (simp add: wp_def)
qed

text \<open>What the two block writes of \<open>balloc\<close> mean for the bitmap.\<close>

lemma balloc_effect:
  assumes wf: "sb_wf s" and b0: "b0 < unat (sb_size (fs_sb s))" and free: "\<not> block_used s b0" and ok: "tx_ready s"
    and st: "tx_step s t" and v: "bview t = (bview s)(BBLOCK (of_nat b0) (fs_sb s) :=
      set_bit_used (b0 mod BPB) (bview s (BBLOCK (of_nat b0) (fs_sb s))), of_nat b0 := replicate BSIZE 0)"
  shows "block_used t b0" and "c < unat (sb_size (fs_sb s)) \<Longrightarrow> c \<noteq> b0 \<Longrightarrow> block_used t c = block_used s c"
proof -
  let ?sb = "fs_sb s" let ?sz = "unat (sb_size ?sb)" and ?bb = "BBLOCK (of_nat b0) ?sb"
  have sz: "?sz < 2 ^ 32" by (rule unat_lt32)
  have ne: "BBLOCK (of_nat c) ?sb \<noteq> of_nat b0" if "c < ?sz" for c
  proof
    assume "BBLOCK (of_nat c) ?sb = of_nat b0"
    then have "unat (BBLOCK (of_nat c) ?sb) = b0" using b0 sz by (simp add: unat_of_nat)
    then show False using wf that free by (auto simp: sb_wf_def)
  qed
  have "length (bview s ?bb) = BSIZE" using bc.view_length ok by (auto simp: tx_ready_def tx_ok_def)
  then have "b0 mod BPB div 8 < length (bview s ?bb)" by (simp add: BPB_def BSIZE_def less_mult_imp_div_less)
  note set = bit_used_set [OF this]
  show "block_used t b0" using ne [OF b0] by (simp add: block_used_def tx_step_inode [OF st] v set)
  assume c: "c < ?sz" "c \<noteq> b0"
  have "c mod BPB \<noteq> b0 mod BPB" if "BBLOCK (of_nat c) ?sb = ?bb"
  proof
    assume m: "c mod BPB = b0 mod BPB"
    have "(of_nat (c div BPB) :: uint) = of_nat (b0 div BPB)"
      using that BBLOCK_nat [of c ?sb] BBLOCK_nat [of b0 ?sb] c b0 sz by simp
    moreover have "c div BPB < 2 ^ 32" "b0 div BPB < 2 ^ 32"
      using c b0 sz by (meson div_le_dividend le_less_trans less_trans)+
    ultimately have "c div BPB = b0 div BPB" using of_nat_inj32 by blast
    then show False using m c(2) by (metis div_mult_mod_eq)
  qed
  then show "block_used t c = block_used s c"
    using ne [OF c(1)] by (auto simp: block_used_def tx_step_inode [OF st] v set)
qed

text \<open>Where the scan of bitmap block \<open>k\<close> ends, when \<open>b0\<close> is the first free block.\<close>

lemma bitmap_scan:
  assumes "bi < min BPB (unat (sb_size (fs_sb s)) - k * BPB)"
  shows "bit_used (bview s (BBLOCK (of_nat (k * BPB)) (fs_sb s))) bi \<longleftrightarrow> block_used s (k * BPB + bi)"
proof -
  have "k * BPB + bi < 2 ^ 32" using assms unat_lt32 [of "sb_size (fs_sb s)"] by linarith
  then show ?thesis using assms bmap_block [of k bi "fs_sb s"] by (simp add: block_used_def)
qed

lemma bitmap_first_free:
  assumes b0: "b0 < unat (sb_size (fs_sb s))" and free: "\<not> block_used s b0" and first: "\<forall>c < b0. block_used s c"
    and k: "k \<le> b0 div BPB"
  shows "find (\<lambda>bi. \<not> bit_used (bview s (BBLOCK (of_nat (k * BPB)) (fs_sb s))) bi)
    [0..<min BPB (unat (sb_size (fs_sb s)) - k * BPB)] = (if k = b0 div BPB then Some (b0 mod BPB) else None)"
proof -
  let ?sz = "unat (sb_size (fs_sb s))" and ?i = "k * BPB"
  have le: "b0 div BPB * BPB \<le> b0" by (rule div_times_less_eq_dividend)
  show ?thesis
  proof (cases "k = b0 div BPB")
    case True
    then have ib: "?i + b0 mod BPB = b0" by simp
    have "b0 mod BPB < BPB" by (simp add: BPB_def BSIZE_def)
    then have lt: "b0 mod BPB < min BPB (?sz - ?i)" using b0 ib by linarith
    have "block_used s (?i + j)" if "j < b0 mod BPB" for j using that first ib by simp
    then show ?thesis
      unfolding if_P [OF True] find_first_Some using lt free ib bitmap_scan [of _ s k] by auto
  next
    case False
    then have "Suc k * BPB \<le> b0 div BPB * BPB" using k by (intro mult_le_mono1) simp
    then have "k * BPB + BPB \<le> b0 div BPB * BPB" by (simp add: add.commute)
    then have "?i + bi < b0" if "bi < BPB" for bi using that le by linarith
    then show ?thesis
      unfolding if_not_P [OF False] find_first_None using first bitmap_scan [of _ s k] by auto
  qed
qed

lemma bitmap_covers: "b < n \<Longrightarrow> b div BPB < (n + BPB - 1) div BPB"
  using div_le_mono [of "b + BPB" "n + BPB - 1" BPB] by (simp add: BPB_def BSIZE_def)

text \<open>C30. \<open>balloc\<close> takes the first free block: it returns it, marks it and only it in use, fills it with zeroes, and
  changes no other block of the file system; nothing reaches the disk before the commit.\<close>

theorem balloc_takes_first_free:
  assumes rd: "tx_ready s" and n: "log_n s < 28" and wf: "sb_wf s" and b0: "b0 < unat (sb_size (fs_sb s))"
    and free: "\<not> block_used s b0" and first: "\<forall>c < b0. block_used s c"
    and out: "\<not> in_log (log_start s) (of_nat b0)"
  shows "wp (balloc 1) (\<lambda>r t. r = of_nat b0 \<and> tx_ready t \<and> block_used t b0 \<and> inodes t = inodes s \<and>
    (\<forall>c < unat (sb_size (fs_sb s)). c \<noteq> b0 \<longrightarrow> block_used t c = block_used s c) \<and>
    bview t r = replicate BSIZE 0 \<and>
    (\<forall>x. x \<noteq> r \<longrightarrow> x \<noteq> BBLOCK r (fs_sb s) \<longrightarrow> bview t x = bview s x) \<and> memdisk t = memdisk s) s"
proof -
  let ?sb = "fs_sb s" let ?sz = "unat (sb_size ?sb)" and ?kz = "b0 div BPB" and ?bi = "b0 mod BPB"
  let ?bb = "BBLOCK (of_nat b0) ?sb"
  have B: "0 < BPB" by (simp add: BPB_def BSIZE_def)
  have sz: "?sz < 2 ^ 32" by (rule unat_lt32)
  have w: "BBLOCK (of_nat b) ?sb < disksize s" "\<not> in_log (log_start s) (BBLOCK (of_nat b) ?sb)" if "b < ?sz" for b
    using wf that by (auto simp: sb_wf_def)
  define Q where "Q r t \<longleftrightarrow> r = (of_nat b0 :: uint) \<and> tx_step s t \<and> tx_ready t \<and> memdisk t = memdisk s \<and>
    bview t = (bview s)(?bb := set_bit_used ?bi (bview s ?bb), of_nat b0 := replicate BSIZE 0)" for r t
  let ?I = "\<lambda>pre t. length pre \<le> ?kz \<and> bio_step s t \<and> tx_ready t \<and> bview t = bview s \<and> memdisk t = memdisk s"
  let ?is = "map (\<lambda>k. k * BPB) [0..<(?sz + BPB - 1) div BPB]"
  have "wp (forexit (balloc_scan 1) ?is) (\<lambda>r. case r of None \<Rightarrow> ?I ?is | Some v \<Rightarrow> Q v) s"
  proof (rule wp_forexit)
    show "?I [] s" using rd by simp
  next
    fix pre i rest u assume is_eq: "?is = pre @ i # rest" and I: "?I pre u"
    let ?k = "length pre"
    have k: "?k < (?sz + BPB - 1) div BPB" using arg_cong [OF is_eq, of length] by simp
    then have i: "i = ?k * BPB" using arg_cong [OF is_eq, of "\<lambda>l. l ! ?k"] by simp
    have "?k * BPB \<le> ?kz * BPB" using I by simp
    moreover have "?kz * BPB \<le> b0" by (rule div_times_less_eq_dividend)
    ultimately have isz: "i < ?sz" using b0 i by linarith
    have bs: "bio_step s u" using I by simp
    note l = bio_step_log [OF bs] bio_step_simps [OF bs] bio_step_inode [OF bs]
    have hu: "log_n u < 28" "BBLOCK (of_nat i) (fs_sb u) < disksize u"
        "\<not> in_log (log_start u) (BBLOCK (of_nat i) (fs_sb u))"
      using I n w [OF isz] by (simp_all add: l)
    note fd = bitmap_first_free [OF b0 free first, of ?k]
    have f: "fs_sb u = ?sb" by (simp add: l)
    show "wp (balloc_scan 1 i) (\<lambda>r. case r of None \<Rightarrow> ?I (pre @ [i]) | Some v \<Rightarrow> Q v) u"
    proof (cases "?k = ?kz")
      case True
      then have ib: "i + ?bi = b0" using i by simp
      have fu: "find (\<lambda>bi. \<not> bit_used (bview u (BBLOCK (of_nat i) (fs_sb u))) bi)
          [0..<min BPB (unat (sb_size (fs_sb u)) - i)] = Some ?bi" using fd I True by (simp add: f i)
      have "?k * BPB + ?bi < 2 ^ 32" "?bi < BPB" using b0 sz ib i B by simp_all
      from bmap_block [OF this, of ?sb] have bb: "BBLOCK (of_nat i) ?sb = ?bb" by (simp only: ib flip: i)
      have "(of_nat b0 :: uint) < sb_size ?sb" using b0 sz by (simp add: word_less_nat_alt unat_of_nat)
      then have "of_nat b0 < disksize s" using wf by (auto simp: sb_wf_def)
      then have x: "of_nat (i + ?bi) < disksize u" "\<not> in_log (log_start u) (of_nat (i + ?bi))"
        using out by (simp_all add: l ib del: of_nat_add)
      show ?thesis
        using balloc_scan_some [OF _ hu fu x] I tx_step_trans [OF tx_step_bio, of s u]
        by (auto elim!: wp_mono simp: Q_def ib f bb simp del: of_nat_add)
    next
      case False
      then have fu: "find (\<lambda>bi. \<not> bit_used (bview u (BBLOCK (of_nat i) (fs_sb u))) bi)
          [0..<min BPB (unat (sb_size (fs_sb u)) - i)] = None" using fd I by (simp add: f i)
      have "log_n u < 30" "Suc ?k \<le> ?kz" using hu(1) False I by simp_all
      then show ?thesis
        using balloc_scan_none [OF _ _ hu(2) fu] I bio_step_trans [of s u] by (auto elim!: wp_mono)
    qed
  qed
  moreover have "\<not> length ?is \<le> ?kz" using bitmap_covers [OF b0] by simp
  ultimately obtain v t where "forexit (balloc_scan 1) ?is s = Ret (Some v) t" "Q v t"
    unfolding wp_iff by (auto split: option.splits)
  then have "wp (balloc 1) Q s" by (simp add: wp_def balloc_def bnd_def)
  then show ?thesis
    by (rule wp_mono) (use balloc_effect [OF wf b0 free rd] in \<open>auto simp: Q_def tx_step_inode\<close>)
qed

section \<open>A small file system\<close>

text \<open>The layout \<open>mkfs\<close> computes for \<open>FSSIZE\<close> blocks and 200 inodes.\<close>

definition demo_sb :: superblock where
  "demo_sb = \<lparr>sb_size = 1000, sb_nblocks = 941, sb_ninodes = 200, sb_nlog = 30, sb_logstart = 2,
     sb_inodestart = 32, sb_bmapstart = 58\<rparr>"

definition demo_inode :: inode where
  "demo_inode = \<lparr>i_dev = 0, i_inum = 0, i_ref = 0, i_flags = 0, i_type = 0, i_major = 0, i_minor = 0, i_nlink = 0,
     i_size = 0, i_addrs = (\<lambda>_. 0)\<rparr>"

definition icache_demo :: "(uint \<Rightarrow> byte list) \<Rightarrow> icache_state" where
  "icache_demo d = log_state.extend (log_demo d) \<lparr>fs_sb = demo_sb, inodes = (\<lambda>_. demo_inode)\<rparr>"

lemmas icache_demo_defs = icache_demo_def log_demo_def bio_demo_def demo_sched_def demo_cpu_def
  sched_state.defs bio_state.defs log_state.defs

text \<open>A disk with that super block, whose bitmap marks the 59 blocks before the data blocks as used.\<close>

definition demo_sb_block :: "byte list" where
  "demo_sb_block = fold (\<lambda>(off, w) d. wr32 d off w)
     [(0, 1000), (4, 941), (8, 200), (12, 30), (16, 2), (20, 32), (24, 58)] (replicate BSIZE 0)"

definition demo_bitmap :: "byte list" where
  "demo_bitmap = replicate 7 0xff @ 0x07 # replicate (BSIZE - 8) 0"

definition demo_disk :: "uint \<Rightarrow> byte list" where
  "demo_disk = (\<lambda>_. replicate BSIZE 0)(1 := demo_sb_block, 58 := demo_bitmap)"

lemma demo_sb_block: "length demo_sb_block = BSIZE" "dec_sb demo_sb_block = demo_sb"
  by (simp_all add: demo_sb_block_def dec_sb_def demo_sb_def rd32_wr32_other BSIZE_def)

lemma demo_bitmap_used: "bi < BPB \<Longrightarrow> bit_used demo_bitmap bi \<longleftrightarrow> bi < 59"
proof -
  assume bi: "bi < BPB"
  have m: "(0xff :: byte) = mask 8" "(7 :: byte) = mask 3" by (simp_all add: mask_eq_exp_minus_1)
  consider "bi div 8 < 7" | "bi div 8 = 7" | "7 < bi div 8" by linarith
  then show ?thesis
  proof cases
    case 1
    then have "demo_bitmap ! (bi div 8) = mask 8" by (simp add: demo_bitmap_def nth_append m)
    then show ?thesis using 1 by (simp add: bit_used_iff bit_mask_iff)
  next
    case 2
    then have "demo_bitmap ! (bi div 8) = mask 3" by (simp add: demo_bitmap_def nth_append m)
    moreover have "bi mod 8 < 3 \<longleftrightarrow> bi < 59" using 2 mult_div_mod_eq [of 8 bi] by arith
    ultimately show ?thesis by (simp add: bit_used_iff bit_mask_iff)
  next
    case 3
    then have "demo_bitmap ! (bi div 8) = 0"
      using bi by (simp add: demo_bitmap_def nth_append nth_Cons' BPB_def BSIZE_def)
    then show ?thesis using 3 by (simp add: bit_used_iff)
  qed
qed

lemma icache_demo_boot:
  assumes "\<forall>bn. length (d bn) = BSIZE"
  shows "wp binit (\<lambda>_ t. tx_ready t \<and> bview t = d \<and> memdisk t = d \<and> disksize t = 1000 \<and> log_start t = 2 \<and>
    log_n t = 0 \<and> fs_sb t = demo_sb \<and> inodes t = (\<lambda>_. demo_inode)) (icache_demo d)"
proof -
  have "\<forall>i < NBUF. b_flags (bufs (icache_demo d) i) = 0" "\<forall>bn. length (memdisk (icache_demo d) bn) = BSIZE"
    "idle Lk_ptable (icache_demo d)" "cpu_ok (cpu (icache_demo d))"
    using assms by (simp_all add: icache_demo_defs demo_buf_def cpu_ok_def)
  from binit_inv [OF this] obtain t bf where run: "binit (icache_demo d) = Ret () t"
      and t: "bok t" "busyb t = {}" "dirtyb t = {}"
      and eq: "t = (icache_demo d)\<lparr>locks := (locks (icache_demo d))(Lk_bcache := free_lock), bufs := bf\<rparr>"
    unfolding wp_unit by blast
  have f: "memdisk t = d" "disksize t = 1000" "log_dev t = 1" "log_start t = 2" "log_size t = 30"
      "log_outstanding t = 1" "log_n t = 0" "idle Lk_log t" "fs_sb t = demo_sb" "inodes t = (\<lambda>_. demo_inode)"
    unfolding eq by (simp_all add: icache_demo_defs)
  have "bview t = d" using bview_clean [of t] t f by (auto simp: bok_def)
  then show ?thesis unfolding wp_Ret [of binit, OF run] by (simp add: t f tx_ready_def tx_ok_def log_wf_def)
qed

text \<open>After booting on that disk, block 59 is the first free one.\<close>

lemma demo_disk_boot:
  "\<exists>s. binit (icache_demo demo_disk) = Ret () s \<and> tx_ready s \<and> log_n s = 0 \<and> sb_wf s \<and> disksize s = 1000 \<and>
    fs_sb s = demo_sb \<and> dec_sb (bview s 1) = demo_sb \<and> log_start s = 2 \<and>
    (\<forall>b < 1000. block_used s b \<longleftrightarrow> b < 59)"
proof -
  have "\<forall>bn. length (demo_disk bn) = BSIZE"
    by (simp add: demo_disk_def demo_sb_block(1) demo_bitmap_def BSIZE_def)
  from icache_demo_boot [OF this] obtain s where s: "binit (icache_demo demo_disk) = Ret () s" "tx_ready s"
      "bview s = demo_disk" "disksize s = 1000" "log_start s = 2" "log_n s = 0" "fs_sb s = demo_sb"
    unfolding wp_unit by blast
  have bb: "BBLOCK (of_nat b) demo_sb = 58" if "b < 1000" for b
    using that BBLOCK_nat [of b demo_sb] by (simp add: demo_sb_def BPB_def BSIZE_def)
  have u: "block_used s b \<longleftrightarrow> b < 59" if "b < 1000" for b
    using that demo_bitmap_used [of b] by (simp add: block_used_def s bb demo_disk_def BPB_def BSIZE_def)
  then have "sb_wf s" using bb by (simp add: sb_wf_def s) (simp add: demo_sb_def in_log_def)
  then show ?thesis using s u by (simp add: demo_disk_def demo_sb_block)
qed

theorem balloc_takes_first_free_witness:
  "\<exists>s t. binit (icache_demo demo_disk) = Ret () s \<and> balloc 1 s = Ret 59 t \<and> block_used t 59"
proof -
  obtain s where s: "binit (icache_demo demo_disk) = Ret () s" "tx_ready s" "log_n s = 0" "sb_wf s"
      "fs_sb s = demo_sb" "log_start s = 2" "\<forall>b < 1000. block_used s b \<longleftrightarrow> b < 59"
    using demo_disk_boot by blast
  show ?thesis using balloc_takes_first_free [OF s(2) _ s(4), of 59] s
    by (auto simp: wp_iff demo_sb_def in_log_def)
qed

theorem bfree_clears_bit_witness:
  "\<exists>s t. binit (icache_demo demo_disk) = Ret () s \<and> bfree 1 58 s = Ret () t \<and> \<not> block_used t 58 \<and>
    bfree 1 60 s = Panic ''freeing free block''"
proof -
  obtain s where s: "binit (icache_demo demo_disk) = Ret () s" "tx_ready s" "log_n s = 0" "disksize s = 1000"
      "fs_sb s = demo_sb" "dec_sb (bview s 1) = demo_sb" "log_start s = 2" "\<forall>b < 1000. block_used s b \<longleftrightarrow> b < 59"
    using demo_disk_boot by blast
  have "BBLOCK 58 demo_sb = 58" "BBLOCK 60 demo_sb = 58"
    using BBLOCK_nat [of 58 demo_sb] BBLOCK_nat [of 60 demo_sb] by (simp_all add: demo_sb_def BPB_def BSIZE_def)
  then show ?thesis using bfree_clears_bit [of s 58] bfree_clears_bit [of s 60] s by (auto simp: wp_iff in_log_def)
qed

end
