(* ===== verification/Digits.thy ===== *)
theory Digits
  imports Xv6_Prelude
begin

text \<open>
  The digit loop of \<open>printint\<close>, which \<open>console.c\<close> and \<open>printf.c\<close> share, and \<open>atoi\<close> of \<open>ulib.c\<close>,
  which reads decimal digits back.
\<close>

section \<open>Operations\<close>

definition digit_char :: "nat \<Rightarrow> char" where
  "digit_char d = ''0123456789abcdef'' ! d"

text \<open>The \<open>do ... while\<close> loop: the digits of \<open>x\<close>, least significant first. A base below two never occurs.\<close>

function digits_rev :: "nat \<Rightarrow> nat \<Rightarrow> nat list" where
  "digits_rev b x = (if b < 2 \<or> x div b = 0 then [x mod b] else x mod b # digits_rev b (x div b))"
  by pat_completeness auto
termination
  by (relation "measure snd") (auto simp: not_less Suc_le_eq intro!: div_less_dividend gr0I)

declare digits_rev.simps [simp del]

text \<open>\<open>printint(xx, base, sign)\<close>: the characters it prints, in order. \<open>-xx\<close> wraps for the smallest \<open>int\<close>, whose
  bits then read as its magnitude.\<close>

definition printint_chars :: "uint \<Rightarrow> nat \<Rightarrow> bool \<Rightarrow> char list" where
  "printint_chars xx b signd = (let neg = signd \<and> sint xx < 0; x = (if neg then - xx else xx) in
     (if neg then ''-'' else []) @ rev (map digit_char (digits_rev b (unat x))))"

text \<open>\<open>atoi\<close>: the digits at the front of the string, accumulated with C's wrap-around.\<close>

fun atoi_loop :: "uint \<Rightarrow> byte list \<Rightarrow> uint" where
  "atoi_loop n (c # cs) = (if 48 \<le> c \<and> c \<le> 57 then atoi_loop (n * 10 + ucast c - 48) cs else n)"
| "atoi_loop n [] = n"

definition atoi :: "byte list \<Rightarrow> uint" where
  "atoi s = atoi_loop 0 s"

section \<open>Printed numbers\<close>

text \<open>The number a list of digits stands for, least significant first.\<close>

primrec val_rev :: "nat \<Rightarrow> nat list \<Rightarrow> nat" where
  "val_rev b [] = 0"
| "val_rev b (d # ds) = d + b * val_rev b ds"

lemma val_digits_rev: "2 \<le> b \<Longrightarrow> val_rev b (digits_rev b x) = x"
proof (induction b x rule: digits_rev.induct)
  case (1 b x)
  show ?case
  proof (cases "x div b = 0")
    case True
    then have "x mod b = x" using mult_div_mod_eq [of b x] by simp
    then show ?thesis using True by (subst digits_rev.simps) simp
  next
    case False
    then show ?thesis using 1 by (subst digits_rev.simps) (simp add: mult_div_mod_eq add.commute)
  qed
qed

lemma val_rev_snoc: "val_rev b (ds @ [d]) = val_rev b ds + d * b ^ length ds"
  by (induction ds) (simp_all add: algebra_simps)

lemma digits_rev_lt: "2 \<le> b \<Longrightarrow> d \<in> set (digits_rev b x) \<Longrightarrow> d < b"
  by (induction b x rule: digits_rev.induct) (subst (asm) (2) digits_rev.simps, auto split: if_splits)

lemma length_digits_rev: "2 \<le> b \<Longrightarrow> x < b ^ Suc k \<Longrightarrow> length (digits_rev b x) \<le> Suc k"
proof (induction k arbitrary: x)
  case 0
  then show ?case by (subst digits_rev.simps) simp
next
  case (Suc k)
  then have "x div b < b ^ Suc k" by (simp add: less_mult_imp_div_less mult.commute)
  then show ?case using Suc by (subst digits_rev.simps) simp
qed

lemma digit_code: "d < 10 \<Longrightarrow> of_char (digit_char d) = (of_nat (48 + d) :: byte)"
proof -
  assume "d < 10"
  then have "d \<in> {0, 1, 2, 3, 4, 5, 6, 7, 8, 9}" by auto
  then show ?thesis by (auto simp: digit_char_def)
qed

lemma atoi_loop_digits:
  assumes "\<forall>d \<in> set ds. d < 10" and "\<not> (48 \<le> c \<and> c \<le> 57)"
  shows "atoi_loop n (map (\<lambda>d. of_nat (48 + d)) ds @ c # rest) = n * 10 ^ length ds + of_nat (val_rev 10 (rev ds))"
  using assms
proof (induction ds arbitrary: n)
  case Nil
  then show ?case by auto
next
  case (Cons d ds)
  have d: "d < 10" using Cons.prems by simp
  then have "(of_nat (48 + d) :: byte) \<le> 57" "(48 :: byte) \<le> of_nat (48 + d)"
      "(ucast (of_nat (48 + d) :: byte) :: uint) = of_nat (48 + d)"
    by (simp_all add: word_le_nat_alt unat_of_nat unsigned_of_nat take_bit_nat_eq_self del: of_nat_add)
  then show ?case using Cons d val_rev_snoc [of 10 "rev ds" d] by (simp add: algebra_simps)
qed

lemma decimal_bytes:
  "map of_char (printint_chars x 10 False) = map (\<lambda>d. of_nat (48 + d) :: byte) (rev (digits_rev 10 (unat x)))"
proof -
  have "map (\<lambda>d. of_char (digit_char d)) ds = map (\<lambda>d. of_nat (48 + d) :: byte) ds" if "\<forall>d \<in> set ds. d < 10" for ds
    using that digit_code by simp
  from this [of "rev (digits_rev 10 (unat x))"] show ?thesis
    using digits_rev_lt [of 10 _ "unat x"] by (simp add: printint_chars_def rev_map comp_def del: of_nat_add)
qed


text \<open>C39. The digits and the sign of a number fit into \<open>printint\<close>'s buffer of 16 characters in both bases the kernel
  prints: at most 11 characters in decimal and 9 in hexadecimal.\<close>

theorem printint_fits:
  "length (printint_chars x 10 signd) \<le> 11 \<and> length (printint_chars x 16 signd) \<le> 9"
proof -
  have dec: "unat y < 10 ^ Suc 9" for y :: uint by (rule less_le_trans [OF unat_lt32]) simp
  have hex: "unat y < 16 ^ Suc 7" for y :: uint by (rule less_le_trans [OF unat_lt32]) simp
  show ?thesis
    using length_digits_rev [OF _ dec, of x] length_digits_rev [OF _ dec, of "- x"]
      length_digits_rev [OF _ hex, of x] length_digits_rev [OF _ hex, of "- x"]
    by (simp add: printint_chars_def Let_def)
qed

end
