(* ===== verification/Console.thy ===== *)
theory Console
  imports Inode Digits
begin

text \<open>
  The console (\<open>console.c\<close>), the keyboard (\<open>kbd.c\<close>, \<open>kbd.h\<close>) and the serial line (\<open>uart.c\<close>): formatted output to the
  screen and the serial line, line-buffered input with editing, and the console's entries in the device table.

  The devices are fields of the state: the CGA memory and cursor register, the bytes sent to the serial line, and the
  bytes waiting at the keyboard and at the serial line. The polling delay of \<open>uartputc\<close> leaves no trace.
\<close>

section \<open>State\<close>

definition INPUT_BUF :: nat where "INPUT_BUF = 128"
definition BACKSPACE :: int where "BACKSPACE = 0x100"
definition NDEV :: nat where "NDEV = 10"
definition CONSOLE :: nat where "CONSOLE = 1"

text \<open>The functions a \<open>struct devsw\<close> entry can point to.\<close>

datatype devread = Dev_consoleread
datatype devwrite = Dev_consolewrite

record cons_state = icache_state +
  panicked :: bool
  cons_locking :: bool
  crt :: "nat \<Rightarrow> 16 word"
  crt_pos :: nat
  uart_on :: bool
  uart_out :: "byte list"
  uart_in :: "byte list"
  kbd_in :: "byte list"
  kbd_shift :: uint
  in_buf :: "nat \<Rightarrow> byte"
  in_r :: uint
  in_w :: uint
  in_e :: uint
  devsw_read :: "nat \<Rightarrow> devread option"
  devsw_write :: "nat \<Rightarrow> devwrite option"

section \<open>Output\<close>

definition uartputc :: "int \<Rightarrow> ('z cons_state_scheme, unit) kern" where
  "uartputc c s = whenk (uart_on s) (modify (\<lambda>s. s\<lparr>uart_out := uart_out s @ [word_of_int c]\<rparr>)) s"

text \<open>\<open>cgaputc\<close>: the cursor register holds 16 bits.\<close>

definition cga_advance :: "int \<Rightarrow> (nat \<Rightarrow> 16 word) \<Rightarrow> int \<Rightarrow> (nat \<Rightarrow> 16 word) \<times> int" where
  "cga_advance c m pos =
     (if c = 10 then (m, pos + (80 - pos mod 80))
      else if c = BACKSPACE then (m, if pos > 0 then pos - 1 else pos)
      else (m(nat pos := word_of_int c AND 0xff OR 0x0700), pos + 1))"

definition cga_scroll :: "(nat \<Rightarrow> 16 word) \<Rightarrow> int \<Rightarrow> (nat \<Rightarrow> 16 word) \<times> int" where
  "cga_scroll m pos =
     (if pos div 80 \<ge> 24 then
        let m1 = (\<lambda>i. if i < 23 * 80 then m (i + 80) else m i); p = pos - 80 in
        (\<lambda>i. if nat p \<le> i \<and> i < 24 * 80 then 0 else m1 i, p)
      else (m, pos))"

definition cgaputc :: "int \<Rightarrow> ('z cons_state_scheme, unit) kern" where
  "cgaputc c s =
     (let (m, pos) = cga_advance c (crt s) (int (crt_pos s)) in
      if pos < 0 \<or> pos > 25 * 80 then Panic ''pos under/overflow''
      else let (m, pos) = cga_scroll m pos in
        Ret () (s\<lparr>crt := m(nat pos := 0x0720), crt_pos := nat pos mod 65536\<rparr>))"

definition consputc :: "int \<Rightarrow> ('z cons_state_scheme, unit) kern" where
  "consputc c s =
     (if panicked s then Hang
      else block [
        if c = BACKSPACE then block [uartputc 8, uartputc 32, uartputc 8] else uartputc c,
        cgaputc c] s)"

definition printint :: "uint \<Rightarrow> nat \<Rightarrow> bool \<Rightarrow> ('z cons_state_scheme, unit) kern" where
  "printint xx b signd = foreach (\<lambda>c. consputc (of_char c)) (printint_chars xx b signd)"

text \<open>The variable arguments of \<open>cprintf\<close>: a word, or a pointer to a string the caller has at hand. No caller prints
  the address of such a string.\<close>

datatype carg = Cword uint | Ctext "byte list"

fun arg_word :: "carg \<Rightarrow> uint" where
  "arg_word (Cword w) = w"
| "arg_word (Ctext _) = 0"

definition print_mem :: "uint \<Rightarrow> ('z cons_state_scheme, unit) kern" where
  "print_mem p =
     bnd (kwhile (\<lambda>p s. mem s p \<noteq> 0)
       (\<lambda>p. bnd (\<lambda>s. consputc (sint (mem s p)) s) (\<lambda>_. ret (p + 1))) p) (\<lambda>_. skip)"

fun print_arg :: "carg \<Rightarrow> ('z cons_state_scheme, unit) kern" where
  "print_arg (Ctext bs) = foreach (\<lambda>b. consputc (sint b)) (takeWhile (\<lambda>b. b \<noteq> 0) bs)"
| "print_arg (Cword w) =
     (if w = 0 then foreach (\<lambda>c. consputc (of_char c)) ''(null)'' else print_mem w)"

fun cprintf_loop :: "string \<Rightarrow> (nat \<Rightarrow> carg) \<Rightarrow> nat \<Rightarrow> ('z cons_state_scheme, unit) kern" where
  "cprintf_loop [] argp k = skip"
| "cprintf_loop (c # fmt) argp k =
     (if c \<noteq> CHR ''%'' then bnd (consputc (of_char c)) (\<lambda>_. cprintf_loop fmt argp k)
      else case fmt of
        [] \<Rightarrow> skip
      | d # fmt' \<Rightarrow>
          if d = CHR ''d'' then
            bnd (printint (arg_word (argp k)) 10 True) (\<lambda>_. cprintf_loop fmt' argp (k + 1))
          else if d = CHR ''x'' \<or> d = CHR ''p'' then
            bnd (printint (arg_word (argp k)) 16 False) (\<lambda>_. cprintf_loop fmt' argp (k + 1))
          else if d = CHR ''s'' then
            bnd (print_arg (argp k)) (\<lambda>_. cprintf_loop fmt' argp (k + 1))
          else if d = CHR ''%'' then
            bnd (consputc 37) (\<lambda>_. cprintf_loop fmt' argp k)
          else
            bnd (consputc 37) (\<lambda>_.
            bnd (consputc (of_char d)) (\<lambda>_. cprintf_loop fmt' argp k)))"

definition cprintf :: "string \<Rightarrow> (nat \<Rightarrow> carg) \<Rightarrow> ('z cons_state_scheme, unit) kern" where
  "cprintf fmt argp =
     bnd (gets cons_locking) (\<lambda>locking. block [
       whenk locking (acquire Lk_cons),
       cprintf_loop fmt argp 0,
       whenk locking (release Lk_cons)])"

text \<open>\<open>procdump\<close> with \<open>getcallerpcs\<close> of \<open>spinlock.c\<close>, which walks the saved frame pointers of a stack.\<close>

fun callerpcs :: "memory \<Rightarrow> uint \<Rightarrow> nat \<Rightarrow> uint list" where
  "callerpcs m ebp 0 = []"
| "callerpcs m ebp (Suc n) =
     (if ebp = 0 \<or> ebp < KERNBASE \<or> ebp = 0xffffffff then replicate (Suc n) 0
      else load32 m (ebp + 4) # callerpcs m (load32 m ebp) n)"

definition getcallerpcs :: "memory \<Rightarrow> uint \<Rightarrow> uint list" where
  "getcallerpcs m v = callerpcs m (v - 8) 10"

fun state_name :: "procstate \<Rightarrow> string" where
  "state_name UNUSED = ''unused''"
| "state_name EMBRYO = ''embryo''"
| "state_name SLEEPING = ''sleep ''"
| "state_name RUNNABLE = ''runble''"
| "state_name RUNNING = ''run   ''"
| "state_name ZOMBIE = ''zombie''"

definition no_args :: "nat \<Rightarrow> carg" where
  "no_args _ = Cword 0"

definition procdump_one :: "nat \<Rightarrow> ('z cons_state_scheme, unit) kern" where
  "procdump_one i s = (let p = procs s i in
     whenk (p_state p \<noteq> UNUSED) (block [
       cprintf ''%d %s %s'' (no_args(0 := Cword (p_pid p), 1 := Ctext (map of_char (state_name (p_state p))),
         2 := Ctext (p_name p))),
       \<lambda>s. whenk (p_state p = SLEEPING)
         (foreach (\<lambda>pc. cprintf '' %p'' (no_args(0 := Cword pc)))
           (takeWhile (\<lambda>pc. pc \<noteq> 0) (getcallerpcs (mem s) (load32 (mem s) (p_context p + 12) + 8)))) s,
       cprintf [CHR 0x0A] no_args]) s)"

definition procdump :: "('z cons_state_scheme, unit) kern" where
  "procdump = foreach procdump_one [0..<NPROC]"

section \<open>The keyboard and the serial line\<close>

definition SHIFT :: uint where "SHIFT = 1"
definition CTL :: uint where "CTL = 2"
definition ALT :: uint where "ALT = 4"
definition CAPSLOCK :: uint where "CAPSLOCK = 8"
definition NUMLOCK :: uint where "NUMLOCK = 16"
definition SCROLLLOCK :: uint where "SCROLLLOCK = 32"
definition E0ESC :: uint where "E0ESC = 64"

definition kbd_table :: "uint list \<Rightarrow> (uint \<times> uint) list \<Rightarrow> uint \<Rightarrow> uint" where
  "kbd_table front sparse i =
     (case map_of sparse i of
        Some c \<Rightarrow> c
      | None \<Rightarrow> if unat i < length front then front ! unat i else 0)"

definition shiftcode :: "uint \<Rightarrow> uint" where
  "shiftcode = kbd_table [] [(0x1D, CTL), (0x2A, SHIFT), (0x36, SHIFT), (0x38, ALT), (0x9D, CTL), (0xB8, ALT)]"

definition togglecode :: "uint \<Rightarrow> uint" where
  "togglecode = kbd_table [] [(0x3A, CAPSLOCK), (0x45, NUMLOCK), (0x46, SCROLLLOCK)]"

definition normalmap :: "uint \<Rightarrow> uint" where
  "normalmap = kbd_table
     [0, 27, 49, 50, 51, 52, 53, 54,
      55, 56, 57, 48, 45, 61, 8, 9,
      113, 119, 101, 114, 116, 121, 117, 105,
      111, 112, 91, 93, 10, 0, 97, 115,
      100, 102, 103, 104, 106, 107, 108, 59,
      39, 96, 0, 92, 122, 120, 99, 118,
      98, 110, 109, 44, 46, 47, 0, 42,
      0, 32, 0, 0, 0, 0, 0, 0,
      0, 0, 0, 0, 0, 0, 0, 55,
      56, 57, 45, 52, 53, 54, 43, 49,
      50, 51, 48, 46, 0, 0, 0, 0]
     [(156, 10), (181, 47), (200, 226), (208, 227), (201, 230), (209, 231),
      (203, 228), (205, 229), (151, 224), (207, 225), (210, 232), (211, 233)]"

definition shiftmap :: "uint \<Rightarrow> uint" where
  "shiftmap = kbd_table
     [0, 27, 33, 64, 35, 36, 37, 94,
      38, 42, 40, 41, 95, 43, 8, 9,
      81, 87, 69, 82, 84, 89, 85, 73,
      79, 80, 123, 125, 10, 0, 65, 83,
      68, 70, 71, 72, 74, 75, 76, 58,
      34, 126, 0, 124, 90, 88, 67, 86,
      66, 78, 77, 60, 62, 63, 0, 42,
      0, 32, 0, 0, 0, 0, 0, 0,
      0, 0, 0, 0, 0, 0, 0, 55,
      56, 57, 45, 52, 53, 54, 43, 49,
      50, 51, 48, 46, 0, 0, 0, 0]
     [(156, 10), (181, 47), (200, 226), (208, 227), (201, 230), (209, 231),
      (203, 228), (205, 229), (151, 224), (207, 225), (210, 232), (211, 233)]"

definition ctlmap :: "uint \<Rightarrow> uint" where
  "ctlmap = kbd_table
     [0, 0, 0, 0, 0, 0, 0, 0,
      0, 0, 0, 0, 0, 0, 0, 0,
      17, 23, 5, 18, 20, 25, 21, 9,
      15, 16, 0, 0, 13, 0, 1, 19,
      4, 6, 7, 8, 10, 11, 12, 0,
      0, 0, 0, 28, 26, 24, 3, 22,
      2, 14, 13, 0, 0, 239, 0, 0]
     [(156, 13), (181, 239), (200, 226), (208, 227), (201, 230), (209, 231),
      (203, 228), (205, 229), (151, 224), (207, 225), (210, 232), (211, 233)]"

definition charcode :: "uint \<Rightarrow> uint \<Rightarrow> uint" where
  "charcode k = (if k = 0 then normalmap else if k = SHIFT then shiftmap else ctlmap)"

text \<open>\<open>kbdgetc\<close> on the byte the controller delivers: the new \<open>shift\<close> and the result.\<close>

definition kbd_decode :: "uint \<Rightarrow> uint \<Rightarrow> uint \<times> uint" where
  "kbd_decode shift data =
     (if data = 0xE0 then (shift OR E0ESC, 0)
      else if data AND 0x80 \<noteq> 0 then
        let data = (if shift AND E0ESC \<noteq> 0 then data else data AND 0x7F) in
        (shift AND NOT (shiftcode data OR E0ESC), 0)
      else
        let (data, shift) = (if shift AND E0ESC \<noteq> 0 then (data OR 0x80, shift AND NOT E0ESC) else (data, shift));
            shift = shift OR shiftcode data;
            shift = shift XOR togglecode data;
            c = charcode (shift AND (CTL OR SHIFT)) data;
            c = (if shift AND CAPSLOCK \<noteq> 0 then
                   if 97 \<le> c \<and> c \<le> 122 then c + (65 - 97)
                   else if 65 \<le> c \<and> c \<le> 90 then c + (97 - 65) else c
                 else c)
        in (shift, c))"

definition kbdgetc :: "('z cons_state_scheme, int) kern" where
  "kbdgetc s =
     (case kbd_in s of
        [] \<Rightarrow> Ret (-1) s
      | data # rest \<Rightarrow>
          let (shift, c) = kbd_decode (kbd_shift s) (ucast data) in
          Ret (sint c) (s\<lparr>kbd_in := rest, kbd_shift := shift\<rparr>))"

definition uartgetc :: "('z cons_state_scheme, int) kern" where
  "uartgetc s =
     (if \<not> uart_on s then Ret (-1) s
      else case uart_in s of [] \<Rightarrow> Ret (-1) s | c # rest \<Rightarrow> Ret (uint c) (s\<lparr>uart_in := rest\<rparr>))"

section \<open>Input\<close>

definition in_at :: "'z cons_state_scheme \<Rightarrow> uint \<Rightarrow> byte" where
  "in_at s i = in_buf s (unat i mod INPUT_BUF)"

text \<open>\<open>C('U')\<close>: erase back to the start of the line.\<close>

definition kill_line :: "('z cons_state_scheme, unit) kern" where
  "kill_line =
     kwhile (\<lambda>_ s. in_e s \<noteq> in_w s \<and> in_at s (in_e s - 1) \<noteq> 10)
       (\<lambda>_. block [modify (\<lambda>s. s\<lparr>in_e := in_e s - 1\<rparr>), consputc BACKSPACE]) ()"

definition input_char :: "int \<Rightarrow> ('z cons_state_scheme, unit) kern" where
  "input_char c s = whenk (c \<noteq> 0 \<and> unat (in_e s - in_r s) < INPUT_BUF) (
     let c = (if c = 13 then 10 else c) in block [
       modify (\<lambda>s. s\<lparr>in_buf := (in_buf s)(unat (in_e s) mod INPUT_BUF := word_of_int c), in_e := in_e s + 1\<rparr>),
       consputc c,
       \<lambda>s. whenk (c = 10 \<or> c = 4 \<or> in_e s = in_r s + of_nat INPUT_BUF) (block [
         modify (\<lambda>s. s\<lparr>in_w := in_e s\<rparr>),
         wakeup Ch_input]) s]) s"

text \<open>One turn of the loop of \<open>consoleintr\<close>, on character \<open>c\<close>.\<close>

definition consoleintr_char :: "int \<Rightarrow> ('z cons_state_scheme, unit) kern" where
  "consoleintr_char c =
     (if c = 16 then skip
      else if c = 21 then kill_line
      else if c = 8 \<or> c = 127 then
        (\<lambda>s. whenk (in_e s \<noteq> in_w s) (block [modify (\<lambda>s. s\<lparr>in_e := in_e s - 1\<rparr>), consputc BACKSPACE]) s)
      else input_char c)"

text \<open>The loop carries the last character read and \<open>doprocdump\<close>.\<close>

definition consoleintr :: "('z cons_state_scheme, int) kern \<Rightarrow> ('z cons_state_scheme, unit) kern" where
  "consoleintr getc =
     bnd (acquire Lk_cons) (\<lambda>_.
     bnd getc (\<lambda>c0.
     bnd (kwhile (\<lambda>(c, _) _. c \<ge> 0)
       (\<lambda>(c, doprocdump). bnd (consoleintr_char c) (\<lambda>_. bnd getc (\<lambda>c'. ret (c', doprocdump \<or> c = 16))))
       (c0, False)) (\<lambda>(_, doprocdump).
     bnd (release Lk_cons) (\<lambda>_.
     whenk doprocdump procdump))))"

definition kbdintr :: "('z cons_state_scheme, unit) kern" where
  "kbdintr = consoleintr kbdgetc"

definition uartintr :: "('z cons_state_scheme, unit) kern" where
  "uartintr = consoleintr uartgetc"

text \<open>\<open>consoleread\<close>: the loop, with \<open>cons.lock\<close> held, \<open>n\<close> bytes still wanted and \<open>acc\<close> already delivered at
  \<open>dst\<close>. The result is the return value with the bytes delivered. A reader that slept goes on with
  \<open>consoleread_resume\<close>.\<close>

definition consoleread_done :: "nat \<Rightarrow> byte list \<Rightarrow> ('z cons_state_scheme, int \<times> byte list) kern" where
  "consoleread_done ip acc =
     bnd (release Lk_cons) (\<lambda>_.
     bnd (ilock ip) (\<lambda>_.
     ret (int (length acc), acc)))"

fun consoleread_loop :: "nat \<Rightarrow> nat \<Rightarrow> byte list \<Rightarrow> ('z cons_state_scheme, int \<times> byte list) kern" where
  "consoleread_loop ip 0 acc = consoleread_done ip acc"
| "consoleread_loop ip (Suc n) acc =
     bnd myproc (\<lambda>p.
     bnd (gets (\<lambda>s. in_r s = in_w s)) (\<lambda>empty.
     if empty then
       bnd (gets (\<lambda>s. p_killed (procs s p))) (\<lambda>killed.
       if killed then
         bnd (release Lk_cons) (\<lambda>_.
         bnd (ilock ip) (\<lambda>_.
         ret (-1, acc)))
       else sleep Ch_input (Some Lk_cons))
     else
       bnd (gets (\<lambda>s. in_at s (in_r s))) (\<lambda>c.
       bnd (modify (\<lambda>s. s\<lparr>in_r := in_r s + 1\<rparr>)) (\<lambda>_.
       if c = 4 then
         bnd (whenk (acc \<noteq> []) (modify (\<lambda>s. s\<lparr>in_r := in_r s - 1\<rparr>))) (\<lambda>_.
         consoleread_done ip acc)
       else if c = 10 then consoleread_done ip (acc @ [c])
       else consoleread_loop ip n (acc @ [c])))))"

definition consoleread :: "nat \<Rightarrow> int \<Rightarrow> ('z cons_state_scheme, int \<times> byte list) kern" where
  "consoleread ip n =
     bnd (iunlock ip) (\<lambda>_.
     bnd (acquire Lk_cons) (\<lambda>_.
     consoleread_loop ip (nat n) []))"

definition consoleread_resume :: "bool \<Rightarrow> nat \<Rightarrow> nat \<Rightarrow> byte list \<Rightarrow> ('z cons_state_scheme, int \<times> byte list) kern" where
  "consoleread_resume v ip n acc = bnd (sleep_resume v Lk_cons) (\<lambda>_. consoleread_loop ip n acc)"

definition consolewrite :: "nat \<Rightarrow> byte list \<Rightarrow> int \<Rightarrow> ('z cons_state_scheme, int) kern" where
  "consolewrite ip buf n =
     bnd (iunlock ip) (\<lambda>_.
     bnd (acquire Lk_cons) (\<lambda>_.
     bnd (foreach (\<lambda>i. consputc (uint (buf ! i))) [0..<nat n]) (\<lambda>_.
     bnd (release Lk_cons) (\<lambda>_.
     bnd (ilock ip) (\<lambda>_.
     ret n)))))"

text \<open>The interrupt controllers \<open>consoleinit\<close> programs are not part of the state.\<close>

definition consoleinit :: "('z cons_state_scheme, unit) kern" where
  "consoleinit = block [
     initlock Lk_cons,
     modify (\<lambda>s. s\<lparr>devsw_write := (devsw_write s)(CONSOLE := Some Dev_consolewrite)\<rparr>),
     modify (\<lambda>s. s\<lparr>devsw_read := (devsw_read s)(CONSOLE := Some Dev_consoleread)\<rparr>),
     modify (\<lambda>s. s\<lparr>cons_locking := True\<rparr>)]"

section \<open>A console\<close>

definition cons_demo :: cons_state where
  "cons_demo = icache_state.extend (icache_demo (\<lambda>_. replicate BSIZE 0))
     \<lparr>panicked = False, cons_locking = True, crt = (\<lambda>_. 0), crt_pos = 0, uart_on = True, uart_out = [], uart_in = [],
      kbd_in = [], kbd_shift = 0, in_buf = (\<lambda>_. 0), in_r = 0, in_w = 0, in_e = 0, devsw_read = (\<lambda>_. None),
      devsw_write = (\<lambda>_. None)\<rparr>"

lemmas cons_demo_defs = cons_demo_def icache_demo_defs icache_state.defs

end
