(* ===== verification/Fsio.thy ===== *)
theory Fsio
  imports Console
begin

text \<open>
  File contents, directories and path names (\<open>fs.c\<close>, from \<open>readi\<close> on).

  A read returns, next to the C result, the bytes it puts at \<open>dst\<close>; a write takes the bytes at \<open>src\<close>. A path or
  a name is the list of its bytes up to the terminating NUL; \<open>cstr\<close> puts the NUL back. A null inode pointer is
  \<open>None\<close>.
\<close>

definition DIRSIZ :: nat where "DIRSIZ = 14"
definition ROOTINO :: uint where "ROOTINO = 1"

definition cstr :: "byte list \<Rightarrow> nat \<Rightarrow> byte" where
  "cstr l i = (if i < length l then l ! i else 0)"

text \<open>\<open>iinit\<close>.\<close>

definition iinit :: "uint \<Rightarrow> ('z cons_state_scheme, unit) kern" where
  "iinit dev =
     bnd (initlock Lk_icache) (\<lambda>_.
     bnd (readsb dev) (\<lambda>sb. block [
       modify (\<lambda>s. s\<lparr>fs_sb := sb\<rparr>),
       cprintf (''sb: size %d nblocks %d ninodes %d nlog %d logstart %d          inodestart %d bmap start %d'' @ [CHR 0x0A])
         (no_args(0 := Cword (sb_size sb), 1 := Cword (sb_nblocks sb), 2 := Cword (sb_ninodes sb),
           3 := Cword (sb_nlog sb), 4 := Cword (sb_logstart sb), 5 := Cword (sb_inodestart sb),
           6 := Cword (sb_bmapstart sb)))]))"

section \<open>File contents\<close>

text \<open>The loop of \<open>readi\<close> carries \<open>tot\<close>, \<open>off\<close> and the bytes copied so far.\<close>

definition readi_step :: "nat \<Rightarrow> uint \<Rightarrow> uint \<times> uint \<times> byte list \<Rightarrow>
    ('z icache_state_scheme, uint \<times> uint \<times> byte list) kern" where
  "readi_step ip n = (\<lambda>(tot, off, acc).
     bnd (bmap ip (off div of_nat BSIZE)) (\<lambda>addr.
     bnd (\<lambda>s. bread (i_dev (inodes s ip)) addr s) (\<lambda>bp.
     let m = min (n - tot) (of_nat BSIZE - off mod of_nat BSIZE) in
     bnd (gets (\<lambda>s. take (unat m) (drop (unat (off mod of_nat BSIZE)) (bcontents s bp)))) (\<lambda>bs.
     bnd (brelse bp) (\<lambda>_.
     ret (tot + m, off + m, acc @ bs))))))"

definition readi :: "nat \<Rightarrow> uint \<Rightarrow> uint \<Rightarrow> ('z cons_state_scheme, int \<times> byte list) kern" where
  "readi ip off n s =
     (let r = inodes s ip in
      if i_type r = T_DEV then
        (if sint (i_major r) < 0 \<or> sint (i_major r) \<ge> int NDEV then Ret (-1, []) s
         else case devsw_read s (unat (i_major r)) of
           None \<Rightarrow> Ret (-1, []) s
         | Some Dev_consoleread \<Rightarrow> consoleread ip (sint n) s)
      else if off > i_size r \<or> off + n < off then Ret (-1, []) s
      else let n = (if off + n > i_size r then i_size r - off else n) in
        bnd (kwhile (\<lambda>(tot, _, _) _. tot < n) (readi_step ip n) (0, off, [])) (\<lambda>(_, _, acc).
        ret (sint n, acc)) s)"

definition writei_step :: "nat \<Rightarrow> byte list \<Rightarrow> uint \<Rightarrow> uint \<times> uint \<Rightarrow>
    ('z icache_state_scheme, uint \<times> uint) kern" where
  "writei_step ip src n = (\<lambda>(tot, off).
     bnd (bmap ip (off div of_nat BSIZE)) (\<lambda>addr.
     bnd (\<lambda>s. bread (i_dev (inodes s ip)) addr s) (\<lambda>bp.
     let m = min (n - tot) (of_nat BSIZE - off mod of_nat BSIZE) in
     bnd (\<lambda>s. bput bp (splice (bcontents s bp) (unat (off mod of_nat BSIZE))
       (take (unat m) (drop (unat tot) src))) s) (\<lambda>_.
     bnd (log_write bp) (\<lambda>_.
     bnd (brelse bp) (\<lambda>_.
     ret (tot + m, off + m)))))))"

definition writei :: "nat \<Rightarrow> byte list \<Rightarrow> uint \<Rightarrow> uint \<Rightarrow> ('z cons_state_scheme, int) kern" where
  "writei ip src off n s =
     (let r = inodes s ip in
      if i_type r = T_DEV then
        (if sint (i_major r) < 0 \<or> sint (i_major r) \<ge> int NDEV then Ret (-1) s
         else case devsw_write s (unat (i_major r)) of
           None \<Rightarrow> Ret (-1) s
         | Some Dev_consolewrite \<Rightarrow> consolewrite ip src (sint n) s)
      else if off > i_size r \<or> off + n < off then Ret (-1) s
      else if off + n > of_nat (MAXFILE * BSIZE) then Ret (-1) s
      else
        bnd (kwhile (\<lambda>(tot, _) _. tot < n) (writei_step ip src n) (0, off)) (\<lambda>(_, off).
        bnd (\<lambda>s. whenk (n > 0 \<and> off > i_size (inodes s ip)) (block [
          upd_inode ip (\<lambda>r. r\<lparr>i_size := off\<rparr>),
          iupdate ip]) s) (\<lambda>_.
        ret (sint n))) s)"

section \<open>Directories\<close>

text \<open>\<open>struct dirent\<close>: 16 bytes, the inode number and the name.\<close>

definition de_inum :: "byte list \<Rightarrow> uint" where
  "de_inum de = ucast (rd16 de 0)"

definition de_name :: "byte list \<Rightarrow> byte list" where
  "de_name de = take DIRSIZ (drop 2 de)"

definition enc_dirent :: "uint \<Rightarrow> byte list \<Rightarrow> byte list" where
  "enc_dirent inum name = le16 (ucast inum) @ strncpy_bytes (cstr name) DIRSIZ"

definition namecmp :: "byte list \<Rightarrow> byte list \<Rightarrow> int" where
  "namecmp s t = strncmp (cstr s) (cstr t) DIRSIZ"

text \<open>The loop over the entries, \<open>off\<close> advancing by 16; the result of \<open>dirlookup\<close> comes with the offset it stores
  through \<open>poff\<close>.\<close>

definition dirlookup_step :: "nat \<Rightarrow> byte list \<Rightarrow> uint \<times> (nat \<times> uint) option \<Rightarrow>
    ('z cons_state_scheme, uint \<times> (nat \<times> uint) option) kern" where
  "dirlookup_step dp name = (\<lambda>(off, _).
     bnd (readi dp off 16) (\<lambda>(r, de).
     bnd (whenk (r \<noteq> 16) (kpanic ''dirlink read'')) (\<lambda>_.
     if de_inum de = 0 then ret (off + 16, None)
     else if namecmp name (de_name de) = 0 then
       bnd (\<lambda>s. iget (i_dev (inodes s dp)) (de_inum de) s) (\<lambda>ip.
       ret (off, Some (ip, off)))
     else ret (off + 16, None))))"

definition dirlookup :: "nat \<Rightarrow> byte list \<Rightarrow> ('z cons_state_scheme, (nat \<times> uint) option) kern" where
  "dirlookup dp name =
     bnd (\<lambda>s. whenk (i_type (inodes s dp) \<noteq> T_DIR) (kpanic ''dirlookup not DIR'') s) (\<lambda>_.
     bnd (kwhile (\<lambda>(off, found) s. found = None \<and> off < i_size (inodes s dp)) (dirlookup_step dp name) (0, None))
       (\<lambda>(_, found).
     ret found))"

text \<open>The search of \<open>dirlink\<close> for an empty entry: its offset, or the size of the directory.\<close>

definition dirlink_step :: "nat \<Rightarrow> uint \<times> bool \<Rightarrow> ('z cons_state_scheme, uint \<times> bool) kern" where
  "dirlink_step dp = (\<lambda>(off, _).
     bnd (readi dp off 16) (\<lambda>(r, de).
     bnd (whenk (r \<noteq> 16) (kpanic ''dirlink read'')) (\<lambda>_.
     ret (if de_inum de = 0 then (off, True) else (off + 16, False)))))"

definition dirlink :: "nat \<Rightarrow> byte list \<Rightarrow> uint \<Rightarrow> ('z cons_state_scheme, int) kern" where
  "dirlink dp name inum =
     bnd (dirlookup dp name) (\<lambda>found.
     case found of
       Some (ip, _) \<Rightarrow> bnd (iput ip) (\<lambda>_. ret (-1))
     | None \<Rightarrow>
         bnd (kwhile (\<lambda>(off, brk) s. \<not> brk \<and> off < i_size (inodes s dp)) (dirlink_step dp) (0, False)) (\<lambda>(off, _).
         bnd (writei dp (enc_dirent inum name) off 16) (\<lambda>w.
         bnd (whenk (w \<noteq> 16) (kpanic ''dirlink'')) (\<lambda>_.
         ret 0))))"

section \<open>Paths\<close>

abbreviation slash :: byte where "slash \<equiv> 47"

text \<open>\<open>skipelem\<close>: the rest of the path and the new contents of the array \<open>name\<close>, or \<open>None\<close>.\<close>

definition skipelem :: "byte list \<Rightarrow> byte list \<Rightarrow> (byte list \<times> byte list) option" where
  "skipelem path name =
     (let s = dropWhile (\<lambda>c. c = slash) path in
      if s = [] then None
      else let e = takeWhile (\<lambda>c. c \<noteq> slash) s;
               name' = (if length e \<ge> DIRSIZ then take DIRSIZ e else e @ [0] @ drop (length e + 1) name)
           in Some (dropWhile (\<lambda>c. c = slash) (dropWhile (\<lambda>c. c \<noteq> slash) s), name'))"

lemma skipelem_shorter: "skipelem path name = Some (rest, name') \<Longrightarrow> length rest < length path"
proof -
  assume "skipelem path name = Some (rest, name')"
  then have ne: "dropWhile (\<lambda>c. c = slash) path \<noteq> []"
    and r: "rest = dropWhile (\<lambda>c. c = slash) (dropWhile (\<lambda>c. c \<noteq> slash) (dropWhile (\<lambda>c. c = slash) path))"
    by (auto simp: skipelem_def Let_def split: if_splits)
  then obtain c cs where c: "dropWhile (\<lambda>c. c = slash) path = c # cs" "c \<noteq> slash"
    using hd_dropWhile [OF ne] by (cases "dropWhile (\<lambda>c. c = slash) path") auto
  have "length rest \<le> length cs"
    unfolding r using c length_dropWhile_le [of "\<lambda>c. c = slash" "dropWhile (\<lambda>c. c \<noteq> slash) cs"]
      length_dropWhile_le [of "\<lambda>c. c \<noteq> slash" cs] by simp
  also have "\<dots> < length path" using c(1) length_dropWhile_le [of "\<lambda>c. c = slash" path] by simp
  finally show ?thesis .
qed

text \<open>The loop of \<open>namex\<close>, at inode \<open>ip\<close>. Its result is the inode and the contents of \<open>name\<close>.\<close>

function namex_loop :: "bool \<Rightarrow> byte list \<Rightarrow> byte list \<Rightarrow> nat \<Rightarrow>
    ('z cons_state_scheme, nat option \<times> byte list) kern" where
  "namex_loop parent path name ip =
     (case skipelem path name of
        None \<Rightarrow>
          if parent then bnd (iput ip) (\<lambda>_. ret (None, name))
          else ret (Some ip, name)
      | Some (path', name') \<Rightarrow>
          bnd (ilock ip) (\<lambda>_.
          bnd (gets (\<lambda>s. i_type (inodes s ip))) (\<lambda>ty.
          if ty \<noteq> T_DIR then bnd (iunlockput ip) (\<lambda>_. ret (None, name'))
          else if parent \<and> path' = [] then bnd (iunlock ip) (\<lambda>_. ret (Some ip, name'))
          else
            bnd (dirlookup ip name') (\<lambda>found.
            case found of
              None \<Rightarrow> bnd (iunlockput ip) (\<lambda>_. ret (None, name'))
            | Some (nxt, _) \<Rightarrow> bnd (iunlockput ip) (\<lambda>_. namex_loop parent path' name' nxt)))))"
  by pat_completeness auto
termination
  by (relation "measure (\<lambda>(_, path, _, _). length path)") (auto dest: skipelem_shorter)

declare namex_loop.simps [simp del]

text \<open>The array \<open>name\<close> starts out uninitialised: its contents are an argument. A process without a current
  directory makes \<open>idup\<close> fault.\<close>

definition namex :: "byte list \<Rightarrow> bool \<Rightarrow> byte list \<Rightarrow> ('z cons_state_scheme, nat option \<times> byte list) kern" where
  "namex path parent name =
     bnd (if path \<noteq> [] \<and> hd path = slash then iget ROOTDEV ROOTINO
          else bnd myproc (\<lambda>p.
               bnd (gets (\<lambda>s. p_cwd (procs s p))) (\<lambda>cwd.
               case cwd of None \<Rightarrow> kpanic ''trap'' | Some ip \<Rightarrow> idup ip))) (\<lambda>ip.
     namex_loop parent path name ip)"

definition namei :: "byte list \<Rightarrow> ('z cons_state_scheme, nat option) kern" where
  "namei path = bnd (namex path False (replicate DIRSIZ 0)) (\<lambda>(ip, _). ret ip)"

definition nameiparent :: "byte list \<Rightarrow> byte list \<Rightarrow> ('z cons_state_scheme, nat option \<times> byte list) kern" where
  "nameiparent path name = namex path True name"

end
