(* ===== verification/Pipe.thy ===== *)
theory Pipe
  imports Fsio
begin

text \<open>
  Pipes (\<open>pipe.c\<close>): a ring of \<open>PIPESIZE\<close> bytes between a writer and a reader. A pipe is named by the address of
  the page \<open>pipealloc\<close> got for it. As for files, a read returns the bytes it delivers and a write takes the bytes
  it is given. The state also holds the file table of \<open>file.c\<close>.
\<close>

section \<open>State\<close>

definition PIPESIZE :: nat where "PIPESIZE = 512"
definition NFILE :: nat where "NFILE = 100"

record pipe =
  pp_data :: "nat \<Rightarrow> byte"
  nread :: uint
  nwrite :: uint
  readopen :: bool
  writeopen :: bool

datatype ftype = FD_NONE | FD_PIPE | FD_INODE

record file_t =
  f_type :: ftype
  f_ref :: int
  f_readable :: bool
  f_writable :: bool
  f_pipe :: uint
  f_ip :: nat
  f_off :: uint

record file_state = cons_state +
  files :: "nat \<Rightarrow> file_t"
  pipes :: "uint \<Rightarrow> pipe"

definition upd_pipe :: "uint \<Rightarrow> (pipe \<Rightarrow> pipe) \<Rightarrow> ('z file_state_scheme, unit) kern" where
  "upd_pipe p f = modify (\<lambda>s. s\<lparr>pipes := (pipes s)(p := f (pipes s p))\<rparr>)"

section \<open>Operations\<close>

definition pipeclose :: "uint \<Rightarrow> bool \<Rightarrow> ('z file_state_scheme, unit) kern" where
  "pipeclose p writable = block [
     acquire (Lk_pipe p),
     if writable then block [upd_pipe p (\<lambda>r. r\<lparr>writeopen := False\<rparr>), wakeup (Ch_nread p)]
     else block [upd_pipe p (\<lambda>r. r\<lparr>readopen := False\<rparr>), wakeup (Ch_nwrite p)],
     \<lambda>s. (if \<not> readopen (pipes s p) \<and> \<not> writeopen (pipes s p)
          then block [release (Lk_pipe p), kfree p]
          else release (Lk_pipe p)) s]"

definition pipe_full :: "pipe \<Rightarrow> bool" where
  "pipe_full r \<longleftrightarrow> nwrite r = nread r + of_nat PIPESIZE"

definition pipe_put :: "byte \<Rightarrow> pipe \<Rightarrow> pipe" where
  "pipe_put c r = r\<lparr>pp_data := (pp_data r)(unat (nwrite r) mod PIPESIZE := c), nwrite := nwrite r + 1\<rparr>"

definition pipe_front :: "pipe \<Rightarrow> byte" where
  "pipe_front r = pp_data r (unat (nread r) mod PIPESIZE)"

definition pipe_take :: "pipe \<Rightarrow> pipe" where
  "pipe_take r = r\<lparr>nread := nread r + 1\<rparr>"

text \<open>\<open>pipewrite\<close>: the loop, with the pipe's lock held and the bytes \<open>addr[i..]\<close> still to write. A writer that slept
  because the pipe was full goes on with \<open>pipewrite_resume\<close>.\<close>

fun pipewrite_loop :: "uint \<Rightarrow> int \<Rightarrow> byte list \<Rightarrow> ('z file_state_scheme, int) kern" where
  "pipewrite_loop p n [] =
     bnd (wakeup (Ch_nread p)) (\<lambda>_.
     bnd (release (Lk_pipe p)) (\<lambda>_.
     ret n))"
| "pipewrite_loop p n (c # cs) =
     bnd (gets (\<lambda>s. pipe_full (pipes s p))) (\<lambda>full.
     if full then
       bnd myproc (\<lambda>q.
       bnd (gets (\<lambda>s. \<not> readopen (pipes s p) \<or> p_killed (procs s q))) (\<lambda>dead.
       if dead then bnd (release (Lk_pipe p)) (\<lambda>_. ret (-1))
       else bnd (wakeup (Ch_nread p)) (\<lambda>_. sleep (Ch_nwrite p) (Some (Lk_pipe p)))))
     else
       bnd (upd_pipe p (pipe_put c)) (\<lambda>_.
       pipewrite_loop p n cs))"

definition pipewrite :: "uint \<Rightarrow> byte list \<Rightarrow> int \<Rightarrow> ('z file_state_scheme, int) kern" where
  "pipewrite p addr n =
     bnd (acquire (Lk_pipe p)) (\<lambda>_.
     pipewrite_loop p n (take (nat n) addr))"

definition pipewrite_resume :: "bool \<Rightarrow> uint \<Rightarrow> int \<Rightarrow> byte list \<Rightarrow> ('z file_state_scheme, int) kern" where
  "pipewrite_resume v p n cs = bnd (sleep_resume v (Lk_pipe p)) (\<lambda>_. pipewrite_loop p n cs)"

text \<open>\<open>piperead\<close>: the wait for data, with the lock held, then the copy of at most \<open>k\<close> bytes.\<close>

fun piperead_copy :: "uint \<Rightarrow> nat \<Rightarrow> byte list \<Rightarrow> ('z file_state_scheme, byte list) kern" where
  "piperead_copy p 0 acc = ret acc"
| "piperead_copy p (Suc k) acc =
     bnd (gets (\<lambda>s. nread (pipes s p) = nwrite (pipes s p))) (\<lambda>empty.
     if empty then ret acc
     else
       bnd (gets (\<lambda>s. pipe_front (pipes s p))) (\<lambda>c.
       bnd (upd_pipe p pipe_take) (\<lambda>_.
       piperead_copy p k (acc @ [c]))))"

definition piperead_loop :: "uint \<Rightarrow> int \<Rightarrow> ('z file_state_scheme, int \<times> byte list) kern" where
  "piperead_loop p n s =
     (if nread (pipes s p) = nwrite (pipes s p) \<and> writeopen (pipes s p) then
        bnd myproc (\<lambda>q.
        bnd (gets (\<lambda>s. p_killed (procs s q))) (\<lambda>killed.
        if killed then bnd (release (Lk_pipe p)) (\<lambda>_. ret (-1, []))
        else sleep (Ch_nread p) (Some (Lk_pipe p)))) s
      else
        bnd (piperead_copy p (nat n) []) (\<lambda>acc.
        bnd (wakeup (Ch_nwrite p)) (\<lambda>_.
        bnd (release (Lk_pipe p)) (\<lambda>_.
        ret (int (length acc), acc)))) s)"

definition piperead :: "uint \<Rightarrow> int \<Rightarrow> ('z file_state_scheme, int \<times> byte list) kern" where
  "piperead p n = bnd (acquire (Lk_pipe p)) (\<lambda>_. piperead_loop p n)"

definition piperead_resume :: "bool \<Rightarrow> uint \<Rightarrow> int \<Rightarrow> ('z file_state_scheme, int \<times> byte list) kern" where
  "piperead_resume v p n = bnd (sleep_resume v (Lk_pipe p)) (\<lambda>_. piperead_loop p n)"

section \<open>The ring is a queue\<close>

text \<open>
  What the two ends of a pipe rely on: a bounded queue of bytes. \<open>items\<close> is its contents, oldest first.
\<close>

locale bounded_queue =
  fixes put :: "'a \<Rightarrow> 'q \<Rightarrow> 'q"
    and front :: "'q \<Rightarrow> 'a"
    and take1 :: "'q \<Rightarrow> 'q"
    and full :: "'q \<Rightarrow> bool"
    and empty :: "'q \<Rightarrow> bool"
    and items :: "'q \<Rightarrow> 'a list"
    and inv :: "'q \<Rightarrow> bool"
    and cap :: nat
  assumes full_iff: "inv q \<Longrightarrow> full q \<longleftrightarrow> length (items q) = cap"
    and empty_iff: "inv q \<Longrightarrow> empty q \<longleftrightarrow> items q = []"
    and items_le: "inv q \<Longrightarrow> length (items q) \<le> cap"
    and put_law: "inv q \<Longrightarrow> \<not> full q \<Longrightarrow> inv (put x q) \<and> items (put x q) = items q @ [x]"
    and take_law: "inv q \<Longrightarrow> \<not> empty q \<Longrightarrow> inv (take1 q) \<and> items q = front q # items (take1 q)"
begin

lemma put_all:
  "inv q \<Longrightarrow> length (items q) + length xs \<le> cap \<Longrightarrow>
   inv (fold put xs q) \<and> items (fold put xs q) = items q @ xs"
proof (induction xs arbitrary: q)
  case (Cons x xs)
  then have "\<not> full q" using full_iff by auto
  then show ?case using Cons.IH [of "put x q"] Cons.prems put_law [of q x] by simp
qed simp

end

definition pipe_bytes :: "pipe \<Rightarrow> byte list" where
  "pipe_bytes r = map (\<lambda>i. pp_data r ((unat (nread r) + i) mod PIPESIZE)) [0..<unat (nwrite r - nread r)]"

definition pipe_inv :: "pipe \<Rightarrow> bool" where
  "pipe_inv r \<longleftrightarrow> unat (nwrite r - nread r) \<le> PIPESIZE"

lemma length_pipe_bytes [simp]: "length (pipe_bytes r) = unat (nwrite r - nread r)"
  by (simp add: pipe_bytes_def)

lemma unat_incr: "unat (x :: uint) < 2 ^ 32 - 1 \<Longrightarrow> unat (x + 1) = Suc (unat x)"
  by (simp add: unat_word_ariths)

text \<open>The counters run modulo \<open>2 ^ 32\<close>, a multiple of \<open>PIPESIZE\<close>.\<close>

lemma ring_index: "unat (a + of_nat i :: uint) mod PIPESIZE = (unat a + i) mod PIPESIZE"
proof -
  have "unat (a + of_nat i) = (unat a + i) mod 2 ^ 32" by (simp add: unat_word_ariths unat_of_nat mod_simps)
  moreover have "(PIPESIZE :: nat) dvd 2 ^ 32" by (simp add: PIPESIZE_def)
  ultimately show ?thesis by (simp add: mod_mod_cancel)
qed

lemma pipe_full_iff: "pipe_full r \<longleftrightarrow> unat (nwrite r - nread r) = PIPESIZE"
proof -
  have "pipe_full r \<longleftrightarrow> nwrite r - nread r = of_nat PIPESIZE"
    by (auto simp: pipe_full_def algebra_simps)
  also have "\<dots> \<longleftrightarrow> unat (nwrite r - nread r) = PIPESIZE"
    by (simp add: word_unat_eq_iff PIPESIZE_def)
  finally show ?thesis .
qed

lemma pipe_put_bytes:
  assumes "pipe_inv r" and "\<not> pipe_full r"
  shows "pipe_inv (pipe_put c r)" and "pipe_bytes (pipe_put c r) = pipe_bytes r @ [c]"
proof -
  let ?n = "unat (nwrite r - nread r)"
  have lt: "?n < PIPESIZE" using assms by (simp add: pipe_inv_def pipe_full_iff)
  have "nwrite r + 1 - nread r = (nwrite r - nread r) + 1" by (simp add: algebra_simps)
  moreover have "unat ((nwrite r - nread r) + 1) = Suc ?n"
    by (rule unat_incr) (use lt in \<open>simp add: PIPESIZE_def\<close>)
  ultimately have n: "unat (nwrite r + 1 - nread r) = Suc ?n" by metis
  then show "pipe_inv (pipe_put c r)" using lt by (simp add: pipe_inv_def pipe_put_def)
  have w: "unat (nwrite r) mod PIPESIZE = (unat (nread r) + ?n) mod PIPESIZE"
    using ring_index [of "nread r" ?n] by simp
  have "(unat (nread r) + i) mod PIPESIZE \<noteq> (unat (nread r) + ?n) mod PIPESIZE" if "i < ?n" for i
  proof
    assume "(unat (nread r) + i) mod PIPESIZE = (unat (nread r) + ?n) mod PIPESIZE"
    then have "PIPESIZE dvd (unat (nread r) + ?n) - (unat (nread r) + i)"
      using that by (metis mod_eq_dvd_iff_nat nat_add_left_cancel_le less_imp_le)
    then have "PIPESIZE dvd ?n - i" by simp
    then show False using that lt by (auto dest: dvd_imp_le)
  qed
  then show "pipe_bytes (pipe_put c r) = pipe_bytes r @ [c]"
    unfolding pipe_bytes_def pipe_put_def by (simp add: n w)
qed

lemma pipe_take_bytes:
  assumes "pipe_inv r" and "nread r \<noteq> nwrite r"
  shows "pipe_inv (pipe_take r)" and "pipe_bytes r = pipe_front r # pipe_bytes (pipe_take r)"
proof -
  let ?n = "unat (nwrite r - nread r)"
  have pos: "0 < ?n" using assms(2) by (simp add: unat_gt_0)
  have "nwrite r - (nread r + 1) = (nwrite r - nread r) - 1" by (simp add: algebra_simps)
  moreover have "unat ((nwrite r - nread r) - 1) = ?n - 1" by (rule unat_minus_one) (use assms(2) in simp)
  ultimately have n: "unat (nwrite r - (nread r + 1)) = ?n - 1" by metis
  then show "pipe_inv (pipe_take r)" using assms(1) by (simp add: pipe_inv_def pipe_take_def)
  obtain k where k: "?n = Suc k" using pos gr0_implies_Suc by blast
  have "(unat (nread r + 1) + i) mod PIPESIZE = (unat (nread r) + Suc i) mod PIPESIZE" for i
    using ring_index [of "nread r" 1] by (metis add.assoc add_Suc_right mod_add_left_eq of_nat_1 plus_1_eq_Suc)
  then show "pipe_bytes r = pipe_front r # pipe_bytes (pipe_take r)"
    unfolding pipe_bytes_def pipe_take_def pipe_front_def
    using n by (simp add: k upt_conv_Cons del: upt_Suc flip: map_Suc_upt)
qed

interpretation pq: bounded_queue pipe_put pipe_front pipe_take pipe_full "\<lambda>r. nread r = nwrite r" pipe_bytes pipe_inv PIPESIZE
proof
  fix q :: pipe and x :: byte
  assume inv: "pipe_inv q"
  show "pipe_full q \<longleftrightarrow> length (pipe_bytes q) = PIPESIZE" by (simp add: pipe_full_iff)
  show "nread q = nwrite q \<longleftrightarrow> pipe_bytes q = []"
  proof -
    have "pipe_bytes q = [] \<longleftrightarrow> nwrite q - nread q = 0"
      by (metis length_0_conv length_pipe_bytes unat_eq_zero)
    then show ?thesis by auto
  qed
  show "length (pipe_bytes q) \<le> PIPESIZE" using inv by (simp add: pipe_inv_def)
  show "pipe_inv (pipe_put x q) \<and> pipe_bytes (pipe_put x q) = pipe_bytes q @ [x]" if "\<not> pipe_full q"
    using pipe_put_bytes [OF inv that] by simp
  show "pipe_inv (pipe_take q) \<and> pipe_bytes q = pipe_front q # pipe_bytes (pipe_take q)" if "nread q \<noteq> nwrite q"
    using pipe_take_bytes [OF inv that] by simp
qed

section \<open>Reading and writing\<close>

lemma pipewrite_fill:
  "pipe_inv (pipes s p) \<Longrightarrow> length (pipe_bytes (pipes s p)) + length cs \<le> PIPESIZE \<Longrightarrow>
   pipewrite_loop p n cs s =
     pipewrite_loop p n [] (s\<lparr>pipes := (pipes s)(p := fold pipe_put cs (pipes s p))\<rparr>)"
proof (induction cs arbitrary: s)
  case (Cons c cs)
  then have "\<not> pipe_full (pipes s p)" using pq.full_iff [of "pipes s p"] by auto
  then show ?case
    using Cons.IH [of "s\<lparr>pipes := (pipes s)(p := pipe_put c (pipes s p))\<rparr>"] Cons.prems
      pipe_put_bytes [OF Cons.prems(1), of c]
    by (simp add: upd_pipe_def del: pipewrite_loop.simps(1) length_pipe_bytes cong: if_cong)
qed simp

lemma pipewrite_run:
  assumes "idle (Lk_pipe p) s" and "idle Lk_ptable s" and "cpu_ok (cpu s)" and "pipe_inv (pipes s p)"
    and "length (pipe_bytes (pipes s p)) + length cs \<le> PIPESIZE"
  shows "pipewrite p cs (int (length cs)) s = Ret (int (length cs)) (s\<lparr>cpu := settle (cpu s),
    procs := awaken (Ch_nread p) (procs s), pipes := (pipes s)(p := fold pipe_put cs (pipes s p))\<rparr>)"
proof -
  let ?s = "s\<lparr>cpu := pushed (cpu s), locks := (locks s)(Lk_pipe p := held_by (cpu_id (cpu s)))\<rparr>"
  have "pipewrite_loop p n cs ?s =
      pipewrite_loop p n [] (?s\<lparr>pipes := (pipes s)(p := fold pipe_put cs (pipes s p))\<rparr>)" for n
    using pipewrite_fill [of ?s p cs] assms(4,5) by simp
  then show ?thesis
    using assms(1-3) by (simp add: pipewrite_def bnd_def lock_run wakeup_run)
qed

lemma piperead_copy_run:
  "pipe_inv (pipes s p) \<Longrightarrow> \<exists>r. piperead_copy p k acc s =
     Ret (acc @ take k (pipe_bytes (pipes s p))) (s\<lparr>pipes := (pipes s)(p := r)\<rparr>) \<and>
     pipe_inv r \<and> pipe_bytes r = drop k (pipe_bytes (pipes s p)) \<and>
     readopen r = readopen (pipes s p) \<and> writeopen r = writeopen (pipes s p)"
proof (induction k arbitrary: acc s)
  case 0
  then show ?case by (intro exI [of _ "pipes s p"]) simp
next
  case (Suc k)
  let ?r = "pipes s p"
  show ?case
  proof (cases "nread ?r = nwrite ?r")
    case True
    then show ?thesis using pq.empty_iff [OF Suc.prems] Suc.prems by (intro exI [of _ ?r]) simp
  next
    case False
    let ?s = "s\<lparr>pipes := (pipes s)(p := pipe_take ?r)\<rparr>"
    note t = pipe_take_bytes [OF Suc.prems False]
    have ps: "pipes ?s p = pipe_take ?r" by simp
    have "pipe_inv (pipes ?s p)" using t(1) by simp
    from Suc.IH [OF this, of "acc @ [pipe_front ?r]"] obtain r where
      r: "piperead_copy p k (acc @ [pipe_front ?r]) ?s =
            Ret ((acc @ [pipe_front ?r]) @ take k (pipe_bytes (pipe_take ?r))) (?s\<lparr>pipes := (pipes ?s)(p := r)\<rparr>)"
        "pipe_inv r" "pipe_bytes r = drop k (pipe_bytes (pipe_take ?r))"
        "readopen r = readopen (pipe_take ?r)" "writeopen r = writeopen (pipe_take ?r)"
      unfolding ps by blast
    have "?s\<lparr>pipes := (pipes ?s)(p := r)\<rparr> = s\<lparr>pipes := (pipes s)(p := r)\<rparr>" by (simp add: fun_upd_def cong: if_cong)
    with r have "piperead_copy p (Suc k) acc s =
        Ret (acc @ take (Suc k) (pipe_bytes ?r)) (s\<lparr>pipes := (pipes s)(p := r)\<rparr>)"
      using False by (simp add: t(2) upd_pipe_def)
    moreover have "pipe_bytes r = drop (Suc k) (pipe_bytes ?r)" by (simp add: r(3) t(2))
    moreover have "readopen r = readopen ?r" "writeopen r = writeopen ?r" by (simp_all add: r(4,5) pipe_take_def)
    ultimately show ?thesis using r(2) by blast
  qed
qed

text \<open>C25. A write that fits is complete and in order: the bytes are appended to what the pipe holds, across the
  wrap-around of the ring and of the counters, and the readers are woken.\<close>

theorem pipewrite_appends:
  assumes "idle (Lk_pipe p) s" and "idle Lk_ptable s" and "cpu_ok (cpu s)" and "pipe_inv (pipes s p)"
    and "length (pipe_bytes (pipes s p)) + length cs \<le> PIPESIZE"
  shows "wp (pipewrite p cs (int (length cs))) (\<lambda>r t. r = int (length cs) \<and> pipe_inv (pipes t p) \<and>
    pipe_bytes (pipes t p) = pipe_bytes (pipes s p) @ cs \<and> procs t = awaken (Ch_nread p) (procs s) \<and>
    locks t = locks s) s"
  unfolding wp_Ret [of "pipewrite p cs (int (length cs))", OF pipewrite_run [OF assms]]
  using pq.put_all [OF assms(4,5)] by simp

text \<open>C26. A read from a pipe that holds bytes, or whose writers are gone, returns at once with the oldest bytes, as
  many as it asked for or as there are; they leave the pipe, the rest stays in order, and the writers are woken.\<close>

theorem piperead_delivers:
  assumes "idle (Lk_pipe p) s" and "idle Lk_ptable s" and "cpu_ok (cpu s)" and "pipe_inv (pipes s p)"
    and "pipe_bytes (pipes s p) \<noteq> [] \<or> \<not> writeopen (pipes s p)"
  shows "wp (piperead p n) (\<lambda>(r, bs) t. bs = take (nat n) (pipe_bytes (pipes s p)) \<and> r = int (length bs) \<and>
    pipe_inv (pipes t p) \<and> pipe_bytes (pipes t p) = drop (nat n) (pipe_bytes (pipes s p)) \<and>
    procs t = awaken (Ch_nwrite p) (procs s) \<and> locks t = locks s) s"
proof -
  let ?s = "s\<lparr>cpu := pushed (cpu s), locks := (locks s)(Lk_pipe p := held_by (cpu_id (cpu s)))\<rparr>"
  have "pipe_inv (pipes ?s p)" using assms(4) by simp
  from piperead_copy_run [OF this, of "nat n" "[]"] obtain r where
    r: "piperead_copy p (nat n) [] ?s = Ret (take (nat n) (pipe_bytes (pipes s p))) (?s\<lparr>pipes := (pipes s)(p := r)\<rparr>)"
      "pipe_inv r" "pipe_bytes r = drop (nat n) (pipe_bytes (pipes s p))"
    by auto
  have "(nread (pipes ?s p) = nwrite (pipes ?s p) \<and> writeopen (pipes ?s p)) = False"
    using assms(5) pq.empty_iff [OF assms(4)] by auto
  then have "piperead_loop p n ?s = bnd (piperead_copy p (nat n) []) (\<lambda>acc.
      bnd (wakeup (Ch_nwrite p)) (\<lambda>_. bnd (release (Lk_pipe p)) (\<lambda>_. ret (int (length acc), acc)))) ?s"
    by (simp only: piperead_loop_def file_state.select_convs) simp
  then show ?thesis
    using assms(1-3) r by (simp add: wp_def piperead_def bnd_def lock_run wakeup_run del: length_pipe_bytes)
qed

section \<open>A pipe in use\<close>

definition demo_pipe :: pipe where
  "demo_pipe = \<lparr>pp_data = (\<lambda>_. 7), nread = 0xfffffffe, nwrite = 1, readopen = True, writeopen = True\<rparr>"

definition demo_file :: file_t where
  "demo_file = \<lparr>f_type = FD_NONE, f_ref = 0, f_readable = False, f_writable = False, f_pipe = 0, f_ip = 0, f_off = 0\<rparr>"

definition file_demo :: file_state where
  "file_demo = cons_state.extend cons_demo \<lparr>files = (\<lambda>_. demo_file), pipes = (\<lambda>_. demo_pipe)\<rparr>"

lemmas file_demo_defs = file_demo_def demo_file_def cons_demo_defs cons_state.defs

lemma demo_pipe_bytes: "pipe_inv demo_pipe" "pipe_bytes demo_pipe = [7, 7, 7]"
  by (simp_all add: demo_pipe_def pipe_inv_def pipe_bytes_def PIPESIZE_def map_replicate_const numeral_3_eq_3)

lemma file_demo_pipe: "pipes file_demo p = demo_pipe" "idle lk file_demo" "cpu_ok (cpu file_demo)"
  by (simp_all add: file_demo_defs cpu_ok_def)

theorem pipewrite_appends_witness:
  "\<exists>t. pipewrite 4096 [1, 2] 2 file_demo = Ret 2 t \<and> pipe_bytes (pipes t 4096) = [7, 7, 7, 1, 2]"
  using pipewrite_appends [where p = 4096 and s = file_demo and cs = "[1, 2]"] demo_pipe_bytes unfolding wp_iff
  by (auto simp: file_demo_pipe PIPESIZE_def simp del: length_pipe_bytes)

theorem piperead_delivers_witness:
  "\<exists>t. piperead 4096 2 file_demo = Ret (2, [7, 7]) t \<and> pipe_bytes (pipes t 4096) = [7]"
  using piperead_delivers [where p = 4096 and s = file_demo and n = 2] demo_pipe_bytes unfolding wp_iff
  by (auto simp: file_demo_pipe numeral_2_eq_2 simp del: length_pipe_bytes)

end
