(* ===== verification/File.thy ===== *)
theory File
  imports Pipe
begin

text \<open>
  The file table (\<open>file.c\<close>) and \<open>pipealloc\<close> of \<open>pipe.c\<close>, which fills two of its entries. File pointers are
  indices into \<open>ftable.file\<close>, a null one is \<open>None\<close>.
\<close>

definition upd_file :: "nat \<Rightarrow> (file_t \<Rightarrow> file_t) \<Rightarrow> ('z file_state_scheme, unit) kern" where
  "upd_file f g = modify (\<lambda>s. s\<lparr>files := (files s)(f := g (files s f))\<rparr>)"

definition fileinit :: "('z file_state_scheme, unit) kern" where
  "fileinit = initlock Lk_ftable"

definition filealloc :: "('z file_state_scheme, nat option) kern" where
  "filealloc =
     bnd (acquire Lk_ftable) (\<lambda>_.
     bnd (gets (\<lambda>s. find (\<lambda>f. f_ref (files s f) = 0) [0..<NFILE])) (\<lambda>found.
     case found of
       Some f \<Rightarrow>
         bnd (upd_file f (\<lambda>r. r\<lparr>f_ref := 1\<rparr>)) (\<lambda>_.
         bnd (release Lk_ftable) (\<lambda>_.
         ret (Some f)))
     | None \<Rightarrow> bnd (release Lk_ftable) (\<lambda>_. ret None)))"

definition filedup :: "nat \<Rightarrow> ('z file_state_scheme, nat) kern" where
  "filedup f =
     bnd (acquire Lk_ftable) (\<lambda>_.
     bnd (\<lambda>s. whenk (f_ref (files s f) < 1) (kpanic ''filedup'') s) (\<lambda>_.
     bnd (upd_file f (\<lambda>r. r\<lparr>f_ref := f_ref r + 1\<rparr>)) (\<lambda>_.
     bnd (release Lk_ftable) (\<lambda>_.
     ret f))))"

definition fileclose :: "nat \<Rightarrow> ('z file_state_scheme, unit) kern" where
  "fileclose f =
     bnd (acquire Lk_ftable) (\<lambda>_.
     bnd (\<lambda>s. whenk (f_ref (files s f) < 1) (kpanic ''fileclose'') s) (\<lambda>_.
     bnd (upd_file f (\<lambda>r. r\<lparr>f_ref := f_ref r - 1\<rparr>)) (\<lambda>_.
     bnd (gets (\<lambda>s. files s f)) (\<lambda>ff.
     if f_ref ff > 0 then release Lk_ftable
     else block [
       upd_file f (\<lambda>r. r\<lparr>f_ref := 0, f_type := FD_NONE\<rparr>),
       release Lk_ftable,
       if f_type ff = FD_PIPE then pipeclose (f_pipe ff) (f_writable ff)
       else whenk (f_type ff = FD_INODE) (block [begin_op, iput (f_ip ff), end_op])]))))"

text \<open>The result of \<open>filestat\<close> comes with the \<open>struct stat\<close> it fills.\<close>

definition filestat :: "nat \<Rightarrow> ('z file_state_scheme, int \<times> stat option) kern" where
  "filestat f =
     bnd (gets (\<lambda>s. files s f)) (\<lambda>ff.
     if f_type ff = FD_INODE then
       bnd (ilock (f_ip ff)) (\<lambda>_.
       bnd (stati (f_ip ff)) (\<lambda>st.
       bnd (iunlock (f_ip ff)) (\<lambda>_.
       ret (0, Some st))))
     else ret (-1, None))"

definition fileread :: "nat \<Rightarrow> int \<Rightarrow> ('z file_state_scheme, int \<times> byte list) kern" where
  "fileread f n =
     bnd (gets (\<lambda>s. files s f)) (\<lambda>ff.
     if \<not> f_readable ff then ret (-1, [])
     else if f_type ff = FD_PIPE then piperead (f_pipe ff) n
     else if f_type ff = FD_INODE then
       bnd (ilock (f_ip ff)) (\<lambda>_.
       bnd (\<lambda>s. readi (f_ip ff) (f_off (files s f)) (word_of_int n) s) (\<lambda>(r, bs).
       bnd (whenk (r > 0) (upd_file f (\<lambda>x. x\<lparr>f_off := f_off x + word_of_int r\<rparr>))) (\<lambda>_.
       bnd (iunlock (f_ip ff)) (\<lambda>_.
       ret (r, bs)))))
     else kpanic ''fileread'')"

definition filewrite_max :: int where
  "filewrite_max = (LOGSIZE - 1 - 1 - 2) div 2 * 512"

text \<open>One turn of the loop of \<open>filewrite\<close> at \<open>i\<close>; the flag says that it left the loop by \<open>break\<close>.\<close>

definition filewrite_step :: "nat \<Rightarrow> byte list \<Rightarrow> int \<Rightarrow> int \<times> bool \<Rightarrow> ('z file_state_scheme, int \<times> bool) kern" where
  "filewrite_step f addr n = (\<lambda>(i, _).
     let n1 = min (n - i) filewrite_max in
     bnd (gets (\<lambda>s. f_ip (files s f))) (\<lambda>ip.
     bnd begin_op (\<lambda>_.
     bnd (ilock ip) (\<lambda>_.
     bnd (\<lambda>s. writei ip (take (nat n1) (drop (nat i) addr)) (f_off (files s f)) (word_of_int n1) s) (\<lambda>r.
     bnd (whenk (r > 0) (upd_file f (\<lambda>x. x\<lparr>f_off := f_off x + word_of_int r\<rparr>))) (\<lambda>_.
     bnd (iunlock ip) (\<lambda>_.
     bnd end_op (\<lambda>_.
     if r < 0 then ret (i, True)
     else bnd (whenk (r \<noteq> n1) (kpanic ''short filewrite'')) (\<lambda>_. ret (i + r, False))))))))))"

definition filewrite :: "nat \<Rightarrow> byte list \<Rightarrow> int \<Rightarrow> ('z file_state_scheme, int) kern" where
  "filewrite f addr n =
     bnd (gets (\<lambda>s. files s f)) (\<lambda>ff.
     if \<not> f_writable ff then ret (-1)
     else if f_type ff = FD_PIPE then pipewrite (f_pipe ff) addr n
     else if f_type ff = FD_INODE then
       bnd (kwhile (\<lambda>(i, brk) _. \<not> brk \<and> i < n) (filewrite_step f addr n) (0, False)) (\<lambda>(i, _).
       ret (if i = n then n else -1))
     else kpanic ''filewrite'')"

section \<open>pipealloc\<close>

text \<open>The code after \<open>bad\<close>; \<open>p\<close> is never set there.\<close>

definition pipealloc_bad :: "nat option \<Rightarrow> nat option \<Rightarrow> ('z file_state_scheme, int \<times> (nat \<times> nat) option) kern" where
  "pipealloc_bad f0 f1 =
     bnd (case f0 of Some f \<Rightarrow> fileclose f | None \<Rightarrow> skip) (\<lambda>_.
     bnd (case f1 of Some f \<Rightarrow> fileclose f | None \<Rightarrow> skip) (\<lambda>_.
     ret (-1, None)))"

definition pipealloc :: "('z file_state_scheme, int \<times> (nat \<times> nat) option) kern" where
  "pipealloc =
     bnd filealloc (\<lambda>f0.
     case f0 of
       None \<Rightarrow> pipealloc_bad None None
     | Some a \<Rightarrow>
         bnd filealloc (\<lambda>f1.
         case f1 of
           None \<Rightarrow> pipealloc_bad (Some a) None
         | Some b \<Rightarrow>
             bnd kalloc (\<lambda>p.
             if p = 0 then pipealloc_bad (Some a) (Some b)
             else
               bnd (upd_pipe p (\<lambda>r. r\<lparr>readopen := True, writeopen := True, nwrite := 0, nread := 0\<rparr>)) (\<lambda>_.
               bnd (initlock (Lk_pipe p)) (\<lambda>_.
               bnd (upd_file a (\<lambda>r. r\<lparr>f_type := FD_PIPE, f_readable := True, f_writable := False, f_pipe := p\<rparr>)) (\<lambda>_.
               bnd (upd_file b (\<lambda>r. r\<lparr>f_type := FD_PIPE, f_readable := False, f_writable := True, f_pipe := p\<rparr>)) (\<lambda>_.
               ret (0, Some (a, b)))))))))"

end
