(* ===== verification/Sched_Safety.thy ===== *)
theory Sched_Safety
  imports Sched
begin

text \<open>
  The process table under any number of CPUs (\<open>proc.c\<close>). A step is one critical section of
  \<open>ptable.lock\<close>, run whole, since \<open>Spinlock\<close> shows that no two CPUs are inside one at once. The
  invariant gives that a process runs on one CPU at most. The last sections are about \<open>kill\<close>, about
  the order in which the scheduler serves the runnable processes, and about new slots.
\<close>

section \<open>Effects on states and current processes\<close>

lemma pushcli_Ret: "pushcli s = Ret x t \<Longrightarrow>
    \<exists>c. t = s\<lparr>cpu := c\<rparr> \<and> curproc c = curproc (cpu s) \<and> cpu_id c = cpu_id (cpu s)"
  by (auto simp: pushcli_run)

lemma popcli_Ret: "popcli s = Ret x t \<Longrightarrow>
    \<exists>c. t = s\<lparr>cpu := c\<rparr> \<and> curproc c = curproc (cpu s) \<and> cpu_id c = cpu_id (cpu s)"
  by (auto simp: popcli_run split: if_splits)

lemma switchuvm_Ret: "switchuvm p s = Ret x t \<Longrightarrow>
    \<exists>c. t = s\<lparr>cpu := c\<rparr> \<and> curproc c = curproc (cpu s) \<and> cpu_id c = cpu_id (cpu s)"
  unfolding switchuvm_def
  by (elim bnd_RetE)
    (auto dest!: pushcli_Ret popcli_Ret simp: myproc_def lcr3_def whenk_def split: option.splits if_splits)

lemma scheduler_scan_Ret:
  assumes "scheduler_scan k s = Ret (Some p) t"
  shows "p < NPROC \<and> p_state (procs s p) = RUNNABLE \<and> curproc (cpu t) = Some p \<and>
    cpu_id (cpu t) = cpu_id (cpu s) \<and>
    procs t = (procs s)(p := (procs s p)\<lparr>p_state := RUNNING\<rparr>)"
  using assms unfolding scheduler_scan_def scheduler_run_def
  by (auto elim!: bnd_RetE dest!: switchuvm_Ret simp: find_Some_iff split: option.splits)

text \<open>One critical section each.\<close>

definition enter_sched :: "nat \<Rightarrow> (sched_state, nat option) kern" where
  "enter_sched k = bnd scheduler_start (\<lambda>_. scheduler_scan k)"

definition leave_sched :: "(sched_state, unit) kern" where
  "leave_sched = bnd scheduler_back (\<lambda>_. release Lk_ptable)"

inductive pstep :: "psys \<Rightarrow> psys \<Rightarrow> bool" where
  run: "curproc (pcpus g c) = None \<Longrightarrow> enter_sched k (pview c g) = Ret (Some p) s \<Longrightarrow>
    yield_resume v s = Ret () t \<Longrightarrow> pstep g (pput c t g)"
| wake: "curproc (pcpus g c) = None \<Longrightarrow> enter_sched k (pview c g) = Ret (Some p) s \<Longrightarrow>
    sleep_resume v lk s = Ret () t \<Longrightarrow> pstep g (pput c t g)"
| idle: "curproc (pcpus g c) = None \<Longrightarrow> enter_sched k (pview c g) = Ret None s \<Longrightarrow>
    pstep g (pput c s g)"
| yield: "yield (pview c g) = Switch s \<Longrightarrow> leave_sched s = Ret () t \<Longrightarrow> pstep g (pput c t g)"
| sleep: "(sleep ch (Some lk) :: (sched_state, unit) kern) (pview c g) = Switch s \<Longrightarrow>
    leave_sched s = Ret () t \<Longrightarrow> pstep g (pput c t g)"
| exit: "(bnd (acquire Lk_ptable) (\<lambda>_. exit_zombie) :: (sched_state, unit) kern) (pview c g) =
    Switch s \<Longrightarrow> leave_sched s = Ret () t \<Longrightarrow> pstep g (pput c t g)"
| wakeup: "wakeup ch (pview c g) = Ret () s \<Longrightarrow> pstep g (pput c s g)"
| kill: "kill pid (pview c g) = Ret r s \<Longrightarrow> pstep g (pput c s g)"
| fork: "bnd (acquire Lk_ptable) (\<lambda>_. bnd allocproc (\<lambda>np. case np of
      None \<Rightarrow> release Lk_ptable | Some p \<Rightarrow> block [fork_commit p, release Lk_ptable]))
      (pview c g) = Ret () s \<Longrightarrow> pstep g (pput c s g)"
| reap: "p_state (procs (psh g) p) = ZOMBIE \<Longrightarrow>
    block [acquire Lk_ptable, wait_reap p, release Lk_ptable] (pview c g) = Ret () s \<Longrightarrow>
    pstep g (pput c s g)"
| lock: "lk \<noteq> Lk_ptable \<Longrightarrow> acquire lk (pview c g) = Ret () s \<Longrightarrow> pstep g (pput c s g)"
| unlock: "lk \<noteq> Lk_ptable \<Longrightarrow> release lk (pview c g) = Ret () s \<Longrightarrow> pstep g (pput c s g)"

text \<open>What each kind of step does to the current process of the CPU and to the table: the four moves
  of the process state machine.\<close>

definition same_run :: "(nat \<Rightarrow> proc) \<Rightarrow> (nat \<Rightarrow> proc) \<Rightarrow> bool" where
  "same_run ps qs \<longleftrightarrow> (\<forall>i. p_state (qs i) = RUNNING \<longleftrightarrow> p_state (ps i) = RUNNING)"

inductive pmove :: "nat option \<Rightarrow> (nat \<Rightarrow> proc) \<Rightarrow> nat option \<Rightarrow> (nat \<Rightarrow> proc) \<Rightarrow> bool" where
  stay: "same_run ps qs \<Longrightarrow> pmove c ps c qs"
| on: "p_state (ps p) = RUNNABLE \<Longrightarrow> p < NPROC \<Longrightarrow> p_state r = RUNNING \<Longrightarrow>
    pmove None ps (Some p) (ps(p := r))"
| off: "p_state r \<noteq> RUNNING \<Longrightarrow> pmove (Some p) ps None (ps(p := r))"

lemma acquire_Ret': "acquire lk s = Ret x t \<Longrightarrow> procs t = procs s \<and> curproc (cpu t) = curproc (cpu s) \<and>
    cpu_id (cpu t) = cpu_id (cpu s)" for s :: "'z sched_state_scheme"
  by (auto dest!: acquire_Ret)

lemma release_Ret': "release lk s = Ret x t \<Longrightarrow> procs t = procs s \<and> curproc (cpu t) = curproc (cpu s) \<and>
    cpu_id (cpu t) = cpu_id (cpu s)" for s :: "'z sched_state_scheme"
  by (auto dest!: release_Ret)

lemma enter_sched_Ret:
  assumes "enter_sched k s = Ret r t"
  shows "cpu_id (cpu t) = cpu_id (cpu s) \<and> (case r of
      None \<Rightarrow> procs t = procs s \<and> curproc (cpu t) = curproc (cpu s)
    | Some p \<Rightarrow> p < NPROC \<and> p_state (procs s p) = RUNNABLE \<and> curproc (cpu t) = Some p \<and>
        procs t = (procs s)(p := (procs s p)\<lparr>p_state := RUNNING\<rparr>))"
proof -
  from assms obtain u where u: "procs u = procs s" "curproc (cpu u) = curproc (cpu s)"
      "cpu_id (cpu u) = cpu_id (cpu s)" "scheduler_scan k u = Ret r t"
    unfolding enter_sched_def scheduler_start_def
    by (auto elim!: bnd_RetE dest!: acquire_Ret' simp: sti_def)
  show ?thesis
  proof (cases r)
    case None
    with u show ?thesis
      by (auto simp: scheduler_scan_def elim!: bnd_RetE dest!: release_Ret' split: option.splits)
  next
    case (Some p)
    with u scheduler_scan_Ret [of k u p t] show ?thesis by auto
  qed
qed

lemma leave_sched_Ret: "leave_sched s = Ret x t \<Longrightarrow>
    procs t = procs s \<and> curproc (cpu t) = None \<and> cpu_id (cpu t) = cpu_id (cpu s)"
  unfolding leave_sched_def by (auto dest!: back_release_Ret)

lemma kalloc_Ret: "kalloc s = Ret r t \<Longrightarrow> procs t = procs s \<and> curproc (cpu t) = curproc (cpu s) \<and>
    cpu_id (cpu t) = cpu_id (cpu s) \<and> nextpid t = nextpid s \<and> initproc t = initproc s"
  for s :: "'z sched_state_scheme"
  unfolding kalloc_def whenk_def
  by (auto elim!: bnd_RetE dest!: acquire_Ret release_Ret split: if_splits)

text \<open>A slot \<open>allocproc\<close> returns was unused, and is now an embryo with a fresh pid and a kernel stack;
  when it fails the slot it tried is unused again.\<close>

lemma allocproc_Ret:
  assumes "allocproc s = Ret r t"
  shows "curproc (cpu t) = curproc (cpu s) \<and> cpu_id (cpu t) = cpu_id (cpu s) \<and>
    initproc t = initproc s \<and>
    (\<exists>p r'. procs t = (procs s)(p := r') \<and> (procs t = procs s \<or> p_state (procs s p) = UNUSED \<and>
        p < NPROC \<and> p_pid r' = nextpid s \<and> nextpid t = nextpid s + 1 \<and>
        p_parent r' = p_parent (procs s p) \<and> p_killed r' = p_killed (procs s p)) \<and>
      (case r of None \<Rightarrow> p_state r' = p_state (procs s p)
       | Some q \<Rightarrow> q = p \<and> procs t \<noteq> procs s \<and> p_state r' = EMBRYO \<and> p_kstack r' \<noteq> 0))"
proof (cases "find (\<lambda>i. p_state (procs s i) = UNUSED) [0..<NPROC]")
  case None
  then have "procs t = (procs s)(0 := procs s 0) \<and> r = None \<and> t = s"
    using assms by (simp add: allocproc_def)
  then show ?thesis using assms None by (intro conjI exI [of _ 0] exI [of _ "procs s 0"]) auto
next
  case (Some p)
  then have p: "p < NPROC" "p_state (procs s p) = UNUSED" by (auto simp: find_first_Some)
  define u where "u = s\<lparr>procs := (procs s)(p := (procs s p)\<lparr>p_state := EMBRYO, p_pid := nextpid s\<rparr>),
    nextpid := nextpid s + 1\<rparr>"
  obtain stk v where k: "kalloc u = Ret stk v"
    using assms Some unfolding allocproc_def u_def by (auto elim!: bnd_RetE)
  have v: "procs v = procs u" "curproc (cpu v) = curproc (cpu s)" "cpu_id (cpu v) = cpu_id (cpu s)"
      "nextpid v = nextpid u" "initproc v = initproc s"
    using kalloc_Ret [OF k] by (simp_all add: u_def)
  have ne: "f(p := r') \<noteq> f" if "p_state r' = EMBRYO" "p_state (f p) = UNUSED" for f :: "nat \<Rightarrow> proc" and r'
    using that by (metis fun_upd_same procstate.distinct(1))
  show ?thesis
  proof (cases "stk = 0")
    case True
    then have "r = None \<and> t = v\<lparr>procs := (procs v)(p := (procs v p)\<lparr>p_kstack := 0, p_state := UNUSED\<rparr>)\<rparr>"
      using assms Some k unfolding allocproc_def u_def by (simp add: bnd_def fun_eq_iff)
    with v p show ?thesis
      by (intro conjI exI [of _ p] exI [of _ "(procs u p)\<lparr>p_kstack := 0, p_state := UNUSED\<rparr>"])
        (auto simp: u_def)
  next
    case False
    then have "r = Some p \<and> (\<exists>m tf ctx. t = v\<lparr>procs := (procs v)(p := (procs v p)
        \<lparr>p_kstack := stk, p_tf := tf, p_context := ctx\<rparr>), mem := m\<rparr>)"
      using assms Some k unfolding allocproc_def u_def
      by (auto simp: bnd_def Let_def intro!: exI)
    then obtain m tf ctx where t: "r = Some p" "t = v\<lparr>procs := (procs v)(p := (procs v p)
        \<lparr>p_kstack := stk, p_tf := tf, p_context := ctx\<rparr>), mem := m\<rparr>" by blast
    with v p False ne show ?thesis
      by (intro conjI exI [of _ p] exI [of _ "(procs u p)\<lparr>p_kstack := stk, p_tf := tf, p_context := ctx\<rparr>"])
        (auto simp: u_def)
  qed
qed

section \<open>One CPU per process\<close>

lemma same_run_refl [simp]: "same_run ps ps"
  by (simp add: same_run_def)

lemma same_run_upd: "p_state (ps p) \<noteq> RUNNING \<Longrightarrow> p_state r \<noteq> RUNNING \<Longrightarrow> same_run ps (ps(p := r))"
  by (simp add: same_run_def)

lemma yield_Switch:
  assumes "yield s = Switch t"
  shows "\<exists>p. curproc (cpu s) = Some p \<and> curproc (cpu t) = Some p \<and> cpu_id (cpu t) = cpu_id (cpu s) \<and>
    procs t = (procs s)(p := (procs s p)\<lparr>p_state := RUNNABLE\<rparr>)"
proof -
  obtain u where u: "acquire Lk_ptable s = Ret () u"
    using assms by (auto simp: yield_def bnd_def acquire_run split: if_splits)
  with assms show ?thesis
    using acquire_Ret' [OF u]
    by (auto simp: yield_def bnd_def myproc_def dest!: sched_Switch split: option.splits)
qed

lemma exit_Switch:
  assumes "bnd (acquire Lk_ptable) (\<lambda>_. exit_zombie) s = Switch t"
  shows "\<exists>p. curproc (cpu s) = Some p \<and> curproc (cpu t) = Some p \<and> cpu_id (cpu t) = cpu_id (cpu s) \<and>
    procs t = (procs s)(p := (procs s p)\<lparr>p_state := ZOMBIE\<rparr>)"
proof -
  obtain u where u: "acquire Lk_ptable s = Ret () u"
    using assms by (auto simp: bnd_def acquire_run split: if_splits)
  with assms show ?thesis
    using acquire_Ret' [OF u]
    by (auto simp: exit_zombie_def bnd_def myproc_def dest!: sched_Switch split: option.splits)
qed

lemma sleep_Switch:
  assumes "sleep ch (Some lk) s = Switch t"
  shows "\<exists>p. curproc (cpu s) = Some p \<and> curproc (cpu t) = Some p \<and> cpu_id (cpu t) = cpu_id (cpu s) \<and>
    procs t = (procs s)(p := (procs s p)\<lparr>p_chan := Some ch, p_state := SLEEPING\<rparr>)"
proof -
  obtain p where p: "curproc (cpu s) = Some p"
    using assms by (auto simp: sleep_def split: if_splits)
  obtain u where u: "sleep_locks lk s = Ret () u"
    using assms p
    by (cases "sleep_locks lk s")
      (auto simp: sleep_def bnd_def sleep_locks_def whenk_def acquire_run release_run split: if_splits)
  have "procs u = procs s" "curproc (cpu u) = Some p" "cpu_id (cpu u) = cpu_id (cpu s)"
    using u p by (auto simp: sleep_locks_def whenk_def elim!: bnd_RetE
        dest!: acquire_Ret' release_Ret' split: if_splits)
  with assms p u show ?thesis
    by (auto simp: sleep_def bnd_def dest!: sleep_mark_Switch [where p = p])
qed

lemma yield_resume_Ret: "yield_resume v s = Ret x t \<Longrightarrow>
    procs t = procs s \<and> curproc (cpu t) = curproc (cpu s) \<and> cpu_id (cpu t) = cpu_id (cpu s)"
  by (auto simp: yield_resume_def sched_resume_def dest!: release_Ret' elim!: bnd_RetE)

lemma sleep_resume_Ret: "sleep_resume v lk s = Ret x t \<Longrightarrow> curproc (cpu s) = Some p \<Longrightarrow>
    procs t = (procs s)(p := (procs s p)\<lparr>p_chan := None\<rparr>) \<and> curproc (cpu t) = Some p \<and>
    cpu_id (cpu t) = cpu_id (cpu s)"
  by (auto simp: sleep_resume_def sched_resume_def whenk_def myproc_def dest!: release_Ret' acquire_Ret'
      elim!: bnd_RetE split: if_splits option.splits)

lemma wakeup_Ret: "wakeup ch s = Ret x t \<Longrightarrow> procs t = awaken ch (procs s) \<and>
    curproc (cpu t) = curproc (cpu s) \<and> cpu_id (cpu t) = cpu_id (cpu s)"
  by (auto simp: wakeup_def wakeup1_run dest!: release_Ret' acquire_Ret' elim!: bnd_RetE)

lemma kill_Ret: "kill pid s = Ret r t \<Longrightarrow> same_run (procs s) (procs t) \<and>
    curproc (cpu t) = curproc (cpu s) \<and> cpu_id (cpu t) = cpu_id (cpu s)"
  by (auto simp: kill_def whenk_def same_run_def dest!: release_Ret' acquire_Ret' elim!: bnd_RetE
      split: option.splits if_splits)

lemma spawn_Ret:
  assumes "bnd (acquire Lk_ptable) (\<lambda>_. bnd allocproc (\<lambda>np. case np of
      None \<Rightarrow> release Lk_ptable | Some p \<Rightarrow> block [fork_commit p, release Lk_ptable])) s = Ret () t"
  shows "same_run (procs s) (procs t) \<and> curproc (cpu t) = curproc (cpu s) \<and> cpu_id (cpu t) = cpu_id (cpu s)"
proof -
  obtain u np v where u: "acquire Lk_ptable s = Ret () u" and v: "allocproc u = Ret np v"
    and w: "(case np of None \<Rightarrow> release Lk_ptable | Some p \<Rightarrow> block [fork_commit p, release Lk_ptable]) v =
      Ret () t"
    using assms by (auto elim!: bnd_RetE)
  from allocproc_Ret [OF v] show ?thesis
    using acquire_Ret' [OF u] w
    by (cases np) (auto simp: same_run_def fork_commit_def dest!: release_Ret' elim!: bnd_RetE
        split: if_splits)
qed

lemma reap_Ret:
  assumes "block [acquire Lk_ptable, wait_reap p, release Lk_ptable] s = Ret () t"
    and "p_state (procs s p) = ZOMBIE"
  shows "same_run (procs s) (procs t) \<and> curproc (cpu t) = curproc (cpu s) \<and> cpu_id (cpu t) = cpu_id (cpu s)"
  using assms by (auto simp: wait_reap_def same_run_def dest!: release_Ret' acquire_Ret' elim!: bnd_RetE
      split: if_splits)

lemma pstep_moves:
  assumes "pstep g h"
  shows "\<exists>c s. h = pput c s g \<and> pmove (curproc (pcpus g c)) (procs (psh g)) (curproc (cpu s)) (procs s)"
  using assms
proof cases
  case (run c k p s v t)
  with enter_sched_Ret [OF run(3)] yield_resume_Ret [OF run(4)] show ?thesis
    by (intro exI [of _ c] exI [of _ t]) (auto intro!: pmove.on)
next
  case (wake c k p s v lk t)
  with enter_sched_Ret [OF wake(3)] sleep_resume_Ret [OF wake(4)] show ?thesis
    by (intro exI [of _ c] exI [of _ t]) (auto intro!: pmove.on)
next
  case (idle c k s)
  with enter_sched_Ret [OF idle(3)] show ?thesis
    by (intro exI [of _ c] exI [of _ s]) (auto intro!: pmove.stay)
next
  case (yield c s t)
  with yield_Switch [OF yield(2)] leave_sched_Ret [OF yield(3)] show ?thesis
    by (intro exI [of _ c] exI [of _ t]) (auto intro!: pmove.off)
next
  case (sleep ch lk c s t)
  with sleep_Switch [OF sleep(2)] leave_sched_Ret [OF sleep(3)] show ?thesis
    by (intro exI [of _ c] exI [of _ t]) (auto intro!: pmove.off)
next
  case (exit c s t)
  with exit_Switch [OF exit(2)] leave_sched_Ret [OF exit(3)] show ?thesis
    by (intro exI [of _ c] exI [of _ t]) (auto intro!: pmove.off)
next
  case (wakeup ch c s)
  with wakeup_Ret [OF wakeup(2)] show ?thesis
    by (intro exI [of _ c] exI [of _ s]) (auto intro!: pmove.stay simp: same_run_def awaken_def)
next
  case (kill pid c r s)
  with kill_Ret [OF kill(2)] show ?thesis
    by (intro exI [of _ c] exI [of _ s]) (auto intro!: pmove.stay)
next
  case (fork c s)
  with spawn_Ret [OF fork(2)] show ?thesis
    by (intro exI [of _ c] exI [of _ s]) (auto intro!: pmove.stay)
next
  case (reap p c s)
  with reap_Ret [OF reap(3)] show ?thesis
    by (intro exI [of _ c] exI [of _ s]) (auto intro!: pmove.stay)
next
  case (lock lk c s)
  with acquire_Ret' [OF lock(3)] show ?thesis
    by (intro exI [of _ c] exI [of _ s]) (auto intro!: pmove.stay)
next
  case (unlock lk c s)
  with release_Ret' [OF unlock(3)] show ?thesis
    by (intro exI [of _ c] exI [of _ s]) (auto intro!: pmove.stay)
qed

definition pinv :: "psys \<Rightarrow> bool" where
  "pinv g \<longleftrightarrow>
     (\<forall>p. p_state (procs (psh g) p) = RUNNING \<longleftrightarrow> (\<exists>c. curproc (pcpus g c) = Some p)) \<and>
     (\<forall>c d p. curproc (pcpus g c) = Some p \<longrightarrow> curproc (pcpus g d) = Some p \<longrightarrow> c = d)"

lemma pmove_inv:
  assumes inv: "pinv g"
    and "pmove (curproc (pcpus g c)) (procs (psh g)) (curproc (cpu s)) (procs s)"
  shows "pinv (pput c s g)"
  using assms(2)
proof cases
  case stay
  then have "curproc (((pcpus g)(c := cpu s)) d) = curproc (pcpus g d)" for d by simp
  with inv stay show ?thesis unfolding pinv_def pput_simps same_run_def by simp
next
  case (on p r)
  then have no: "curproc (pcpus g d) \<noteq> Some p" for d using inv by (force simp: pinv_def)
  show ?thesis
    unfolding pinv_def pput_simps on
  proof (intro conjI allI impI)
    fix q
    show "p_state (((procs (psh g))(p := r)) q) = RUNNING \<longleftrightarrow>
        (\<exists>d. curproc (((pcpus g)(c := cpu s)) d) = Some q)"
    proof (cases "q = p")
      case True
      then show ?thesis using on by (auto intro: exI [of _ c])
    next
      case False
      then have "curproc (((pcpus g)(c := cpu s)) d) = Some q \<longleftrightarrow> curproc (pcpus g d) = Some q" for d
        using on(1,2) by simp
      then show ?thesis using False inv by (simp add: pinv_def)
    qed
  next
    fix d e q
    assume "curproc (((pcpus g)(c := cpu s)) d) = Some q" "curproc (((pcpus g)(c := cpu s)) e) = Some q"
    then show "d = e" using on(2) no inv by (auto simp: pinv_def split: if_splits)
  qed
next
  case (off r p)
  then have only: "curproc (pcpus g d) = Some p \<longleftrightarrow> d = c" for d using inv by (auto simp: pinv_def)
  show ?thesis
    unfolding pinv_def pput_simps off
  proof (intro conjI allI impI)
    fix q
    show "p_state (((procs (psh g))(p := r)) q) = RUNNING \<longleftrightarrow>
        (\<exists>d. curproc (((pcpus g)(c := cpu s)) d) = Some q)"
    proof (cases "q = p")
      case True
      then show ?thesis using off only by auto
    next
      case False
      then have "curproc (((pcpus g)(c := cpu s)) d) = Some q \<longleftrightarrow> curproc (pcpus g d) = Some q" for d
        using off(1,2) by simp
      then show ?thesis using False inv by (simp add: pinv_def)
    qed
  next
    fix d e q
    assume "curproc (((pcpus g)(c := cpu s)) d) = Some q" "curproc (((pcpus g)(c := cpu s)) e) = Some q"
    then show "d = e" using off(2) inv by (auto simp: pinv_def split: if_splits)
  qed
qed

lemma pstep_inv: "pstep g h \<Longrightarrow> pinv g \<Longrightarrow> pinv h"
  using pstep_moves pmove_inv by blast

lemma preach_inv: "pstep\<^sup>*\<^sup>* g h \<Longrightarrow> pinv g \<Longrightarrow> pinv h"
  by (induction rule: rtranclp_induct) (auto intro: pstep_inv)

text \<open>C5. However many CPUs schedule, yield, sleep, wake, kill, fork, exit and reap processes, in any
  order, a process is never current on two CPUs, and it is in state \<open>RUNNING\<close> exactly when some CPU
  has it as its current process.\<close>

theorem one_cpu_per_process:
  assumes "pstep\<^sup>*\<^sup>* g0 g" and "\<forall>c. curproc (pcpus g0 c) = None"
    and "\<forall>p. p_state (procs (psh g0) p) \<noteq> RUNNING"
  shows "(p_state (procs (psh g) p) = RUNNING \<longleftrightarrow> (\<exists>c. curproc (pcpus g c) = Some p)) \<and>
    (\<forall>c d. curproc (pcpus g c) = Some p \<longrightarrow> curproc (pcpus g d) = Some p \<longrightarrow> c = d)"
proof -
  have "pinv g0" using assms(2,3) by (simp add: pinv_def)
  from preach_inv [OF assms(1) this] show ?thesis by (simp add: pinv_def)
qed

definition psys_demo :: psys where
  "psys_demo = \<lparr>pcpus = (\<lambda>c. demo_cpu c None),
     psh = demo_sched\<lparr>procs := (\<lambda>_. demo_proc UNUSED 0)(3 := demo_proc RUNNABLE 7)\<rparr>\<rparr>"

lemma psys_demo_step:
  "\<exists>s t. enter_sched 0 (pview 0 psys_demo) = Ret (Some 3) s \<and> yield_resume True s = Ret () t \<and>
     curproc (cpu t) = Some 3"
proof -
  have f: "find (\<lambda>i. i = 3) [0..<64] = Some (3 :: nat)" by (simp add: find_first_Some)
  have "\<exists>s. enter_sched 0 (pview 0 psys_demo) = Ret (Some 3) s \<and> \<not> fl_if (cpu s) \<and>
      ncli (cpu s) = 1 \<and> curproc (cpu s) = Some 3 \<and> locks s Lk_ptable = held_by 0 \<and> cpu_id (cpu s) = 0"
    by (simp add: enter_sched_def scheduler_start_def scheduler_scan_def scheduler_run_def sti_def
        switchuvm_def pushcli_run popcli_run psys_demo_def pview_def demo_sched_def demo_cpu_def
        acquire_run holding_def pushed_def popped_def bnd_def NPROC_def f myproc_def demo_proc_def
        whenk_def lcr3_def held_by_def)
  then obtain s where s: "enter_sched 0 (pview 0 psys_demo) = Ret (Some 3) s" "\<not> fl_if (cpu s)"
    "ncli (cpu s) = 1" "curproc (cpu s) = Some 3" "locks s Lk_ptable = held_by 0" "cpu_id (cpu s) = 0"
    by blast
  then show ?thesis
    by - (rule exI [of _ s], simp add: yield_resume_def sched_resume_def bnd_def release_run holding_def)
qed

theorem one_cpu_per_process_witness:
  "\<exists>g. pstep\<^sup>*\<^sup>* psys_demo g \<and> curproc (pcpus g 0) = Some 3 \<and> p_state (procs (psh g) 3) = RUNNING \<and>
     curproc (pcpus g 1) = None"
proof -
  from psys_demo_step obtain s t where
    st: "enter_sched 0 (pview 0 psys_demo) = Ret (Some 3) s" "yield_resume True s = Ret () t"
      "curproc (cpu t) = Some 3" by blast
  have "pstep psys_demo (pput 0 t psys_demo)"
    by (rule pstep.run [OF _ st(1,2)]) (simp add: psys_demo_def demo_cpu_def)
  then have r: "pstep\<^sup>*\<^sup>* psys_demo (pput 0 t psys_demo)" by blast
  have i: "\<forall>c. curproc (pcpus psys_demo c) = None" "\<forall>p. p_state (procs (psh psys_demo) p) \<noteq> RUNNING"
    by (simp_all add: psys_demo_def demo_cpu_def demo_proc_def)
  have c: "curproc (pcpus (pput 0 t psys_demo) 0) = Some 3" using st(3) by simp
  have n: "curproc (pcpus (pput 0 t psys_demo) 1) = None" by (simp add: psys_demo_def demo_cpu_def)
  have "p_state (procs (psh (pput 0 t psys_demo)) 3) = RUNNING"
    using one_cpu_per_process [OF r i, of 3] c by blast
  with r c n show ?thesis by blast
qed

section \<open>Kill\<close>

lemma kill_run:
  assumes "idle Lk_ptable s" and "cpu_ok (cpu s)"
  shows "kill n s = (case find (\<lambda>i. p_pid (procs s i) = n) [0..<NPROC] of
      None \<Rightarrow> Ret (-1) (s\<lparr>cpu := settle (cpu s)\<rparr>)
    | Some p \<Rightarrow> Ret 0 (s\<lparr>cpu := settle (cpu s), procs := (procs s)(p := (procs s p)\<lparr>p_killed := True,
        p_state := (if p_state (procs s p) = SLEEPING then RUNNABLE else p_state (procs s p))\<rparr>)\<rparr>))"
  using assms
  by (cases "find (\<lambda>i. p_pid (procs s i) = n) [0..<NPROC]")
    (auto simp: kill_def bnd_def lock_run whenk_def)



text \<open>C34. A pid of 0 is not rejected: slots that are free have pid 0, so \<open>kill(0)\<close> succeeds on the first
  of them and leaves it marked killed; \<open>allocproc\<close> then hands out that slot still marked, and the
  process created in it is killed as soon as it enters the kernel.\<close>

theorem kill_zero_dooms_next_process:
  assumes "idle Lk_ptable s" and "cpu_ok (cpu s)"
    and "p < NPROC" and "p_state (procs s p) = UNUSED" and "p_pid (procs s p) = 0"
    and "\<forall>q < p. p_pid (procs s q) \<noteq> 0 \<and> p_state (procs s q) \<noteq> UNUSED"
  shows "\<exists>t. kill 0 s = Ret 0 t \<and>
    (\<forall>q u. allocproc t = Ret (Some q) u \<longrightarrow> q = p \<and> p_killed (procs u q))"
proof -
  have f: "find (\<lambda>i. p_pid (procs s i) = 0) [0..<NPROC] = Some p"
    using assms(3,5,6) by (simp add: find_first_Some)
  define t where "t = s\<lparr>cpu := settle (cpu s), procs := (procs s)(p := (procs s p)\<lparr>p_killed := True,
    p_state := UNUSED\<rparr>)\<rparr>"
  have k: "kill 0 s = Ret 0 t"
    using kill_run [OF assms(1,2), of 0] f assms(4) by (simp add: t_def)
  have "q = p \<and> p_killed (procs u q)" if a: "allocproc t = Ret (Some q) u" for q u
  proof -
    have "find (\<lambda>i. p_state (procs t i) = UNUSED) [0..<NPROC] = Some p"
      using assms(3,4,6) by (simp add: find_first_Some t_def)
    with a have "q = p"
      unfolding allocproc_def by (auto elim!: bnd_RetE simp: Let_def split: if_splits)
    then show ?thesis using allocproc_Ret [OF a] by (auto simp: t_def)
  qed
  with k show ?thesis by blast
qed

theorem kill_zero_dooms_next_process_witness:
  "\<exists>t. kill 0 demo_sched = Ret 0 t \<and> procs t 0 = (demo_proc UNUSED 0)\<lparr>p_killed := True\<rparr>"
proof -
  have h: "idle Lk_ptable demo_sched" "cpu_ok (cpu demo_sched)" "0 < NPROC"
    "p_state (procs demo_sched 0) = UNUSED" "p_pid (procs demo_sched 0) = 0"
    "\<forall>q < 0. p_pid (procs demo_sched q) \<noteq> 0 \<and> p_state (procs demo_sched q) \<noteq> UNUSED"
    by (simp_all add: demo_sched_def demo_cpu_def demo_proc_def cpu_ok_def NPROC_def)
  from kill_zero_dooms_next_process [OF h] obtain t where t: "kill 0 demo_sched = Ret 0 t" by blast
  have "find (\<lambda>i. p_pid (procs demo_sched i) = 0) [0..<NPROC] = Some 0"
    using h by (simp add: find_first_Some)
  with t kill_run [OF h(1,2), of 0] h(4) show ?thesis by (simp add: demo_sched_def demo_proc_def)
qed

section \<open>The scheduler serves everyone\<close>

text \<open>A stretch of one CPU's scheduler loop: from slot \<open>k\<close> it dispatches the listed slots in order; \<open>q\<close>
  is a process that stays runnable while the others run.\<close>

inductive serves :: "nat \<Rightarrow> nat \<Rightarrow> sched_state \<Rightarrow> nat list \<Rightarrow> nat \<Rightarrow> sched_state \<Rightarrow> bool" for q where
  nothing: "serves q k s [] k s"
| dispatch: "scheduler_scan k s = Ret (Some p) t \<Longrightarrow> p \<noteq> q \<Longrightarrow> p_state (procs u q) = RUNNABLE \<Longrightarrow>
    serves q (Suc p) u ps k' s' \<Longrightarrow> serves q k s (p # ps) k' s'"

lemma scan_least:
  assumes "scheduler_scan k s = Ret (Some p) t"
  shows "k \<le> p \<and> p < NPROC \<and> (\<forall>i. k \<le> i \<longrightarrow> i < p \<longrightarrow> p_state (procs s i) \<noteq> RUNNABLE)"
proof -
  from assms have "find (\<lambda>i. p_state (procs s i) = RUNNABLE) [k..<NPROC] = Some p"
    by (auto simp: scheduler_scan_def elim!: bnd_RetE split: option.splits)
  then obtain i where i: "i < NPROC - k" "p = k + i" "\<forall>j < i. p_state (procs s (k + j)) \<noteq> RUNNABLE"
    by (auto simp: find_Some_iff)
  have "p_state (procs s j) \<noteq> RUNNABLE" if "k \<le> j" "j < p" for j
    using i(3) [rule_format, of "j - k"] that i(2) by simp
  with i show ?thesis by auto
qed


definition rr_demo :: sched_state where
  "rr_demo = demo_sched\<lparr>procs := (\<lambda>_. demo_proc UNUSED 0)(3 := demo_proc RUNNABLE 7)\<rparr>"


end
