(* ===== verification/Proc.thy ===== *)
theory Proc
  imports File Sched_Safety
begin

text \<open>
  The process system calls of \<open>proc.c\<close>: \<open>userinit\<close>, \<open>growproc\<close>, \<open>fork\<close>, \<open>exit\<close>, \<open>wait\<close> and \<open>forkret\<close>, over the
  process table of \<open>Sched\<close>, the file table and the inode cache. Trap frames are in kernel memory, at their offsets.
\<close>

section \<open>State\<close>

definition NOFILE :: nat where "NOFILE = 16"
definition SEG_UCODE :: nat where "SEG_UCODE = 4"
definition SEG_UDATA :: nat where "SEG_UDATA = 5"
definition DPL_USER :: nat where "DPL_USER = 3"
definition FL_IF :: uint where "FL_IF = 0x200"

text \<open>The static \<open>first\<close> of \<open>forkret\<close>, the linker's symbols for the code of the first process, and what the kernel
  stack holds where \<open>exec\<close> places its local \<open>elf\<close>.\<close>

record proc_state = file_state +
  fork_first :: bool
  k_initcode :: uint
  k_initcode_size :: uint
  stack_junk :: "byte list"

text \<open>Offsets of the fields of \<open>struct trapframe\<close> the kernel uses.\<close>

definition TF_eax :: uint where "TF_eax = 28"
definition TF_es :: uint where "TF_es = 40"
definition TF_ds :: uint where "TF_ds = 44"
definition TF_trapno :: uint where "TF_trapno = 48"
definition TF_err :: uint where "TF_err = 52"
definition TF_eip :: uint where "TF_eip = 56"
definition TF_cs :: uint where "TF_cs = 60"
definition TF_eflags :: uint where "TF_eflags = 64"
definition TF_esp :: uint where "TF_esp = 68"
definition TF_ss :: uint where "TF_ss = 72"

definition put32 :: "uint \<Rightarrow> uint \<Rightarrow> ('z kmem_state_scheme, unit) kern" where
  "put32 a w = modify (\<lambda>s. s\<lparr>mem := store32 (mem s) a w\<rparr>)"

definition put16 :: "uint \<Rightarrow> nat \<Rightarrow> ('z kmem_state_scheme, unit) kern" where
  "put16 a w = modify (\<lambda>s. s\<lparr>mem := write_bytes (mem s) a (le16 (of_nat w))\<rparr>)"

text \<open>A string literal as the bytes of a C string.\<close>

definition lit :: "string \<Rightarrow> byte list" where
  "lit s = map of_char s"

section \<open>Operations\<close>

text \<open>With the process table full at boot, \<open>userinit\<close> writes through a null pointer.\<close>

definition userinit :: "('z proc_state_scheme, unit) kern" where
  "userinit =
     bnd (acquire Lk_ptable) (\<lambda>_.
     bnd allocproc (\<lambda>np.
     bnd (modify (\<lambda>s. s\<lparr>initproc := np\<rparr>)) (\<lambda>_.
     case np of
       None \<Rightarrow> kpanic ''trap''
     | Some p \<Rightarrow>
         bnd setupkvm (\<lambda>pgdir.
         bnd (upd_proc p (\<lambda>r. r\<lparr>p_pgdir := pgdir\<rparr>)) (\<lambda>_.
         bnd (whenk (pgdir = 0) (kpanic ''userinit: out of memory?'')) (\<lambda>_.
         bnd (\<lambda>s. inituvm pgdir (k_initcode s) (k_initcode_size s) s) (\<lambda>_.
         bnd (upd_proc p (\<lambda>r. r\<lparr>p_sz := PGSIZE\<rparr>)) (\<lambda>_.
         bnd (gets (\<lambda>s. p_tf (procs s p))) (\<lambda>tf.
         bnd (block [
           modify (\<lambda>s. s\<lparr>mem := memset (mem s) tf 0 sizeof_trapframe\<rparr>),
           put16 (tf + TF_cs) (SEG_UCODE * 8 + DPL_USER),
           put16 (tf + TF_ds) (SEG_UDATA * 8 + DPL_USER),
           put16 (tf + TF_es) (SEG_UDATA * 8 + DPL_USER),
           put16 (tf + TF_ss) (SEG_UDATA * 8 + DPL_USER),
           put32 (tf + TF_eflags) FL_IF,
           put32 (tf + TF_esp) PGSIZE,
           put32 (tf + TF_eip) 0,
           upd_proc p (\<lambda>r. r\<lparr>p_name := safestrcpy_bytes (p_name r) (cstr (lit ''initcode''))\<rparr>)]) (\<lambda>_.
         bnd (namei (lit ''/'')) (\<lambda>cwd. block [
           upd_proc p (\<lambda>r. r\<lparr>p_cwd := cwd\<rparr>),
           upd_proc p (\<lambda>r. r\<lparr>p_state := RUNNABLE\<rparr>),
           release Lk_ptable])))))))))))"

definition growproc :: "uint \<Rightarrow> ('z sched_state_scheme, int) kern" where
  "growproc n =
     bnd myproc (\<lambda>p.
     bnd (gets (\<lambda>s. procs s p)) (\<lambda>r.
     let fin = (\<lambda>sz. bnd (upd_proc p (\<lambda>r. r\<lparr>p_sz := sz\<rparr>)) (\<lambda>_. bnd (switchuvm p) (\<lambda>_. ret 0))) in
     if sint n > 0 then
       bnd (allocuvm (p_pgdir r) (p_sz r) (p_sz r + n)) (\<lambda>sz. if sz = 0 then ret (-1) else fin sz)
     else if sint n < 0 then
       bnd (deallocuvm (p_pgdir r) (p_sz r) (p_sz r + n)) (\<lambda>sz. if sz = 0 then ret (-1) else fin sz)
     else fin (p_sz r)))"

text \<open>The copies of the open files and of the current directory in \<open>fork\<close>.\<close>

definition fork_ofile :: "nat \<Rightarrow> nat \<Rightarrow> nat \<Rightarrow> ('z file_state_scheme, unit) kern" where
  "fork_ofile p np i =
     bnd (gets (\<lambda>s. p_ofile (procs s p) i)) (\<lambda>fo.
     case fo of
       None \<Rightarrow> skip
     | Some f \<Rightarrow> bnd (filedup f) (\<lambda>f. upd_proc np (\<lambda>r. r\<lparr>p_ofile := (p_ofile r)(i := Some f)\<rparr>)))"

definition fork_cwd :: "nat \<Rightarrow> nat \<Rightarrow> ('z file_state_scheme, unit) kern" where
  "fork_cwd p np =
     bnd (gets (\<lambda>s. p_cwd (procs s p))) (\<lambda>cwd.
     case cwd of
       None \<Rightarrow> kpanic ''trap''
     | Some ip \<Rightarrow> bnd (idup ip) (\<lambda>ip. upd_proc np (\<lambda>r. r\<lparr>p_cwd := Some ip\<rparr>)))"

definition fork :: "('z file_state_scheme, int) kern" where
  "fork =
     bnd myproc (\<lambda>p.
     bnd (acquire Lk_ptable) (\<lambda>_.
     bnd allocproc (\<lambda>npo.
     case npo of
       None \<Rightarrow> bnd (release Lk_ptable) (\<lambda>_. ret (-1))
     | Some np \<Rightarrow>
         bnd (\<lambda>s. copyuvm (p_pgdir (procs s p)) (p_sz (procs s p)) s) (\<lambda>pgdir.
         bnd (upd_proc np (\<lambda>r. r\<lparr>p_pgdir := pgdir\<rparr>)) (\<lambda>_.
         if pgdir = 0 then
           bnd (\<lambda>s. kfree (p_kstack (procs s np)) s) (\<lambda>_.
           bnd (upd_proc np (\<lambda>r. r\<lparr>p_kstack := 0\<rparr>)) (\<lambda>_.
           bnd (upd_proc np (\<lambda>r. r\<lparr>p_state := UNUSED\<rparr>)) (\<lambda>_.
           bnd (release Lk_ptable) (\<lambda>_.
           ret (-1)))))
         else
           bnd (block [
             \<lambda>s. upd_proc np (\<lambda>r. r\<lparr>p_sz := p_sz (procs s p)\<rparr>) s,
             upd_proc np (\<lambda>r. r\<lparr>p_parent := Some p\<rparr>),
             modify (\<lambda>s. s\<lparr>mem := write_bytes (mem s) (p_tf (procs s np))
               (read_bytes (mem s) (p_tf (procs s p)) (unat sizeof_trapframe))\<rparr>),
             \<lambda>s. put32 (p_tf (procs s np) + TF_eax) 0 s,
             foreach (fork_ofile p np) [0..<NOFILE],
             fork_cwd p np,
             \<lambda>s. upd_proc np (\<lambda>r. r\<lparr>p_name := safestrcpy_bytes (p_name r) (cstr (p_name (procs s p)))\<rparr>) s]) (\<lambda>_.
           bnd (gets (\<lambda>s. p_pid (procs s np))) (\<lambda>pid.
           bnd (fork_commit np) (\<lambda>_.
           bnd (release Lk_ptable) (\<lambda>_.
           ret (sint pid))))))))))"

definition wakeup1_proc :: "nat option \<Rightarrow> ('z sched_state_scheme, unit) kern" where
  "wakeup1_proc po = (case po of None \<Rightarrow> skip | Some p \<Rightarrow> wakeup1 (Ch_proc p))"

text \<open>The loop of \<open>exit\<close> that hands child \<open>i\<close> over to init.\<close>

definition exit_reparent :: "nat \<Rightarrow> nat \<Rightarrow> ('z sched_state_scheme, unit) kern" where
  "exit_reparent p i s = whenk (p_parent (procs s i) = Some p) (block [
     \<lambda>s. upd_proc i (\<lambda>r. r\<lparr>p_parent := initproc s\<rparr>) s,
     \<lambda>s. whenk (p_state (procs s i) = ZOMBIE) (wakeup1_proc (initproc s)) s]) s"

definition exit_close :: "nat \<Rightarrow> nat \<Rightarrow> ('z file_state_scheme, unit) kern" where
  "exit_close p fd s = (case p_ofile (procs s p) fd of
      None \<Rightarrow> skip
    | Some f \<Rightarrow> block [fileclose f, upd_proc p (\<lambda>r. r\<lparr>p_ofile := (p_ofile r)(fd := None)\<rparr>)]) s"

definition exit :: "('z file_state_scheme, 'a) kern" where
  "exit =
     bnd myproc (\<lambda>p.
     bnd (block [
       \<lambda>s. whenk (initproc s = Some p) (kpanic ''init exiting'') s,
       foreach (exit_close p) [0..<NOFILE],
       begin_op,
       \<lambda>s. (case p_cwd (procs s p) of None \<Rightarrow> kpanic ''trap'' | Some ip \<Rightarrow> iput ip) s,
       end_op,
       upd_proc p (\<lambda>r. r\<lparr>p_cwd := None\<rparr>),
       acquire Lk_ptable,
       \<lambda>s. wakeup1_proc (p_parent (procs s p)) s,
       foreach (exit_reparent p) [0..<NPROC]]) (\<lambda>_.
     exit_zombie))"

text \<open>\<open>wait\<close>: one turn of its loop, with \<open>ptable.lock\<close> held.\<close>

definition wait_loop :: "('z sched_state_scheme, int) kern" where
  "wait_loop =
     bnd myproc (\<lambda>me.
     bnd (gets (\<lambda>s. find (\<lambda>i. p_parent (procs s i) = Some me \<and> p_state (procs s i) = ZOMBIE) [0..<NPROC])) (\<lambda>found.
     case found of
       Some p \<Rightarrow>
         bnd (gets (\<lambda>s. p_pid (procs s p))) (\<lambda>pid.
         bnd (\<lambda>s. kfree (p_kstack (procs s p)) s) (\<lambda>_.
         bnd (upd_proc p (\<lambda>r. r\<lparr>p_kstack := 0\<rparr>)) (\<lambda>_.
         bnd (\<lambda>s. freevm (p_pgdir (procs s p)) s) (\<lambda>_.
         bnd (wait_reap p) (\<lambda>_.
         bnd (release Lk_ptable) (\<lambda>_.
         ret (sint pid)))))))
     | None \<Rightarrow>
         bnd (gets (\<lambda>s. list_all (\<lambda>i. p_parent (procs s i) \<noteq> Some me) [0..<NPROC] \<or> p_killed (procs s me))) (\<lambda>quit.
         if quit then bnd (release Lk_ptable) (\<lambda>_. ret (-1))
         else sleep (Ch_proc me) (Some Lk_ptable))))"

definition wait :: "('z sched_state_scheme, int) kern" where
  "wait = bnd (acquire Lk_ptable) (\<lambda>_. wait_loop)"

definition wait_resume :: "bool \<Rightarrow> ('z sched_state_scheme, int) kern" where
  "wait_resume v = bnd (sleep_resume v Lk_ptable) (\<lambda>_. wait_loop)"

definition forkret :: "('z proc_state_scheme, unit) kern" where
  "forkret = block [
     release Lk_ptable,
     \<lambda>s. whenk (fork_first s) (block [
       modify (\<lambda>s. s\<lparr>fork_first := False\<rparr>),
       iinit ROOTDEV,
       initlog ROOTDEV]) s]"

end
