(* ===== verification/Sysarg.thy ===== *)
theory Sysarg
  imports Proc
begin

text \<open>
  System call arguments (\<open>syscall.c\<close>) and the process system calls (\<open>sysproc.c\<close>).

  The kernel reads and writes user memory through the page table in \<open>cr3\<close>; \<open>mmu\<close> is what the hardware does with an
  address. An address that is not mapped faults, and a fault in the kernel makes \<open>trap\<close> panic. A pointer argument
  comes back with the C result; a string argument is read when it is fetched (user memory cannot change before its
  use).
\<close>

section \<open>User memory\<close>

text \<open>The kernel address of user address \<open>va\<close>, for a read or a write by the kernel.\<close>

definition mmu :: "bool \<Rightarrow> 'z kmem_state_scheme \<Rightarrow> uint \<Rightarrow> uint option" where
  "mmu wr s va =
     (let need = (if wr then PTE_P OR PTE_W else PTE_P);
          pde = load32 (mem s) (P2V (cr3 (cpu s)) + 4 * PDX va);
          pte = load32 (mem s) (P2V (PTE_ADDR pde) + 4 * PTX va)
      in if pde AND need \<noteq> need \<or> pte AND need \<noteq> need then None
         else Some (P2V (PTE_ADDR pte) + (va AND 0xFFF)))"

definition uread :: "uint \<Rightarrow> ('z kmem_state_scheme, byte) kern" where
  "uread va s = (case mmu False s va of None \<Rightarrow> Panic ''trap'' | Some a \<Rightarrow> Ret (mem s a) s)"

definition uwrite1 :: "uint \<Rightarrow> byte \<Rightarrow> ('z kmem_state_scheme, unit) kern" where
  "uwrite1 va c s = (case mmu True s va of None \<Rightarrow> Panic ''trap'' | Some a \<Rightarrow> Ret () (s\<lparr>mem := (mem s)(a := c)\<rparr>))"

fun ureads :: "uint \<Rightarrow> nat \<Rightarrow> ('z kmem_state_scheme, byte list) kern" where
  "ureads va 0 = ret []"
| "ureads va (Suc n) = bnd (uread va) (\<lambda>c. bnd (ureads (va + 1) n) (\<lambda>cs. ret (c # cs)))"

fun uwrite :: "uint \<Rightarrow> byte list \<Rightarrow> ('z kmem_state_scheme, unit) kern" where
  "uwrite va [] = skip"
| "uwrite va (c # cs) = bnd (uwrite1 va c) (\<lambda>_. uwrite (va + 1) cs)"

section \<open>Arguments\<close>

definition fetchint :: "uint \<Rightarrow> ('z sched_state_scheme, uint option) kern" where
  "fetchint addr =
     bnd myproc (\<lambda>p.
     bnd (gets (\<lambda>s. p_sz (procs s p))) (\<lambda>sz.
     if addr \<ge> sz \<or> addr + 4 > sz then ret None
     else bnd (ureads addr 4) (\<lambda>bs. ret (Some (de32 bs)))))"

text \<open>\<open>fetchstr\<close>: the loop from \<open>s\<close> up to \<open>ep\<close>; \<open>None\<close> is the result -1, otherwise the string without its NUL.\<close>

definition fetchstr_step :: "uint \<times> byte list \<times> bool \<Rightarrow> ('z kmem_state_scheme, uint \<times> byte list \<times> bool) kern" where
  "fetchstr_step = (\<lambda>(s, acc, _).
     bnd (uread s) (\<lambda>c. ret (if c = 0 then (s, acc, True) else (s + 1, acc @ [c], False))))"

definition fetchstr :: "uint \<Rightarrow> ('z sched_state_scheme, byte list option) kern" where
  "fetchstr addr =
     bnd myproc (\<lambda>p.
     bnd (gets (\<lambda>s. p_sz (procs s p))) (\<lambda>ep.
     if addr \<ge> ep then ret None
     else
       bnd (kwhile (\<lambda>(s, _, found) _. \<not> found \<and> s < ep) fetchstr_step (addr, [], False)) (\<lambda>(_, acc, found).
       ret (if found then Some acc else None))))"

definition argint :: "nat \<Rightarrow> ('z sched_state_scheme, uint option) kern" where
  "argint n =
     bnd myproc (\<lambda>p.
     bnd (gets (\<lambda>s. load32 (mem s) (p_tf (procs s p) + TF_esp))) (\<lambda>esp.
     fetchint (esp + 4 + 4 * of_nat n)))"

definition argptr :: "nat \<Rightarrow> uint \<Rightarrow> ('z sched_state_scheme, uint option) kern" where
  "argptr n len =
     bnd (argint n) (\<lambda>r.
     case r of
       None \<Rightarrow> ret None
     | Some i \<Rightarrow>
         bnd myproc (\<lambda>p.
         bnd (gets (\<lambda>s. p_sz (procs s p))) (\<lambda>sz.
         ret (if i \<ge> sz \<or> i + len > sz then None else Some i))))"

definition argstr :: "nat \<Rightarrow> ('z sched_state_scheme, byte list option) kern" where
  "argstr n = bnd (argint n) (\<lambda>r. case r of None \<Rightarrow> ret None | Some addr \<Rightarrow> fetchstr addr)"

section \<open>Process system calls\<close>

definition sys_fork :: "('z file_state_scheme, int) kern" where
  "sys_fork = fork"

definition sys_exit :: "('z file_state_scheme, int) kern" where
  "sys_exit = exit"

definition sys_wait :: "('z sched_state_scheme, int) kern" where
  "sys_wait = wait"

definition sys_kill :: "('z sched_state_scheme, int) kern" where
  "sys_kill = bnd (argint 0) (\<lambda>r. case r of None \<Rightarrow> ret (-1) | Some pid \<Rightarrow> kill pid)"

definition sys_getpid :: "('z sched_state_scheme, int) kern" where
  "sys_getpid = bnd myproc (\<lambda>p. gets (\<lambda>s. sint (p_pid (procs s p))))"

definition sys_sbrk :: "('z sched_state_scheme, int) kern" where
  "sys_sbrk =
     bnd (argint 0) (\<lambda>r.
     case r of
       None \<Rightarrow> ret (-1)
     | Some n \<Rightarrow>
         bnd myproc (\<lambda>p.
         bnd (gets (\<lambda>s. p_sz (procs s p))) (\<lambda>addr.
         bnd (growproc n) (\<lambda>g.
         ret (if g < 0 then -1 else sint addr)))))"

text \<open>The comparison of \<open>sys_sleep\<close> is between unsigned integers. A sleeper that was woken goes on with
  \<open>sys_sleep_resume\<close>.\<close>

definition sys_sleep_loop :: "uint \<Rightarrow> uint \<Rightarrow> ('z sched_state_scheme, int) kern" where
  "sys_sleep_loop ticks0 n s =
     (if ticks s - ticks0 < n then
        bnd myproc (\<lambda>p.
        bnd (gets (\<lambda>s. p_killed (procs s p))) (\<lambda>killed.
        if killed then bnd (release Lk_ticks) (\<lambda>_. ret (-1))
        else sleep Ch_ticks (Some Lk_ticks))) s
      else bnd (release Lk_ticks) (\<lambda>_. ret 0) s)"

definition sys_sleep :: "('z sched_state_scheme, int) kern" where
  "sys_sleep =
     bnd (argint 0) (\<lambda>r.
     case r of
       None \<Rightarrow> ret (-1)
     | Some n \<Rightarrow>
         bnd (acquire Lk_ticks) (\<lambda>_.
         bnd (gets ticks) (\<lambda>ticks0.
         sys_sleep_loop ticks0 n)))"

definition sys_sleep_resume :: "bool \<Rightarrow> uint \<Rightarrow> uint \<Rightarrow> ('z sched_state_scheme, int) kern" where
  "sys_sleep_resume v ticks0 n = bnd (sleep_resume v Lk_ticks) (\<lambda>_. sys_sleep_loop ticks0 n)"

definition sys_uptime :: "('z sched_state_scheme, int) kern" where
  "sys_uptime =
     bnd (acquire Lk_ticks) (\<lambda>_.
     bnd (gets ticks) (\<lambda>xticks.
     bnd (release Lk_ticks) (\<lambda>_.
     ret (sint xticks))))"

end
