(* ===== verification/Exec.thy ===== *)
theory Exec
  imports Sysarg
begin

text \<open>
  Loading programs: \<open>loaduvm\<close> of \<open>vm.c\<close> and \<open>exec.c\<close>. The ELF structures are read at their byte offsets. The code
  after the label \<open>bad\<close> is \<open>exec_bad\<close>.
\<close>

section \<open>loaduvm\<close>

text \<open>The loop carries \<open>i\<close> and whether it returned -1. The code reads \<open>*pte\<close> only after \<open>walkpgdir\<close> found one.\<close>

definition loaduvm_page :: "uint \<Rightarrow> uint \<Rightarrow> nat \<Rightarrow> uint \<Rightarrow> uint \<Rightarrow> uint \<times> bool \<Rightarrow>
    ('z cons_state_scheme, uint \<times> bool) kern" where
  "loaduvm_page pgdir addr ip off sz = (\<lambda>(i, _).
     bnd (walkpgdir pgdir (addr + i) False) (\<lambda>pte.
     bnd (whenk (pte = 0) (kpanic ''loaduvm: address should exist'')) (\<lambda>_.
     bnd (gets (\<lambda>s. PTE_ADDR (load32 (mem s) pte))) (\<lambda>pa.
     let n = (if sz - i < PGSIZE then sz - i else PGSIZE) in
     bnd (readi ip (off + i) n) (\<lambda>(r, bs).
     bnd (modify (\<lambda>s. s\<lparr>mem := write_bytes (mem s) (P2V pa) bs\<rparr>)) (\<lambda>_.
     ret (if word_of_int r \<noteq> n then (i, True) else (i + PGSIZE, False))))))))"

definition loaduvm :: "uint \<Rightarrow> uint \<Rightarrow> nat \<Rightarrow> uint \<Rightarrow> uint \<Rightarrow> ('z cons_state_scheme, int) kern" where
  "loaduvm pgdir addr ip off sz =
     bnd (whenk (addr mod PGSIZE \<noteq> 0) (kpanic ''loaduvm: addr must be page aligned'')) (\<lambda>_.
     bnd (kwhile (\<lambda>(i, failed) _. \<not> failed \<and> i < sz) (loaduvm_page pgdir addr ip off sz) (0, False)) (\<lambda>(_, failed).
     ret (if failed then -1 else 0)))"

section \<open>exec\<close>

definition ELF_MAGIC :: uint where "ELF_MAGIC = 0x464C457F"
definition MAXARG :: nat where "MAXARG = 32"

text \<open>The sizes of \<open>struct elfhdr\<close> and \<open>struct proghdr\<close>, and the fields \<open>exec\<close> reads.\<close>

definition sizeof_elfhdr :: nat where "sizeof_elfhdr = 52"
definition sizeof_proghdr :: nat where "sizeof_proghdr = 32"

definition elf_magic :: "byte list \<Rightarrow> uint" where "elf_magic e = rd32 e 0"
definition elf_entry :: "byte list \<Rightarrow> uint" where "elf_entry e = rd32 e 24"
definition elf_phoff :: "byte list \<Rightarrow> uint" where "elf_phoff e = rd32 e 28"
definition elf_phnum :: "byte list \<Rightarrow> nat" where "elf_phnum e = unat (rd16 e 44)"

definition ph_type :: "byte list \<Rightarrow> uint" where "ph_type h = rd32 h 0"
definition ph_off :: "byte list \<Rightarrow> uint" where "ph_off h = rd32 h 4"
definition ph_vaddr :: "byte list \<Rightarrow> uint" where "ph_vaddr h = rd32 h 8"
definition ph_filesz :: "byte list \<Rightarrow> uint" where "ph_filesz h = rd32 h 16"
definition ph_memsz :: "byte list \<Rightarrow> uint" where "ph_memsz h = rd32 h 20"

definition exec_bad :: "uint \<Rightarrow> nat option \<Rightarrow> ('z cons_state_scheme, int) kern" where
  "exec_bad pgdir ipo =
     bnd (whenk (pgdir \<noteq> 0) (freevm pgdir)) (\<lambda>_.
     bnd (case ipo of None \<Rightarrow> skip | Some ip \<Rightarrow> block [iunlockput ip, end_op]) (\<lambda>_.
     ret (-1)))"

text \<open>The loop over the program headers with \<open>k\<close> of them left: the new \<open>sz\<close>, or \<open>None\<close> for \<open>goto bad\<close>.\<close>

fun exec_load :: "uint \<Rightarrow> nat \<Rightarrow> nat \<Rightarrow> uint \<Rightarrow> uint \<Rightarrow> ('z cons_state_scheme, uint option) kern" where
  "exec_load pgdir ip 0 off sz = ret (Some sz)"
| "exec_load pgdir ip (Suc k) off sz =
     bnd (readi ip off (of_nat sizeof_proghdr)) (\<lambda>(r, ph).
     if r \<noteq> int sizeof_proghdr then ret None
     else if ph_type ph \<noteq> 1 then exec_load pgdir ip k (off + of_nat sizeof_proghdr) sz
     else if ph_memsz ph < ph_filesz ph then ret None
     else if ph_vaddr ph + ph_memsz ph < ph_vaddr ph then ret None
     else
       bnd (allocuvm pgdir sz (ph_vaddr ph + ph_memsz ph)) (\<lambda>sz'.
       if sz' = 0 then ret None
       else if ph_vaddr ph mod PGSIZE \<noteq> 0 then ret None
       else
         bnd (loaduvm pgdir (ph_vaddr ph) ip (ph_off ph) (ph_filesz ph)) (\<lambda>l.
         if l < 0 then ret None
         else exec_load pgdir ip k (off + of_nat sizeof_proghdr) sz')))"

text \<open>Pushing the argument strings: the stack pointer and the addresses of the strings, or \<open>None\<close> for \<open>goto bad\<close>.\<close>

fun exec_args :: "uint \<Rightarrow> byte list list \<Rightarrow> uint \<Rightarrow> uint list \<Rightarrow> ('z cons_state_scheme, (uint \<times> uint list) option) kern" where
  "exec_args pgdir [] usp ptrs = ret (Some (usp, ptrs))"
| "exec_args pgdir (a # argv) usp ptrs =
     (if length ptrs \<ge> MAXARG then ret None
      else
        let usp = (usp - (of_nat (length a) + 1)) AND NOT 3 in
        bnd (copyout pgdir usp (a @ [0])) (\<lambda>r.
        if r < 0 then ret None else exec_args pgdir argv usp (ptrs @ [usp])))"

definition exec_ustack :: "uint \<Rightarrow> uint list \<Rightarrow> uint list" where
  "exec_ustack usp ptrs = [0xffffffff, of_nat (length ptrs), usp - (of_nat (length ptrs) + 1) * 4] @ ptrs @ [0]"

text \<open>The last component of the path, for \<open>proc->name\<close>.\<close>

definition path_last :: "byte list \<Rightarrow> byte list" where
  "path_last path = rev (takeWhile (\<lambda>c. c \<noteq> slash) (rev path))"

definition exec_commit :: "byte list \<Rightarrow> uint \<Rightarrow> uint \<Rightarrow> uint \<Rightarrow> uint \<Rightarrow> ('z cons_state_scheme, int) kern" where
  "exec_commit path pgdir sz entry usp =
     bnd myproc (\<lambda>p.
     bnd (gets (\<lambda>s. p_pgdir (procs s p))) (\<lambda>oldpgdir.
     bnd (block [
       upd_proc p (\<lambda>r. r\<lparr>p_name := safestrcpy_bytes (p_name r) (cstr (path_last path))\<rparr>),
       upd_proc p (\<lambda>r. r\<lparr>p_pgdir := pgdir\<rparr>),
       upd_proc p (\<lambda>r. r\<lparr>p_sz := sz\<rparr>),
       \<lambda>s. put32 (p_tf (procs s p) + TF_eip) entry s,
       \<lambda>s. put32 (p_tf (procs s p) + TF_esp) usp s,
       switchuvm p,
       freevm oldpgdir]) (\<lambda>_.
     ret 0)))"

text \<open>From the allocation of the stack on, when the inode is no longer held.\<close>

definition exec_stack :: "byte list \<Rightarrow> byte list list \<Rightarrow> uint \<Rightarrow> uint \<Rightarrow> uint \<Rightarrow> ('z cons_state_scheme, int) kern" where
  "exec_stack path argv pgdir sz0 entry =
     bnd (let sz = PGROUNDUP sz0 in allocuvm pgdir sz (sz + 2 * PGSIZE)) (\<lambda>sz.
     if sz = 0 then exec_bad pgdir None
     else
       bnd (clearpteu pgdir (sz - 2 * PGSIZE)) (\<lambda>_.
       bnd (exec_args pgdir argv sz []) (\<lambda>r.
       case r of
         None \<Rightarrow> exec_bad pgdir None
       | Some (usp, ptrs) \<Rightarrow>
           let ustack = exec_ustack usp ptrs; usp' = usp - (3 + of_nat (length ptrs) + 1) * 4 in
           bnd (copyout pgdir usp' (concat (map le32 ustack))) (\<lambda>c.
           if c < 0 then exec_bad pgdir None
           else exec_commit path pgdir sz entry usp'))))"

text \<open>The local \<open>elf\<close> starts out with the contents \<open>elf0\<close> of the kernel stack; \<open>readi\<close> fills as much as it returns.
  Its result is compared with \<open>sizeof(elf)\<close> as an unsigned integer.\<close>

definition exec :: "byte list \<Rightarrow> byte list \<Rightarrow> byte list list \<Rightarrow> ('z cons_state_scheme, int) kern" where
  "exec elf0 path argv =
     bnd begin_op (\<lambda>_.
     bnd (namei path) (\<lambda>ipo.
     case ipo of
       None \<Rightarrow> bnd end_op (\<lambda>_. ret (-1))
     | Some ip \<Rightarrow>
         bnd (ilock ip) (\<lambda>_.
         bnd (readi ip 0 (of_nat sizeof_elfhdr)) (\<lambda>(r, bs).
         let elf = splice elf0 0 bs in
         if (word_of_int r :: uint) < of_nat sizeof_elfhdr then exec_bad 0 (Some ip)
         else if elf_magic elf \<noteq> ELF_MAGIC then exec_bad 0 (Some ip)
         else
           bnd setupkvm (\<lambda>pgdir.
           if pgdir = 0 then exec_bad 0 (Some ip)
           else
             bnd (exec_load pgdir ip (elf_phnum elf) (elf_phoff elf) 0) (\<lambda>l.
             case l of
               None \<Rightarrow> exec_bad pgdir (Some ip)
             | Some sz \<Rightarrow>
                 bnd (iunlockput ip) (\<lambda>_.
                 bnd end_op (\<lambda>_.
                 exec_stack path argv pgdir sz (elf_entry elf)))))))))"

end
