(* ===== verification/Sysfile.thy ===== *)
theory Sysfile
  imports Exec
begin

text \<open>
  The file system calls (\<open>sysfile.c\<close>). A call that fails returns -1 on the paths where the code does; the code after a
  label \<open>bad\<close> is a definition of its own.
\<close>

section \<open>Descriptors\<close>

definition argfd :: "nat \<Rightarrow> ('z file_state_scheme, (nat \<times> nat) option) kern" where
  "argfd n =
     bnd (argint n) (\<lambda>r.
     case r of
       None \<Rightarrow> ret None
     | Some fd \<Rightarrow>
         if sint fd < 0 \<or> sint fd \<ge> int NOFILE then ret None
         else
           bnd myproc (\<lambda>p.
           bnd (gets (\<lambda>s. p_ofile (procs s p) (unat fd))) (\<lambda>fo.
           case fo of None \<Rightarrow> ret None | Some f \<Rightarrow> ret (Some (unat fd, f)))))"

definition set_ofile :: "nat \<Rightarrow> nat option \<Rightarrow> ('z sched_state_scheme, unit) kern" where
  "set_ofile fd fo = bnd myproc (\<lambda>p. upd_proc p (\<lambda>r. r\<lparr>p_ofile := (p_ofile r)(fd := fo)\<rparr>))"

definition fdalloc :: "nat \<Rightarrow> ('z file_state_scheme, int) kern" where
  "fdalloc f =
     bnd myproc (\<lambda>p.
     bnd (gets (\<lambda>s. find (\<lambda>fd. p_ofile (procs s p) fd = None) [0..<NOFILE])) (\<lambda>r.
     case r of
       None \<Rightarrow> ret (-1)
     | Some fd \<Rightarrow> bnd (set_ofile fd (Some f)) (\<lambda>_. ret (int fd))))"

definition sys_dup :: "('z file_state_scheme, int) kern" where
  "sys_dup =
     bnd (argfd 0) (\<lambda>r.
     case r of
       None \<Rightarrow> ret (-1)
     | Some (_, f) \<Rightarrow>
         bnd (fdalloc f) (\<lambda>fd.
         if fd < 0 then ret (-1)
         else bnd (filedup f) (\<lambda>_. ret fd)))"

text \<open>The three arguments of \<open>read\<close> and \<open>write\<close>, checked in the order of the code.\<close>

definition rw_args :: "('z file_state_scheme, (nat \<times> uint \<times> uint) option) kern" where
  "rw_args =
     bnd (argfd 0) (\<lambda>a.
     case a of
       None \<Rightarrow> ret None
     | Some (_, f) \<Rightarrow>
         bnd (argint 2) (\<lambda>b.
         case b of
           None \<Rightarrow> ret None
         | Some n \<Rightarrow>
             bnd (argptr 1 n) (\<lambda>c.
             case c of None \<Rightarrow> ret None | Some p \<Rightarrow> ret (Some (f, p, n)))))"

definition sys_read :: "('z file_state_scheme, int) kern" where
  "sys_read =
     bnd rw_args (\<lambda>a.
     case a of
       None \<Rightarrow> ret (-1)
     | Some (f, p, n) \<Rightarrow>
         bnd (fileread f (sint n)) (\<lambda>(r, bs).
         bnd (uwrite p bs) (\<lambda>_.
         ret r)))"

definition sys_write :: "('z file_state_scheme, int) kern" where
  "sys_write =
     bnd rw_args (\<lambda>a.
     case a of
       None \<Rightarrow> ret (-1)
     | Some (f, p, n) \<Rightarrow>
         bnd (ureads p (nat (sint n))) (\<lambda>bs.
         filewrite f bs (sint n)))"

definition sys_close :: "('z file_state_scheme, int) kern" where
  "sys_close =
     bnd (argfd 0) (\<lambda>a.
     case a of
       None \<Rightarrow> ret (-1)
     | Some (fd, f) \<Rightarrow>
         bnd (set_ofile fd None) (\<lambda>_.
         bnd (fileclose f) (\<lambda>_.
         ret 0)))"

text \<open>The fields of \<open>struct stat\<close> in user memory.\<close>

definition put_stat :: "uint \<Rightarrow> stat \<Rightarrow> ('z kmem_state_scheme, unit) kern" where
  "put_stat a st = block [
     uwrite (a + 4) (le32 (st_dev st)),
     uwrite (a + 8) (le32 (st_ino st)),
     uwrite a (le16 (st_type st)),
     uwrite (a + 12) (le16 (st_nlink st)),
     uwrite (a + 16) (le32 (st_size st))]"

definition sys_fstat :: "('z file_state_scheme, int) kern" where
  "sys_fstat =
     bnd (argfd 0) (\<lambda>a.
     case a of
       None \<Rightarrow> ret (-1)
     | Some (_, f) \<Rightarrow>
         bnd (argptr 1 20) (\<lambda>b.
         case b of
           None \<Rightarrow> ret (-1)
         | Some p \<Rightarrow>
             bnd (filestat f) (\<lambda>(r, st).
             bnd (case st of None \<Rightarrow> skip | Some st \<Rightarrow> put_stat p st) (\<lambda>_.
             ret r))))"

section \<open>Links\<close>

definition link_bad :: "nat \<Rightarrow> ('z cons_state_scheme, int) kern" where
  "link_bad ip =
     bnd (block [
       ilock ip,
       upd_inode ip (\<lambda>r. r\<lparr>i_nlink := i_nlink r - 1\<rparr>),
       iupdate ip,
       iunlockput ip,
       end_op]) (\<lambda>_.
     ret (-1))"

definition link_to :: "nat \<Rightarrow> byte list \<Rightarrow> ('z cons_state_scheme, int) kern" where
  "link_to ip new =
     bnd (nameiparent new (replicate DIRSIZ 0)) (\<lambda>(dpo, name).
     case dpo of
       None \<Rightarrow> link_bad ip
     | Some dp \<Rightarrow>
         bnd (ilock dp) (\<lambda>_.
         bnd (gets (\<lambda>s. i_dev (inodes s dp) \<noteq> i_dev (inodes s ip))) (\<lambda>other.
         bnd (if other then ret (-1) else (\<lambda>s. dirlink dp name (i_inum (inodes s ip)) s)) (\<lambda>r.
         if r < 0 then bnd (iunlockput dp) (\<lambda>_. link_bad ip)
         else
           bnd (iunlockput dp) (\<lambda>_.
           bnd (iput ip) (\<lambda>_.
           bnd end_op (\<lambda>_.
           ret 0)))))))"

definition sys_link :: "('z cons_state_scheme, int) kern" where
  "sys_link =
     bnd (argstr 0) (\<lambda>a.
     case a of
       None \<Rightarrow> ret (-1)
     | Some old \<Rightarrow>
         bnd (argstr 1) (\<lambda>b.
         case b of
           None \<Rightarrow> ret (-1)
         | Some new \<Rightarrow>
             bnd begin_op (\<lambda>_.
             bnd (namei old) (\<lambda>ipo.
             case ipo of
               None \<Rightarrow> bnd end_op (\<lambda>_. ret (-1))
             | Some ip \<Rightarrow>
                 bnd (ilock ip) (\<lambda>_.
                 bnd (gets (\<lambda>s. i_type (inodes s ip))) (\<lambda>ty.
                 if ty = T_DIR then bnd (iunlockput ip) (\<lambda>_. bnd end_op (\<lambda>_. ret (-1)))
                 else
                   bnd (block [
                     upd_inode ip (\<lambda>r. r\<lparr>i_nlink := i_nlink r + 1\<rparr>),
                     iupdate ip,
                     iunlock ip]) (\<lambda>_.
                   link_to ip new)))))))"

text \<open>The loop carries \<open>off\<close> and the answer, if it is already known to be no.\<close>

definition isdirempty_step :: "nat \<Rightarrow> uint \<times> bool \<Rightarrow> ('z cons_state_scheme, uint \<times> bool) kern" where
  "isdirempty_step dp = (\<lambda>(off, _).
     bnd (readi dp off 16) (\<lambda>(r, de).
     bnd (whenk (r \<noteq> 16) (kpanic ''isdirempty: readi'')) (\<lambda>_.
     ret (off + 16, de_inum de \<noteq> 0))))"

definition isdirempty :: "nat \<Rightarrow> ('z cons_state_scheme, bool) kern" where
  "isdirempty dp =
     bnd (kwhile (\<lambda>(off, used) s. \<not> used \<and> off < i_size (inodes s dp)) (isdirempty_step dp) (32, False)) (\<lambda>(_, used).
     ret (\<not> used))"

definition unlink_bad :: "nat \<Rightarrow> ('z cons_state_scheme, int) kern" where
  "unlink_bad dp = bnd (iunlockput dp) (\<lambda>_. bnd end_op (\<lambda>_. ret (-1)))"

text \<open>\<open>sys_unlink\<close> once both inodes are locked and the entry at \<open>off\<close> may go.\<close>

definition unlink_entry :: "nat \<Rightarrow> nat \<Rightarrow> uint \<Rightarrow> ('z cons_state_scheme, int) kern" where
  "unlink_entry dp ip off =
     bnd (writei dp (replicate 16 0) off 16) (\<lambda>w.
     bnd (block [
       whenk (w \<noteq> 16) (kpanic ''unlink: writei''),
       \<lambda>s. whenk (i_type (inodes s ip) = T_DIR) (block [
         upd_inode dp (\<lambda>r. r\<lparr>i_nlink := i_nlink r - 1\<rparr>),
         iupdate dp]) s,
       iunlockput dp,
       upd_inode ip (\<lambda>r. r\<lparr>i_nlink := i_nlink r - 1\<rparr>),
       iupdate ip,
       iunlockput ip,
       end_op]) (\<lambda>_.
     ret 0))"

definition sys_unlink :: "('z cons_state_scheme, int) kern" where
  "sys_unlink =
     bnd (argstr 0) (\<lambda>a.
     case a of
       None \<Rightarrow> ret (-1)
     | Some path \<Rightarrow>
         bnd begin_op (\<lambda>_.
         bnd (nameiparent path (replicate DIRSIZ 0)) (\<lambda>(dpo, name).
         case dpo of
           None \<Rightarrow> bnd end_op (\<lambda>_. ret (-1))
         | Some dp \<Rightarrow>
             bnd (ilock dp) (\<lambda>_.
             if namecmp name (lit ''.'') = 0 \<or> namecmp name (lit ''..'') = 0 then unlink_bad dp
             else
               bnd (dirlookup dp name) (\<lambda>found.
               case found of
                 None \<Rightarrow> unlink_bad dp
               | Some (ip, off) \<Rightarrow>
                   bnd (ilock ip) (\<lambda>_.
                   bnd (\<lambda>s. whenk (sint (i_nlink (inodes s ip)) < 1) (kpanic ''unlink: nlink < 1'') s) (\<lambda>_.
                   bnd (gets (\<lambda>s. i_type (inodes s ip) = T_DIR)) (\<lambda>dir.
                   bnd (if dir then isdirempty ip else ret True) (\<lambda>ok.
                   if \<not> ok then bnd (iunlockput ip) (\<lambda>_. unlink_bad dp)
                   else unlink_entry dp ip off)))))))))"

section \<open>Creating and opening\<close>

text \<open>\<open>create\<close> when the name is not there yet.\<close>

definition create_new :: "nat \<Rightarrow> byte list \<Rightarrow> 16 word \<Rightarrow> 16 word \<Rightarrow> 16 word \<Rightarrow> ('z cons_state_scheme, nat option) kern" where
  "create_new dp name ty major minor =
     bnd (\<lambda>s. ialloc (i_dev (inodes s dp)) ty s) (\<lambda>ip.
     bnd (block [
       ilock ip,
       upd_inode ip (\<lambda>r. r\<lparr>i_major := major, i_minor := minor, i_nlink := 1\<rparr>),
       iupdate ip,
       whenk (ty = T_DIR) (block [
         upd_inode dp (\<lambda>r. r\<lparr>i_nlink := i_nlink r + 1\<rparr>),
         iupdate dp,
         bnd (\<lambda>s. dirlink ip (lit ''.'') (i_inum (inodes s ip)) s) (\<lambda>a.
         bnd (if a < 0 then ret a else (\<lambda>s. dirlink ip (lit ''..'') (i_inum (inodes s dp)) s)) (\<lambda>b.
         whenk (b < 0) (kpanic ''create dots'')))])]) (\<lambda>_.
     bnd (\<lambda>s. dirlink dp name (i_inum (inodes s ip)) s) (\<lambda>c.
     bnd (whenk (c < 0) (kpanic ''create: dirlink'')) (\<lambda>_.
     bnd (iunlockput dp) (\<lambda>_.
     ret (Some ip))))))"

definition create :: "byte list \<Rightarrow> 16 word \<Rightarrow> 16 word \<Rightarrow> 16 word \<Rightarrow> ('z cons_state_scheme, nat option) kern" where
  "create path ty major minor =
     bnd (nameiparent path (replicate DIRSIZ 0)) (\<lambda>(dpo, name).
     case dpo of
       None \<Rightarrow> ret None
     | Some dp \<Rightarrow>
         bnd (ilock dp) (\<lambda>_.
         bnd (dirlookup dp name) (\<lambda>found.
         case found of
           Some (ip, _) \<Rightarrow>
             bnd (iunlockput dp) (\<lambda>_.
             bnd (ilock ip) (\<lambda>_.
             bnd (gets (\<lambda>s. ty = T_FILE \<and> i_type (inodes s ip) = T_FILE)) (\<lambda>reuse.
             if reuse then ret (Some ip)
             else bnd (iunlockput ip) (\<lambda>_. ret None))))
         | None \<Rightarrow> create_new dp name ty major minor)))"

definition O_RDONLY :: uint where "O_RDONLY = 0"
definition O_WRONLY :: uint where "O_WRONLY = 1"
definition O_RDWR :: uint where "O_RDWR = 2"
definition O_CREATE :: uint where "O_CREATE = 0x200"

text \<open>The inode \<open>sys_open\<close> is to open, locked, or \<open>None\<close> on the paths that have ended with -1.\<close>

definition open_inode :: "byte list \<Rightarrow> uint \<Rightarrow> ('z cons_state_scheme, nat option) kern" where
  "open_inode path omode =
     (if omode AND O_CREATE \<noteq> 0 then
        bnd (create path T_FILE 0 0) (\<lambda>r.
        case r of None \<Rightarrow> bnd end_op (\<lambda>_. ret None) | Some ip \<Rightarrow> ret (Some ip))
      else
        bnd (namei path) (\<lambda>r.
        case r of
          None \<Rightarrow> bnd end_op (\<lambda>_. ret None)
        | Some ip \<Rightarrow>
            bnd (ilock ip) (\<lambda>_.
            bnd (gets (\<lambda>s. i_type (inodes s ip) = T_DIR \<and> omode \<noteq> O_RDONLY)) (\<lambda>bad.
            if bad then bnd (iunlockput ip) (\<lambda>_. bnd end_op (\<lambda>_. ret None))
            else ret (Some ip)))))"

definition open_file :: "nat \<Rightarrow> uint \<Rightarrow> ('z file_state_scheme, int) kern" where
  "open_file ip omode =
     bnd filealloc (\<lambda>fo.
     bnd (case fo of None \<Rightarrow> ret (-1) | Some f \<Rightarrow> fdalloc f) (\<lambda>fd.
     if fd < 0 then
       bnd (case fo of None \<Rightarrow> skip | Some f \<Rightarrow> fileclose f) (\<lambda>_.
       bnd (iunlockput ip) (\<lambda>_.
       bnd end_op (\<lambda>_.
       ret (-1))))
     else
       bnd (iunlock ip) (\<lambda>_.
       bnd end_op (\<lambda>_.
       bnd (upd_file (the fo) (\<lambda>r. r\<lparr>f_type := FD_INODE, f_ip := ip, f_off := 0,
         f_readable := (omode AND O_WRONLY = 0),
         f_writable := (omode AND O_WRONLY \<noteq> 0 \<or> omode AND O_RDWR \<noteq> 0)\<rparr>)) (\<lambda>_.
       ret fd)))))"

definition sys_open :: "('z file_state_scheme, int) kern" where
  "sys_open =
     bnd (argstr 0) (\<lambda>a.
     case a of
       None \<Rightarrow> ret (-1)
     | Some path \<Rightarrow>
         bnd (argint 1) (\<lambda>b.
         case b of
           None \<Rightarrow> ret (-1)
         | Some omode \<Rightarrow>
             bnd begin_op (\<lambda>_.
             bnd (open_inode path omode) (\<lambda>r.
             case r of None \<Rightarrow> ret (-1) | Some ip \<Rightarrow> open_file ip omode))))"

text \<open>The end of \<open>sys_mkdir\<close> and \<open>sys_mknod\<close>.\<close>

definition made :: "nat option \<Rightarrow> ('z cons_state_scheme, int) kern" where
  "made r =
     (case r of
        None \<Rightarrow> bnd end_op (\<lambda>_. ret (-1))
      | Some ip \<Rightarrow> bnd (iunlockput ip) (\<lambda>_. bnd end_op (\<lambda>_. ret 0)))"

definition sys_mkdir :: "('z cons_state_scheme, int) kern" where
  "sys_mkdir =
     bnd begin_op (\<lambda>_.
     bnd (argstr 0) (\<lambda>a.
     bnd (case a of None \<Rightarrow> ret None | Some path \<Rightarrow> create path T_DIR 0 0) made))"

definition sys_mknod :: "('z cons_state_scheme, int) kern" where
  "sys_mknod =
     bnd begin_op (\<lambda>_.
     bnd (argstr 0) (\<lambda>a.
     case a of
       None \<Rightarrow> made None
     | Some path \<Rightarrow>
         bnd (argint 1) (\<lambda>b.
         case b of
           None \<Rightarrow> made None
         | Some major \<Rightarrow>
             bnd (argint 2) (\<lambda>c.
             case c of
               None \<Rightarrow> made None
             | Some minor \<Rightarrow> bnd (create path T_DEV (ucast major) (ucast minor)) made))))"

definition sys_chdir :: "('z cons_state_scheme, int) kern" where
  "sys_chdir =
     bnd begin_op (\<lambda>_.
     bnd (argstr 0) (\<lambda>a.
     bnd (case a of None \<Rightarrow> ret None | Some path \<Rightarrow> namei path) (\<lambda>r.
     case r of
       None \<Rightarrow> bnd end_op (\<lambda>_. ret (-1))
     | Some ip \<Rightarrow>
         bnd (ilock ip) (\<lambda>_.
         bnd (gets (\<lambda>s. i_type (inodes s ip))) (\<lambda>ty.
         if ty \<noteq> T_DIR then bnd (iunlockput ip) (\<lambda>_. bnd end_op (\<lambda>_. ret (-1)))
         else
           bnd (iunlock ip) (\<lambda>_.
           bnd myproc (\<lambda>p.
           bnd (\<lambda>s. (case p_cwd (procs s p) of None \<Rightarrow> kpanic ''trap'' | Some c \<Rightarrow> iput c) s) (\<lambda>_.
           bnd end_op (\<lambda>_.
           bnd (upd_proc p (\<lambda>r. r\<lparr>p_cwd := Some ip\<rparr>)) (\<lambda>_.
           ret 0))))))))))"

text \<open>The loop of \<open>sys_exec\<close> that collects the arguments, with \<open>k\<close> places of \<open>argv\<close> left: the strings, or \<open>None\<close>.\<close>

fun exec_argv :: "nat \<Rightarrow> uint \<Rightarrow> byte list list \<Rightarrow> ('z sched_state_scheme, byte list list option) kern" where
  "exec_argv 0 a acc = ret None"
| "exec_argv (Suc k) a acc =
     bnd (fetchint a) (\<lambda>r.
     case r of
       None \<Rightarrow> ret None
     | Some uarg \<Rightarrow>
         if uarg = 0 then ret (Some acc)
         else bnd (fetchstr uarg) (\<lambda>so.
           case so of None \<Rightarrow> ret None | Some str \<Rightarrow> exec_argv k (a + 4) (acc @ [str])))"

definition sys_exec :: "('z proc_state_scheme, int) kern" where
  "sys_exec =
     bnd (argstr 0) (\<lambda>a.
     case a of
       None \<Rightarrow> ret (-1)
     | Some path \<Rightarrow>
         bnd (argint 1) (\<lambda>b.
         case b of
           None \<Rightarrow> ret (-1)
         | Some uargv \<Rightarrow>
             bnd (exec_argv MAXARG uargv []) (\<lambda>c.
             case c of
               None \<Rightarrow> ret (-1)
             | Some argv \<Rightarrow> (\<lambda>s. exec (stack_junk s) path argv s))))"

definition sys_pipe :: "('z file_state_scheme, int) kern" where
  "sys_pipe =
     bnd (argptr 0 8) (\<lambda>a.
     case a of
       None \<Rightarrow> ret (-1)
     | Some fd \<Rightarrow>
         bnd pipealloc (\<lambda>(r, fs).
         case fs of
           None \<Rightarrow> ret (-1)
         | Some (rfile, wfile) \<Rightarrow>
             bnd (fdalloc rfile) (\<lambda>fd0.
             bnd (if fd0 < 0 then ret (-1) else fdalloc wfile) (\<lambda>fd1.
             if fd1 < 0 then
               bnd (whenk (fd0 \<ge> 0) (set_ofile (nat fd0) None)) (\<lambda>_.
               bnd (fileclose rfile) (\<lambda>_.
               bnd (fileclose wfile) (\<lambda>_.
               ret (-1))))
             else
               bnd (uwrite fd (le32 (word_of_int fd0))) (\<lambda>_.
               bnd (uwrite (fd + 4) (le32 (word_of_int fd1))) (\<lambda>_.
               ret 0))))))"

end
