(* ===== verification/Trap.thy ===== *)
theory Trap
  imports Sysfile
begin

text \<open>
  System call dispatch (\<open>syscall.c\<close>) and traps (\<open>trap.c\<close>). \<open>trap\<close> gets the trap frame's address and the contents of the
  \<open>cr2\<close> register. Acknowledging an interrupt (\<open>lapiceoi\<close>) does not touch the state, and with the memory disk
  \<open>ideintr\<close> does nothing. Where \<open>trap\<close> gives up the CPU it goes on with \<open>trap_resume\<close>.
\<close>

definition syscalls :: "nat \<Rightarrow> ('z proc_state_scheme, int) kern option" where
  "syscalls num = map_of [
     (1, sys_fork), (2, sys_exit), (3, sys_wait), (4, sys_pipe), (5, sys_read), (6, sys_kill), (7, sys_exec),
     (8, sys_fstat), (9, sys_chdir), (10, sys_dup), (11, sys_getpid), (12, sys_sbrk), (13, sys_sleep),
     (14, sys_uptime), (15, sys_open), (16, sys_write), (17, sys_mknod), (18, sys_unlink), (19, sys_link),
     (20, sys_mkdir), (21, sys_close)] num"

definition syscall :: "('z proc_state_scheme, unit) kern" where
  "syscall =
     bnd myproc (\<lambda>p.
     bnd (gets (\<lambda>s. load32 (mem s) (p_tf (procs s p) + TF_eax))) (\<lambda>num.
     case (if sint num > 0 \<and> sint num < 22 then syscalls (unat num) else None) of
       Some call \<Rightarrow>
         bnd call (\<lambda>r.
         (\<lambda>s. put32 (p_tf (procs s p) + TF_eax) (word_of_int r) s))
     | None \<Rightarrow> block [
         \<lambda>s. cprintf (''%d %s: unknown sys call %d'' @ [CHR 0x0A])
           (no_args(0 := Cword (p_pid (procs s p)), 1 := Ctext (p_name (procs s p)), 2 := Cword num)) s,
         \<lambda>s. put32 (p_tf (procs s p) + TF_eax) (- 1) s]))"

definition T_SYSCALL :: uint where "T_SYSCALL = 64"
definition T_IRQ0 :: uint where "T_IRQ0 = 32"

definition tickit :: "('z proc_state_scheme, unit) kern" where
  "tickit s = whenk (cpu_id (cpu s) = 0) (block [
     acquire Lk_ticks,
     modify (\<lambda>s. s\<lparr>ticks := ticks s + 1\<rparr>),
     wakeup Ch_ticks,
     release Lk_ticks]) s"

definition tf_word :: "'z kmem_state_scheme \<Rightarrow> uint \<Rightarrow> uint \<Rightarrow> uint" where
  "tf_word s tf f = load32 (mem s) (tf + f)"

definition tf_cs :: "'z kmem_state_scheme \<Rightarrow> uint \<Rightarrow> uint" where
  "tf_cs s tf = ucast (de16 (read_bytes (mem s) (tf + TF_cs) 2))"

text \<open>A trap that is no interrupt: fatal in the kernel, the end of the process in user space.\<close>

definition bad_trap :: "uint \<Rightarrow> uint \<Rightarrow> ('z proc_state_scheme, unit) kern" where
  "bad_trap cr2 tf s =
     (let cpun = Cword (of_nat (cpu_id (cpu s))); no = Cword (tf_word s tf TF_trapno); eip = Cword (tf_word s tf TF_eip)
      in case curproc (cpu s) of
        Some p \<Rightarrow>
          if tf_cs s tf AND 3 = 0 then
            block [
              cprintf (''unexpected trap %d from cpu %d eip %x (cr2=0x%x)'' @ [CHR 0x0A])
                (no_args(0 := no, 1 := cpun, 2 := eip, 3 := Cword cr2)),
              kpanic ''trap''] s
          else block [
            cprintf (''pid %d %s: trap %d err %d on cpu %d eip 0x%x addr 0x%x--kill proc'' @ [CHR 0x0A])
              (no_args(0 := Cword (p_pid (procs s p)), 1 := Ctext (p_name (procs s p)), 2 := no,
                3 := Cword (tf_word s tf TF_err), 4 := cpun, 5 := eip, 6 := Cword cr2)),
            upd_proc p (\<lambda>r. r\<lparr>p_killed := True\<rparr>)] s
      | None \<Rightarrow>
          block [
            cprintf (''unexpected trap %d from cpu %d eip %x (cr2=0x%x)'' @ [CHR 0x0A])
              (no_args(0 := no, 1 := cpun, 2 := eip, 3 := Cword cr2)),
            kpanic ''trap''] s)"

definition trap_switch :: "uint \<Rightarrow> uint \<Rightarrow> ('z proc_state_scheme, unit) kern" where
  "trap_switch cr2 tf s =
     (let no = tf_word s tf TF_trapno in
      if no = T_IRQ0 then tickit
      else if no = T_IRQ0 + 14 then skip
      else if no = T_IRQ0 + 15 then skip
      else if no = T_IRQ0 + 1 then kbdintr
      else if no = T_IRQ0 + 4 then uartintr
      else if no = T_IRQ0 + 7 \<or> no = T_IRQ0 + 31 then
        cprintf (''cpu%d: spurious interrupt at %x:%x'' @ [CHR 0x0A])
          (no_args(0 := Cword (of_nat (cpu_id (cpu s))), 1 := Cword (tf_cs s tf), 2 := Cword (tf_word s tf TF_eip)))
      else bad_trap cr2 tf) s"

definition exit_if_killed :: "uint \<Rightarrow> ('z proc_state_scheme, unit) kern" where
  "exit_if_killed tf s =
     (case curproc (cpu s) of
        None \<Rightarrow> Ret () s
      | Some p \<Rightarrow> whenk (p_killed (procs s p) \<and> tf_cs s tf AND 3 = of_nat DPL_USER) exit s)"

definition trap_yield :: "uint \<Rightarrow> ('z proc_state_scheme, unit) kern" where
  "trap_yield tf s =
     (case curproc (cpu s) of
        None \<Rightarrow> Ret () s
      | Some p \<Rightarrow> whenk (p_state (procs s p) = RUNNING \<and> tf_word s tf TF_trapno = T_IRQ0) yield s)"

definition trap_syscall :: "uint \<Rightarrow> ('z proc_state_scheme, unit) kern" where
  "trap_syscall tf =
     bnd myproc (\<lambda>p. block [
       \<lambda>s. whenk (p_killed (procs s p)) exit s,
       upd_proc p (\<lambda>r. r\<lparr>p_tf := tf\<rparr>),
       syscall,
       \<lambda>s. whenk (p_killed (procs s p)) exit s])"

definition trap :: "uint \<Rightarrow> uint \<Rightarrow> ('z proc_state_scheme, unit) kern" where
  "trap cr2 tf s =
     (if tf_word s tf TF_trapno = T_SYSCALL then trap_syscall tf s
      else block [
        trap_switch cr2 tf,
        exit_if_killed tf,
        trap_yield tf,
        exit_if_killed tf] s)"

definition trap_resume :: "bool \<Rightarrow> uint \<Rightarrow> ('z proc_state_scheme, unit) kern" where
  "trap_resume v tf = block [yield_resume v, exit_if_killed tf]"

end
