(* ===== verification/Pagetable.thy ===== *)
theory Pagetable
  imports Vm
begin

text \<open>
  Correctness of the page tables of \<open>vm.c\<close>. The two-level table in memory stands for a function from virtual
  addresses to page-table entries (\<open>entry\<close>); \<open>space\<close> says that the pages the directory and its tables live in are
  distinct pages of the allocator, none of them free. Every operation is described by its effect on that function and
  by the pages it may touch.
\<close>

section \<open>Words of a page\<close>

text \<open>The address of word \<open>i\<close> of the page at \<open>p\<close>.\<close>

definition slot :: "uint \<Rightarrow> nat \<Rightarrow> uint" where
  "slot p i = p + 4 * of_nat i"

abbreviation aligned :: "uint \<Rightarrow> bool" where
  "aligned p \<equiv> p mod PGSIZE = 0"

lemma slot_PDX: "pd + 4 * PDX va = slot pd (unat (PDX va))" and slot_PTX: "pt + 4 * PTX va = slot pt (unat (PTX va))"
  by (simp_all add: slot_def)

lemma slot_byte: "i < 1024 \<Longrightarrow> k < 4 \<Longrightarrow> in_page p (slot p i + of_nat k)"
  using in_page_offset [of "4 * i + k" p] by (simp add: slot_def add.assoc)

lemma slot_bytes:
  "i < 1024 \<Longrightarrow> in_page p (slot p i)" "i < 1024 \<Longrightarrow> in_page p (slot p i + 1)"
  "i < 1024 \<Longrightarrow> in_page p (slot p i + 2)" "i < 1024 \<Longrightarrow> in_page p (slot p i + 3)"
  using slot_byte [of i 0 p] slot_byte [of i 1 p] slot_byte [of i 2 p] slot_byte [of i 3 p] by simp_all

lemma slot_offset: "i < 1024 \<Longrightarrow> k < 4 \<Longrightarrow> unat (slot p i + of_nat k - p) = 4 * i + k"
proof -
  assume "i < 1024" "k < 4"
  moreover have "slot p i + of_nat k - p = of_nat (4 * i + k)" by (simp add: slot_def)
  ultimately show ?thesis by (simp add: unat_of_nat del: of_nat_add of_nat_mult)
qed

lemma slot_neq: "i < 1024 \<Longrightarrow> j < 1024 \<Longrightarrow> i \<noteq> j \<Longrightarrow> k < 4 \<Longrightarrow> l < 4 \<Longrightarrow>
  slot p i + of_nat k \<noteq> slot p j + of_nat l"
proof
  assume a: "i < 1024" "j < 1024" "i \<noteq> j" "k < 4" "l < 4" and eq: "slot p i + of_nat k = slot p j + of_nat l"
  then have "4 * i + k = 4 * j + l" using slot_offset [of i k p] slot_offset [of j l p] by simp
  with a show False by linarith
qed

lemma store_slot_outside: "i < 1024 \<Longrightarrow> \<not> in_page p a \<Longrightarrow> store32 m (slot p i) w a = m a"
  using slot_bytes [of i p] by (intro store32_other) auto

lemma load_slot_cong: "i < 1024 \<Longrightarrow> (\<And>a. in_page p a \<Longrightarrow> m a = m' a) \<Longrightarrow> load32 m (slot p i) = load32 m' (slot p i)"
  by (rule load32_cong) (simp_all add: slot_bytes)

lemma load_store_slot:
  assumes "aligned p" and "aligned q" and "i < 1024" and "j < 1024"
  shows "load32 (store32 m (slot p i) w) (slot q j) = (if p = q \<and> i = j then w else load32 m (slot q j))"
proof (cases "p = q")
  case True
  show ?thesis
  proof (cases "i = j")
    case False
    have ne: "slot p j + of_nat l \<noteq> slot p i + of_nat k" if "k < 4" "l < 4" for k l
      using slot_neq [of j i l k p] assms(3,4) False that by blast
    have st: "store32 m (slot p i) w (slot p j + of_nat l) = m (slot p j + of_nat l)" if "l < 4" for l
      using that ne [of 0 l] ne [of 1 l] ne [of 2 l] ne [of 3 l] by (intro store32_other) simp_all
    show ?thesis using False True st [of 0] st [of 1] st [of 2] st [of 3] by (auto intro!: load32_cong)
  qed (simp add: True)
next
  case False
  then have "\<not> in_page p a" if "in_page q a" for a using pages_disjoint [OF assms(2,1)] that by auto
  then have "load32 (store32 m (slot p i) w) (slot q j) = load32 m (slot q j)"
    by (intro load_slot_cong [OF assms(4)] store_slot_outside [OF assms(3)])
  then show ?thesis using False by simp
qed

lemma memset_outside: "\<not> in_page p a \<Longrightarrow> memset m p c PGSIZE a = m a"
  unfolding memset_write by (rule write_bytes_cong) (use in_page_offset in \<open>auto simp: PGSIZE_def\<close>)

lemma memset_inside: "in_page p a \<Longrightarrow> memset m p c PGSIZE a = ucast c"
proof -
  assume "in_page p a"
  then have "unat (a - p) < 4096" by (simp add: in_page_def PGSIZE_def word_less_nat_alt)
  moreover have "a = p + of_nat (unat (a - p))" by simp
  ultimately show ?thesis
    using write_bytes_apply [of "replicate (unat PGSIZE) (ucast c)" "unat (a - p)" m p]
    unfolding memset_write by (simp add: PGSIZE_def)
qed

lemma load_memset_slot:
  assumes "aligned p" and "aligned q" and "j < 1024"
  shows "load32 (memset m p 0 PGSIZE) (slot q j) = (if p = q then 0 else load32 m (slot q j))"
proof (cases "p = q")
  case True
  have "load32 (memset m p 0 PGSIZE) (slot q j) = load32 (\<lambda>_. 0) (slot q j)"
    using True memset_inside [of q _ m 0] by (intro load_slot_cong [OF assms(3)]) simp
  then show ?thesis using True by (simp add: load32_def)
next
  case False
  then have "\<not> in_page p a" if "in_page q a" for a using pages_disjoint [OF assms(2,1)] that by auto
  then have "load32 (memset m p 0 PGSIZE) (slot q j) = load32 m (slot q j)"
    by (intro load_slot_cong [OF assms(3)] memset_outside)
  then show ?thesis using False by simp
qed

section \<open>The table as a function\<close>

definition pde :: "memory \<Rightarrow> uint \<Rightarrow> nat \<Rightarrow> uint" where
  "pde m pd i = load32 m (slot pd i)"

definition has_tab :: "memory \<Rightarrow> uint \<Rightarrow> nat \<Rightarrow> bool" where
  "has_tab m pd i \<longleftrightarrow> pde m pd i AND PTE_P \<noteq> 0"

definition tab :: "memory \<Rightarrow> uint \<Rightarrow> nat \<Rightarrow> uint" where
  "tab m pd i = P2V (PTE_ADDR (pde m pd i))"

abbreviation dirx :: "uint \<Rightarrow> nat" where "dirx va \<equiv> unat (PDX va)"
abbreviation tabx :: "uint \<Rightarrow> nat" where "tabx va \<equiv> unat (PTX va)"

text \<open>The page-table entry of \<open>va\<close>, 0 when there is no page table for it.\<close>

definition entry :: "memory \<Rightarrow> uint \<Rightarrow> uint \<Rightarrow> uint" where
  "entry m pd va = (if has_tab m pd (dirx va) then load32 m (slot (tab m pd (dirx va)) (tabx va)) else 0)"

text \<open>The pages a directory and its tables occupy.\<close>

definition pd_pages :: "memory \<Rightarrow> uint \<Rightarrow> uint set" where
  "pd_pages m pd = insert pd (tab m pd ` {i. i < 1024 \<and> has_tab m pd i})"

definition space :: "uint \<Rightarrow> memory \<Rightarrow> uint \<Rightarrow> uint list \<Rightarrow> bool" where
  "space e m pd xs \<longleftrightarrow> page_ok e pd \<and> (\<forall>i < 1024. has_tab m pd i \<longrightarrow> page_ok e (tab m pd i) \<and> tab m pd i \<noteq> pd) \<and>
     inj_on (tab m pd) {i. i < 1024 \<and> has_tab m pd i} \<and> pd_pages m pd \<inter> set xs = {}"

lemma spaceD:
  assumes "space e m pd xs"
  shows "page_ok e pd" and "aligned pd" and "pd \<notin> set xs"
    and "\<And>i. i < 1024 \<Longrightarrow> has_tab m pd i \<Longrightarrow> page_ok e (tab m pd i) \<and> aligned (tab m pd i) \<and> tab m pd i \<noteq> pd \<and>
      tab m pd i \<notin> set xs"
    and "\<And>i j. i < 1024 \<Longrightarrow> has_tab m pd i \<Longrightarrow> j < 1024 \<Longrightarrow> has_tab m pd j \<Longrightarrow> tab m pd i = tab m pd j \<Longrightarrow> i = j"
  using assms by (auto simp: space_def pd_pages_def page_ok_def dest: inj_onD)

lemma pd_pages_ok: "space e m pd xs \<Longrightarrow> p \<in> pd_pages m pd \<Longrightarrow> page_ok e p"
  by (auto simp: space_def pd_pages_def)

lemma pd_pages_cong: "(\<And>i. i < 1024 \<Longrightarrow> pde m pd i = pde m' pd i) \<Longrightarrow> pd_pages m pd = pd_pages m' pd"
  by (auto simp: pd_pages_def has_tab_def tab_def)

lemma space_cong: "(\<And>i. i < 1024 \<Longrightarrow> pde m pd i = pde m' pd i) \<Longrightarrow> space e m pd xs = space e m' pd xs"
proof -
  assume eq: "\<And>i. i < 1024 \<Longrightarrow> pde m pd i = pde m' pd i"
  have t: "has_tab m pd i = has_tab m' pd i" "tab m pd i = tab m' pd i" if "i < 1024" for i
    using eq [OF that] by (simp_all add: has_tab_def tab_def)
  have "inj_on (tab m pd) {i. i < 1024 \<and> has_tab m pd i} = inj_on (tab m' pd) {i. i < 1024 \<and> has_tab m' pd i}"
    using t by (auto simp: inj_on_def)
  then show ?thesis using t pd_pages_cong [OF eq] by (auto simp: space_def)
qed

text \<open>Memory outside the pages of a directory does not matter to it.\<close>

lemma pde_frame: "i < 1024 \<Longrightarrow> (\<And>a. in_page pd a \<Longrightarrow> m a = m' a) \<Longrightarrow> pde m pd i = pde m' pd i"
  unfolding pde_def by (rule load_slot_cong)

lemma entry_frame:
  assumes "\<And>p a. p \<in> pd_pages m pd \<Longrightarrow> in_page p a \<Longrightarrow> m a = m' a"
  shows "entry m pd va = entry m' pd va"
proof -
  have "pde m pd (dirx va) = pde m' pd (dirx va)"
    using assms [of pd] PDX_lt by (intro pde_frame) (auto simp: pd_pages_def)
  moreover have "load32 m (slot (tab m pd (dirx va)) (tabx va)) = load32 m' (slot (tab m pd (dirx va)) (tabx va))"
    if "has_tab m pd (dirx va)"
    using assms [of "tab m pd (dirx va)"] that PDX_lt PTX_lt by (intro load_slot_cong) (auto simp: pd_pages_def)
  ultimately show ?thesis by (auto simp: entry_def has_tab_def tab_def)
qed

lemma space_frame:
  assumes "space e m pd xs" and "\<And>a. in_page pd a \<Longrightarrow> m a = m' a"
  shows "space e m' pd xs" and "pd_pages m' pd = pd_pages m pd"
  using assms pde_frame [of _ pd m m'] space_cong [of m pd m' e xs] pd_pages_cong [of m pd m'] by blast+

section \<open>Two stores\<close>

lemma PTE_ADDR_or: "p mod 4096 = 0 \<Longrightarrow> f < 4096 \<Longrightarrow> PTE_ADDR (p OR f) = p"
proof -
  assume p: "p mod 4096 = 0" and f: "f < 4096"
  then have "f mod 4096 = f" by (simp add: word_unat_eq_iff unat_mod_4096 word_less_nat_alt)
  then have "p AND NOT 0xFFF = p" "f AND NOT 0xFFF = 0" using p by (simp_all only: and_not_FFF) simp_all
  then show ?thesis by (simp only: PTE_ADDR_def bit.conj_disj_distrib2) simp
qed

lemma V2P_aligned: "aligned p \<Longrightarrow> V2P p mod 4096 = 0"
proof -
  assume "aligned p"
  then have "unat p mod 4096 = 0" by (metis PGSIZE_def unat_0 unat_mod_4096)
  then have "(unat p + 2147483648) mod 4096 = 0" by (simp add: mod_add_left_eq [symmetric])
  moreover have "V2P p = p + 0x80000000" by (simp add: V2P_def KERNBASE_def)
  ultimately have "unat (V2P p) mod 4096 = 0"
    by (simp add: unat_word_ariths mod_mod_cancel)
  then show ?thesis by (simp add: word_unat_eq_iff unat_mod_4096)
qed

lemma slot_nz: "page_ok e p \<Longrightarrow> i < 1024 \<Longrightarrow> slot p i \<noteq> 0"
proof
  assume p: "page_ok e p" and i: "i < 1024" and "slot p i = 0"
  then have "in_page p 0" using slot_bytes(1) [of i p] by simp
  then have "unat p = 0" using in_page_unat [of p 0] p by (simp add: page_ok_def)
  then show False using page_ok_nz [OF p] by (simp add: word_unat_eq_iff)
qed

text \<open>A new page table: it is empty, so no entry changes.\<close>

definition new_pde :: "uint \<Rightarrow> uint" where
  "new_pde x = V2P x OR PTE_P OR PTE_W OR PTE_U"

lemma new_pde: "aligned x \<Longrightarrow> P2V (PTE_ADDR (new_pde x)) = x" "new_pde x AND PTE_P \<noteq> 0"
proof -
  have f: "new_pde x = V2P x OR 7" by (simp add: new_pde_def PTE_P_def PTE_W_def PTE_U_def or.assoc)
  show "P2V (PTE_ADDR (new_pde x)) = x" if "aligned x"
    unfolding f using PTE_ADDR_or [OF V2P_aligned [OF that], of 7] by (simp add: P2V_def V2P_def)
  have "bit (new_pde x) 0" by (simp add: f bit_or_iff)
  then show "new_pde x AND PTE_P \<noteq> 0" by (auto simp: PTE_P_def bit_eq_iff bit_and_iff intro: exI [of _ 0])
qed

lemma new_table:
  assumes sp: "space e m pd (x # ys)" and x: "page_ok e x" "x \<notin> set ys" and k: "k < 1024" "\<not> has_tab m pd k"
    and m': "m' = store32 (memset m x 0 PGSIZE) (slot pd k) (new_pde x)"
  shows "space e m' pd ys" and "pd_pages m' pd = insert x (pd_pages m pd)" and "entry m' pd v = entry m pd v"
    and "has_tab m' pd k" and "tab m' pd k = x" and "\<And>a. \<not> in_page pd a \<Longrightarrow> \<not> in_page x a \<Longrightarrow> m' a = m a"
proof -
  note d = spaceD [OF sp]
  have al: "aligned x" "aligned pd" using x d by (simp_all add: page_ok_def)
  have ne: "x \<noteq> pd" using d(3) by auto
  have pde: "pde m' pd i = (if i = k then new_pde x else pde m pd i)" if "i < 1024" for i
    using that k ne unfolding pde_def m' by (simp add: load_store_slot al load_memset_slot)
  have h: "has_tab m' pd i \<longleftrightarrow> i = k \<or> has_tab m pd i" "tab m' pd i = (if i = k then x else tab m pd i)"
    if "i < 1024" for i using pde [OF that] new_pde al by (simp_all add: has_tab_def tab_def)
  then show "has_tab m' pd k" "tab m' pd k = x" using k by simp_all
  have old: "{i. i < 1024 \<and> has_tab m' pd i} = insert k {i. i < 1024 \<and> has_tab m pd i}" using h k by auto
  have im: "tab m' pd ` {i. i < 1024 \<and> has_tab m' pd i} = insert x (tab m pd ` {i. i < 1024 \<and> has_tab m pd i})"
    unfolding old using h k by (auto simp: image_iff)
  then show pg: "pd_pages m' pd = insert x (pd_pages m pd)" by (auto simp: pd_pages_def)
  have xn: "tab m pd i \<noteq> x" if "i < 1024" "has_tab m pd i" for i using d(4) [OF that] by simp
  have "inj_on (tab m' pd) {i. i < 1024 \<and> has_tab m' pd i}"
    unfolding old inj_on_def using h k d(5) xn by (auto split: if_splits) (metis xn)+
  moreover have "page_ok e (tab m' pd i) \<and> tab m' pd i \<noteq> pd" if "i < 1024" "has_tab m' pd i" for i
    using h [OF that(1)] that d(4) [of i] x ne by auto
  ultimately show "space e m' pd ys"
    using d x sp unfolding space_def [of e m'] pg by (auto simp: space_def)
  show frame: "m' a = m a" if "\<not> in_page pd a" "\<not> in_page x a" for a
    using that k unfolding m' by (simp add: store_slot_outside memset_outside)
  show "entry m' pd v = entry m pd v"
  proof (cases "has_tab m pd (dirx v)")
    case True
    note t = d(4) [OF PDX_lt True]
    have "load32 m' (slot (tab m pd (dirx v)) (tabx v)) = load32 m (slot (tab m pd (dirx v)) (tabx v))"
      unfolding m' using t al xn [OF PDX_lt True] k PTX_lt
      by (auto simp: load_store_slot load_memset_slot)
    then show ?thesis using True h [OF PDX_lt, of v] k by (auto simp: entry_def)
  next
    case False
    have "load32 m' (slot x (tabx v)) = 0"
      unfolding m' using al ne [symmetric] k PTX_lt by (simp add: load_store_slot load_memset_slot)
    then show ?thesis using False h [OF PDX_lt, of v] by (auto simp: entry_def)
  qed
qed

text \<open>A store into an entry changes that entry only.\<close>

definition same_page :: "uint \<Rightarrow> uint \<Rightarrow> bool" where
  "same_page v w \<longleftrightarrow> PDX v = PDX w \<and> PTX v = PTX w"

lemma store_entry:
  assumes sp: "space e m pd xs" and h: "has_tab m pd (dirx va)"
    and m': "m' = store32 m (slot (tab m pd (dirx va)) (tabx va)) w"
  shows "space e m' pd xs" and "pd_pages m' pd = pd_pages m pd"
    and "entry m' pd v = (if same_page v va then w else entry m pd v)"
    and "\<And>a. \<not> in_page (tab m pd (dirx va)) a \<Longrightarrow> m' a = m a"
proof -
  note d = spaceD [OF sp] and t = spaceD(4) [OF sp PDX_lt h]
  have pde: "pde m' pd i = pde m pd i" if "i < 1024" for i
    using that t d PTX_lt unfolding pde_def m' by (simp add: load_store_slot)
  then show "space e m' pd xs" "pd_pages m' pd = pd_pages m pd"
    using sp space_cong [of m' pd m] pd_pages_cong [of m' pd m] by simp_all
  have hv: "has_tab m' pd (dirx v) = has_tab m pd (dirx v)" "tab m' pd (dirx v) = tab m pd (dirx v)"
    using pde [OF PDX_lt, of v] by (simp_all add: has_tab_def tab_def)
  have "load32 m' (slot (tab m pd (dirx v)) (tabx v)) =
      (if same_page v va then w else load32 m (slot (tab m pd (dirx v)) (tabx v)))" if hv': "has_tab m pd (dirx v)"
    using spaceD(4) [OF sp PDX_lt hv'] t PTX_lt spaceD(5) [OF sp PDX_lt hv' PDX_lt h] unfolding m'
    by (auto simp: load_store_slot same_page_def simp flip: word_unat_eq_iff)
  then show "entry m' pd v = (if same_page v va then w else entry m pd v)"
    unfolding entry_def hv using h by (auto simp: same_page_def)
  show "m' a = m a" if "\<not> in_page (tab m pd (dirx va)) a" for a
    using that PTX_lt unfolding m' by (simp add: store_slot_outside)
qed

section \<open>Walking and mapping\<close>

lemma pool_mem:
  assumes "pool s xs" and "\<And>x a. x \<in> set xs \<Longrightarrow> in_page x a \<Longrightarrow> m a = mem s a"
  shows "pool (s\<lparr>mem := m\<rparr>) xs"
proof -
  have "load32 m x = load32 (mem s) x" if "x \<in> set xs" for x
    using assms(2) [OF that] by (rule load32_page_cong)
  then show ?thesis
    using assms(1) chain_cong [of xs m "mem s"] by (auto simp: pool_def free_list_def kmem_ready_def)
qed

text \<open>What every operation on a directory keeps: the free list, the shape of the directory, the pages (none is lost or
  found), all memory but theirs, and the rest of the kernel's state.\<close>

definition pd_step :: "uint \<Rightarrow> 'z kmem_state_scheme \<Rightarrow> uint list \<Rightarrow> 'z kmem_state_scheme \<Rightarrow> uint list \<Rightarrow> bool" where
  "pd_step pd s xs t ys \<longleftrightarrow> pool t ys \<and> kend t = kend s \<and> mem_only s t \<and> space (kend s) (mem t) pd ys \<and>
     pd_pages (mem t) pd \<union> set ys = pd_pages (mem s) pd \<union> set xs \<and> set ys \<subseteq> set xs \<and>
     (\<forall>a. (\<forall>p \<in> pd_pages (mem s) pd \<union> set xs. \<not> in_page p a) \<longrightarrow> mem t a = mem s a)"

lemma pd_step_refl: "pool s xs \<Longrightarrow> space (kend s) (mem s) pd xs \<Longrightarrow> pd_step pd s xs s xs"
  by (simp add: pd_step_def)

lemma pd_step_trans: "pd_step pd s xs t ys \<Longrightarrow> pd_step pd t ys u zs \<Longrightarrow> pd_step pd s xs u zs"
  unfolding pd_step_def by (auto intro: mem_only_trans)

lemma walkpgdir_spec:
  assumes po: "pool s xs" and sp: "space (kend s) (mem s) pd xs"
  shows "wp (walkpgdir pd va alloc) (\<lambda>r t. \<exists>ys. pd_step pd s xs t ys \<and> (\<forall>v. entry (mem t) pd v = entry (mem s) pd v) \<and>
    (if r = 0 then mem t = mem s \<and> \<not> has_tab (mem s) pd (dirx va) \<and> (alloc \<longrightarrow> ys = [])
     else has_tab (mem t) pd (dirx va) \<and> r = slot (tab (mem t) pd (dirx va)) (tabx va))) s"
proof (cases "has_tab (mem s) pd (dirx va)")
  case True
  note t = spaceD(4) [OF sp PDX_lt True]
  have "slot (tab (mem s) pd (dirx va)) (tabx va) \<noteq> 0"
    using slot_nz [of "kend s" _ "tabx va"] t PTX_lt by simp
  then show ?thesis using True pd_step_refl [OF po sp]
    by (auto simp: walkpgdir_def wp_rules has_tab_def tab_def pde_def slot_PDX slot_PTX)
next
  case False
  then have np: "load32 (mem s) (slot pd (dirx va)) AND PTE_P = 0" by (simp add: has_tab_def pde_def)
  show ?thesis
  proof (cases "\<not> alloc")
    case True
    then show ?thesis using False np pd_step_refl [OF po sp] by (auto simp: walkpgdir_def wp_rules slot_PDX)
  next
    case alloc: False
    show ?thesis
    proof (cases xs)
      case Nil
      then have "pool (kmem_exit s) xs" using po by (simp add: pool_def free_list_def)
      then have "pd_step pd s xs (kmem_exit s) xs" using sp by (simp add: pd_step_def mem_only_exit)
      then show ?thesis using False np alloc po Nil kalloc_empty [of s]
        by (auto simp: walkpgdir_def wp_def bnd_def slot_PDX)
    next
      case (Cons x ys)
      obtain s1 where s1: "kalloc s = Ret x s1" "pool s1 ys" "mem s1 = mem s" "kend s1 = kend s" "mem_only s s1"
        using kalloc_Cons [of s x ys] po Cons by auto
      have x: "page_ok (kend s) x" "x \<notin> set ys" using po Cons by (auto simp: pool_def free_list_def)
      define m' where "m' = store32 (memset (mem s) x 0 PGSIZE) (slot pd (dirx va)) (new_pde x)"
      note n = new_table [OF sp [unfolded Cons] x PDX_lt False m'_def]
      have "pool (s1\<lparr>mem := m'\<rparr>) ys"
      proof (rule pool_mem [OF s1(2)])
        fix y a assume y: "y \<in> set ys" "in_page y a"
        then have "aligned y" "y \<noteq> pd" "y \<noteq> x" "aligned pd" "aligned x"
          using po Cons x spaceD(2,3) [OF sp] by (auto simp: pool_def free_list_def page_ok_def)
        then show "m' a = mem s1 a" using n(6) pages_disjoint y by (metis s1(3))
      qed
      then have "pd_step pd s xs (s1\<lparr>mem := m'\<rparr>) ys"
        unfolding pd_step_def using n s1 Cons by (auto simp: pd_pages_def mem_only_upd)
      moreover have "walkpgdir pd va alloc s = Ret (slot x (tabx va)) (s1\<lparr>mem := m'\<rparr>)"
        using np alloc s1 page_ok_nz [OF x(1)]
        by (simp add: walkpgdir_def bnd_def slot_PDX slot_PTX m'_def new_pde_def)
      moreover have "slot x (tabx va) \<noteq> 0" using slot_nz [OF x(1) PTX_lt] .
      ultimately show ?thesis using n(3-5) by (auto simp: wp_def)
    qed
  qed
qed

lemma pd_step_store:
  assumes st: "pd_step pd s xs t ys" and h: "has_tab (mem t) pd (dirx va)"
  shows "pd_step pd s xs (t\<lparr>mem := store32 (mem t) (slot (tab (mem t) pd (dirx va)) (tabx va)) w\<rparr>) ys"
proof -
  have sp: "space (kend t) (mem t) pd ys" and po: "pool t ys" using st by (simp_all add: pd_step_def)
  let ?p = "tab (mem t) pd (dirx va)"
  note n = store_entry [OF sp h refl] and p = spaceD(4) [OF sp PDX_lt h]
  have "pool (t\<lparr>mem := store32 (mem t) (slot ?p (tabx va)) w\<rparr>) ys"
  proof (rule pool_mem [OF po])
    fix y a assume y: "y \<in> set ys" "in_page y a"
    then have "aligned y" "y \<noteq> ?p" using po p by (auto simp: pool_def free_list_def page_ok_def)
    then show "store32 (mem t) (slot ?p (tabx va)) w a = mem t a"
      using y p by (intro n(4) pages_disjoint [of y ?p a]) simp_all
  qed
  moreover have "?p \<in> pd_pages (mem t) pd" using h PDX_lt by (auto simp: pd_pages_def)
  ultimately have "pd_step pd t ys (t\<lparr>mem := store32 (mem t) (slot ?p (tabx va)) w\<rparr>) ys"
    unfolding pd_step_def using n by (auto simp: mem_only_upd)
  then show ?thesis by (rule pd_step_trans [OF st])
qed

text \<open>One page: mapped if it was not, left alone when no page table can be had, and a panic if it was mapped.\<close>

lemma mappage_spec:
  assumes po: "pool s xs" and sp: "space (kend s) (mem s) pd xs" and np: "entry (mem s) pd a AND PTE_P = 0"
  shows "wp (mappage pd perm (a, pa)) (\<lambda>r t. \<exists>ys. pd_step pd s xs t ys \<and> (case r of
      None \<Rightarrow> \<forall>v. entry (mem t) pd v = (if same_page v a then pa OR perm OR PTE_P else entry (mem s) pd v)
    | Some e \<Rightarrow> e = -1 \<and> ys = [] \<and> (\<forall>v. entry (mem t) pd v = entry (mem s) pd v))) s"
proof -
  obtain r t ys where w: "walkpgdir pd a True s = Ret r t" "pd_step pd s xs t ys"
      "\<forall>v. entry (mem t) pd v = entry (mem s) pd v"
      "if r = 0 then mem t = mem s \<and> ys = [] else has_tab (mem t) pd (dirx a) \<and> r = slot (tab (mem t) pd (dirx a)) (tabx a)"
    using walkpgdir_spec [OF po sp, of a True] unfolding wp_iff by (auto split: if_splits)
  show ?thesis
  proof (cases "r = 0")
    case True
    then show ?thesis using w by (auto simp: mappage_def wp_def bnd_def)
  next
    case False
    then have h: "has_tab (mem t) pd (dirx a)" and r: "r = slot (tab (mem t) pd (dirx a)) (tabx a)"
      using w(4) by simp_all
    have "load32 (mem t) r = entry (mem t) pd a" using h r by (simp add: entry_def)
    then have "load32 (mem t) r AND PTE_P = 0" using np w(3) by simp
    then have "mappage pd perm (a, pa) s = Ret None (t\<lparr>mem := store32 (mem t) r (pa OR perm OR PTE_P)\<rparr>)"
      using w(1) False by (simp add: mappage_def bnd_def whenk_def)
    moreover have "space (kend t) (mem t) pd ys" using w(2) by (simp add: pd_step_def)
    ultimately show ?thesis
      using pd_step_store [OF w(2) h, of "pa OR perm OR PTE_P"] store_entry(3) [of "kend t" _ pd ys, OF _ h refl] w(3) r
      by (auto simp: wp_def)
  qed
qed

lemma mappage_remap:
  assumes po: "pool s xs" and sp: "space (kend s) (mem s) pd xs" and p: "entry (mem s) pd a AND PTE_P \<noteq> 0"
  shows "mappage pd perm (a, pa) s = Panic ''remap''"
proof -
  have h: "has_tab (mem s) pd (dirx a)" using p by (auto simp: entry_def split: if_splits)
  then have "walkpgdir pd a True s = Ret (slot (tab (mem s) pd (dirx a)) (tabx a)) s"
    by (simp add: walkpgdir_def bnd_def has_tab_def tab_def pde_def slot_PDX slot_PTX)
  moreover have "slot (tab (mem s) pd (dirx a)) (tabx a) \<noteq> 0"
    using spaceD(4) [OF sp PDX_lt h] slot_nz [OF _ PTX_lt] by blast
  ultimately show ?thesis using p h by (simp add: mappage_def bnd_def whenk_def entry_def)
qed

lemma mappage_list:
  assumes po: "pool s xs" and sp: "space (kend s) (mem s) pd xs"
    and np: "\<forall>(a, pa) \<in> set L. entry (mem s) pd a AND PTE_P = 0"
    and dis: "\<And>i j. i < j \<Longrightarrow> j < length L \<Longrightarrow> \<not> same_page (fst (L ! j)) (fst (L ! i))"
  shows "wp (forexit (mappage pd perm) L) (\<lambda>r t. \<exists>ys. pd_step pd s xs t ys \<and> (case r of
      None \<Rightarrow> \<forall>v. entry (mem t) pd v = (case find (\<lambda>(a, _). same_page v a) L of
        None \<Rightarrow> entry (mem s) pd v | Some (_, pa) \<Rightarrow> pa OR perm OR PTE_P)
    | Some e \<Rightarrow> e = -1 \<and> ys = [] \<and>
        (\<forall>v. find (\<lambda>(a, _). same_page v a) L = None \<longrightarrow> entry (mem t) pd v = entry (mem s) pd v))) s"
proof -
  define look where "look pre v = (case find (\<lambda>(a, _). same_page v a) pre of
    None \<Rightarrow> entry (mem s) pd v | Some (_, pa) \<Rightarrow> pa OR perm OR PTE_P)" for pre v
  let ?I = "\<lambda>pre t. \<exists>ys. pd_step pd s xs t ys \<and> (\<forall>v. entry (mem t) pd v = look pre v)"
  let ?Q = "\<lambda>e t. e = -1 \<and> pd_step pd s xs t [] \<and>
    (\<forall>v. find (\<lambda>(a, _). same_page v a) L = None \<longrightarrow> entry (mem t) pd v = entry (mem s) pd v)"
  have "wp (forexit (mappage pd perm) L) (\<lambda>r. case r of None \<Rightarrow> ?I L | Some e \<Rightarrow> ?Q e) s"
  proof (rule wp_forexit)
    show "?I [] s" using pd_step_refl [OF po sp] by (auto simp: look_def)
  next
    fix pre i rest t assume L: "L = pre @ i # rest" and I: "?I pre t"
    obtain a pa where i: "i = (a, pa)" by (cases i)
    obtain ys where t: "pd_step pd s xs t ys" "\<forall>v. entry (mem t) pd v = look pre v"
      using I by (elim exE conjE) (rule that)
    have n: "\<not> same_page a (fst q)" if "q \<in> set pre" for q
    proof -
      obtain j where "j < length pre" "q = pre ! j" using \<open>q \<in> set pre\<close> by (auto simp: in_set_conv_nth)
      then show ?thesis using dis [of j "length pre"] by (simp add: L i nth_append)
    qed
    then have "find (\<lambda>(b, _). same_page a b) pre = None" by (auto simp: find_None_iff)
    then have "entry (mem t) pd a = entry (mem s) pd a" using t(2) by (simp add: look_def)
    then have np': "entry (mem t) pd a AND PTE_P = 0" using np by (simp add: L i)
    have fr: "find (\<lambda>(b, _). same_page v b) (pre @ [i]) = (case find (\<lambda>(b, _). same_page v b) pre of
        Some q \<Rightarrow> Some q | None \<Rightarrow> if same_page v a then Some (a, pa) else None)" for v
      by (induction pre) (auto simp: i)
    have nv: "find (\<lambda>(b, _). same_page v b) pre = None" if "same_page v a" for v
    proof -
      have "same_page v w \<longleftrightarrow> same_page a w" for w using that by (simp add: same_page_def)
      then show ?thesis using n by (auto simp: find_None_iff)
    qed
    have Lp: "find (\<lambda>(b, _). same_page v b) L = None \<Longrightarrow> find (\<lambda>(b, _). same_page v b) pre = None" for v
      unfolding L by (auto simp: find_None_iff)
    have "pool t ys" "space (kend t) (mem t) pd ys" using t(1) by (simp_all add: pd_step_def)
    from mappage_spec [OF this np', of perm pa]
    show "wp (mappage pd perm i) (\<lambda>r. case r of None \<Rightarrow> ?I (pre @ [i]) | Some e \<Rightarrow> ?Q e) t"
      unfolding i
    proof (rule wp_mono, elim exE conjE)
      fix r u zs
      assume u: "pd_step pd t ys u zs" and r: "case r of
          None \<Rightarrow> \<forall>v. entry (mem u) pd v = (if same_page v a then pa OR perm OR PTE_P else entry (mem t) pd v)
        | Some e \<Rightarrow> e = -1 \<and> zs = [] \<and> (\<forall>v. entry (mem u) pd v = entry (mem t) pd v)"
      note su = pd_step_trans [OF t(1) u]
      show "(case r of None \<Rightarrow> ?I (pre @ [(a, pa)]) | Some e \<Rightarrow> ?Q e) u"
      proof (cases r)
        case None
        then have "\<forall>v. entry (mem u) pd v = look (pre @ [(a, pa)]) v"
          using r t(2) nv fr by (auto simp: i look_def split: option.splits)
        then show ?thesis using None su by auto
      next
        case (Some e)
        then show ?thesis using r su t(2) Lp by (auto simp: look_def)
      qed
    qed
  qed
  then show ?thesis by (rule wp_mono) (auto simp: look_def split: option.splits)
qed

section \<open>Ranges of pages\<close>

lemma PDX_nat: "dirx v = unat v div 4194304" and PTX_nat: "tabx v = unat v div 4096 mod 1024"
proof -
  have "unat v div 4194304 < 1024" using unat_lt32 [of v] by simp
  then show "dirx v = unat v div 4194304"
    by (simp add: PDX_def and_3FF take_bit_eq_mod drop_bit_eq_div unat_mod_distrib unat_div_distrib)
  show "tabx v = unat v div 4096 mod 1024"
    by (simp add: PTX_def and_3FF take_bit_eq_mod drop_bit_eq_div unat_mod_distrib unat_div_distrib)
qed

lemma same_page_iff: "same_page v w \<longleftrightarrow> unat v div 4096 = unat w div 4096"
proof -
  have "same_page v w \<longleftrightarrow> unat v div 4096 div 1024 = unat w div 4096 div 1024 \<and>
      unat v div 4096 mod 1024 = unat w div 4096 mod 1024"
    by (simp add: same_page_def word_unat_eq_iff PDX_nat PTX_nat div_mult2_eq [symmetric])
  then show ?thesis using mult_div_mod_eq [of 1024] by metis
qed

lemma same_page_aligned: "aligned a \<Longrightarrow> same_page v a \<longleftrightarrow> in_page a v"
proof -
  assume a: "aligned a"
  then obtain q where q: "unat a = 4096 * q" unfolding aligned_unat by auto
  have "unat v div 4096 = q \<longleftrightarrow> 4096 * q \<le> unat v \<and> unat v < 4096 * q + 4096" by auto
  then show ?thesis unfolding same_page_iff in_page_unat [OF a] q by simp
qed

text \<open>The index of the page of \<open>v\<close> in a range that starts at \<open>base\<close>.\<close>

definition pgix :: "uint \<Rightarrow> uint \<Rightarrow> nat" where
  "pgix base v = unat (v - base) div 4096"

lemma pgix_lt: "pgix base v < 2 ^ 20"
  using unat_lt32 [of "v - base"] by (simp add: pgix_def)

lemma aligned_page: "aligned base \<Longrightarrow> aligned (base + of_nat i * PGSIZE)"
proof -
  assume "aligned base"
  then have "(unat base + unat (of_nat i * PGSIZE)) mod 4096 = 0"
    unfolding aligned_unat by (simp add: PGSIZE_def unat_word_ariths mod_mod_cancel mod_add_left_eq [symmetric])
  then show ?thesis unfolding aligned_unat by (simp add: unat_word_ariths mod_mod_cancel)
qed

lemma same_page_range:
  assumes "aligned base" and "i < 2 ^ 20"
  shows "same_page v (base + of_nat i * PGSIZE) \<longleftrightarrow> i = pgix base v"
proof -
  let ?c = "of_nat (4096 * i) :: uint"
  have u: "unat ?c = 4096 * i" using assms(2) by (simp add: unat_of_nat del: of_nat_mult)
  then have c: "aligned ?c" by (simp add: word_unat_eq_iff PGSIZE_def unat_mod_4096 del: of_nat_mult)
  have e: "base + of_nat i * PGSIZE = base + ?c" by (simp add: PGSIZE_def)
  have "same_page v (base + ?c) \<longleftrightarrow> in_page (base + ?c) v"
    using aligned_page [OF assms(1), of i] unfolding e by (rule same_page_aligned)
  also have "\<dots> \<longleftrightarrow> in_page ?c (v - base)" by (simp add: in_page_def algebra_simps del: of_nat_mult)
  also have "\<dots> \<longleftrightarrow> same_page (v - base) ?c" using same_page_aligned [OF c] by simp
  also have "\<dots> \<longleftrightarrow> i = pgix base v" unfolding same_page_iff pgix_def u by auto
  finally show ?thesis unfolding e .
qed

text \<open>The pages \<open>mappages\<close> maps: those from \<open>PGROUNDDOWN va\<close> to the one that holds the last byte.\<close>

definition last_ix :: "uint \<Rightarrow> uint \<Rightarrow> nat" where
  "last_ix va len = pgix (PGROUNDDOWN va) (PGROUNDDOWN (va + len - 1))"

abbreviation mapped_range :: "uint \<Rightarrow> uint \<Rightarrow> uint \<Rightarrow> bool" where
  "mapped_range va len v \<equiv> pgix (PGROUNDDOWN va) v \<le> last_ix va len"

lemma aligned_PGROUNDDOWN: "aligned (PGROUNDDOWN a)"
  unfolding aligned_unat PGROUNDDOWN_arith by (simp add: dvd_minus_mod flip: dvd_eq_mod_eq_0)

lemma find_upt_unique: "(\<And>i. i < n \<Longrightarrow> P i \<longleftrightarrow> i = k) \<Longrightarrow> find P [0..<n] = (if k < n then Some k else None)"
  using find_first_Some [of P n k] find_first_None [of P n] by auto

lemma find_map: "find P (map f is) = map_option f (find (\<lambda>i. P (f i)) is)"
  by (induction "is") auto

lemma find_map_range:
  assumes "aligned base"
  shows "find (\<lambda>(a, _). same_page v a) (map_range base lst pa) =
    (if pgix base v \<le> pgix base lst
     then Some (base + of_nat (pgix base v) * PGSIZE, pa + of_nat (pgix base v) * PGSIZE) else None)"
proof -
  have "find (\<lambda>i. same_page v (base + of_nat i * PGSIZE)) [0..<Suc (pgix base lst)] =
      (if pgix base v < Suc (pgix base lst) then Some (pgix base v) else None)"
  proof (rule find_upt_unique)
    fix i assume "i < Suc (pgix base lst)"
    then have "i < 2 ^ 20" using pgix_lt [of base lst] by simp
    then show "same_page v (base + of_nat i * PGSIZE) \<longleftrightarrow> i = pgix base v" by (rule same_page_range [OF assms])
  qed
  then show ?thesis
    by (auto simp: map_range_def find_map pgix_def simp del: upt_Suc)
qed

lemma mappages_spec:
  assumes po: "pool s xs" and sp: "space (kend s) (mem s) pd xs"
    and np: "\<forall>v. mapped_range va len v \<longrightarrow> entry (mem s) pd v AND PTE_P = 0"
  shows "wp (mappages pd va len pa perm) (\<lambda>r t. \<exists>ys. pd_step pd s xs t ys \<and>
    (r = 0 \<and> (\<forall>v. entry (mem t) pd v = (if mapped_range va len v
        then (pa + of_nat (pgix (PGROUNDDOWN va) v) * PGSIZE) OR perm OR PTE_P else entry (mem s) pd v)) \<or>
     r = -1 \<and> ys = [] \<and> (\<forall>v. \<not> mapped_range va len v \<longrightarrow> entry (mem t) pd v = entry (mem s) pd v))) s"
proof -
  let ?b = "PGROUNDDOWN va" and ?l = "PGROUNDDOWN (va + len - 1)"
  have al: "aligned ?b" by (rule aligned_PGROUNDDOWN)
  have nth: "fst (map_range ?b ?l pa ! i) = ?b + of_nat i * PGSIZE" "i < 2 ^ 20" if "i < length (map_range ?b ?l pa)" for i
    using that pgix_lt [of ?b ?l] by (simp_all add: map_range_def pgix_def del: upt_Suc)
  have ix: "pgix ?b (?b + of_nat i * PGSIZE) = i" if "i < 2 ^ 20" for i
    using same_page_range [OF al that, of "?b + of_nat i * PGSIZE"] by (simp add: same_page_def)
  have "\<forall>(a, p) \<in> set (map_range ?b ?l pa). entry (mem s) pd a AND PTE_P = 0"
  proof clarify
    fix a p assume "(a, p) \<in> set (map_range ?b ?l pa)"
    then obtain i where i: "a = ?b + of_nat i * PGSIZE" "i \<le> pgix ?b ?l"
      by (auto simp: map_range_def pgix_def simp del: upt_Suc)
    then show "entry (mem s) pd a AND PTE_P = 0" using np ix [of i] pgix_lt [of ?b ?l] by (auto simp: last_ix_def)
  qed
  moreover have "\<not> same_page (fst (map_range ?b ?l pa ! j)) (fst (map_range ?b ?l pa ! i))"
    if "i < j" "j < length (map_range ?b ?l pa)" for i j
    using nth [of i] nth [of j] ix [of j] same_page_range [OF al, of i] that by auto
  ultimately have "wp (forexit (mappage pd perm) (map_range ?b ?l pa)) (\<lambda>r t. \<exists>ys. pd_step pd s xs t ys \<and> (case r of
      None \<Rightarrow> \<forall>v. entry (mem t) pd v = (case find (\<lambda>(a, _). same_page v a) (map_range ?b ?l pa) of
        None \<Rightarrow> entry (mem s) pd v | Some (_, pa) \<Rightarrow> pa OR perm OR PTE_P)
    | Some e \<Rightarrow> e = -1 \<and> ys = [] \<and> (\<forall>v. find (\<lambda>(a, _). same_page v a) (map_range ?b ?l pa) = None \<longrightarrow>
        entry (mem t) pd v = entry (mem s) pd v))) s"
    by (rule mappage_list [OF po sp])
  then show ?thesis unfolding mappages_def wp_bnd wp_ret find_map_range [OF al] last_ix_def
    by (rule wp_mono) (auto split: option.splits if_splits)
qed

end
