(* ===== verification/Uvm.thy ===== *)
theory Uvm
  imports Pagetable
begin

text \<open>
  User address spaces (\<open>vm.c\<close>): \<open>uvm\<close> is the invariant of a process's memory of \<open>sz\<close> bytes: exactly the pages below
  \<open>sz\<close> are mapped, to distinct pages of the allocator that are neither free nor part of the page table. \<open>allocuvm\<close>,
  \<open>deallocuvm\<close>, \<open>copyuvm\<close> and \<open>freevm\<close> keep it, lose no page, and leave the rest of memory alone.
\<close>

section \<open>The invariant\<close>

abbreviation present :: "uint \<Rightarrow> bool" where
  "present e \<equiv> e AND PTE_P \<noteq> 0"

text \<open>The page \<open>v\<close> is mapped to, at its kernel address.\<close>

definition upage :: "memory \<Rightarrow> uint \<Rightarrow> uint \<Rightarrow> uint" where
  "upage m pd v = P2V (PTE_ADDR (entry m pd v))"

definition mapped :: "memory \<Rightarrow> uint \<Rightarrow> uint set" where
  "mapped m pd = {v. v < KERNBASE \<and> present (entry m pd v)}"

text \<open>All pages of an address space: directory, tables and user pages.\<close>

definition upages :: "memory \<Rightarrow> uint \<Rightarrow> uint set" where
  "upages m pd = pd_pages m pd \<union> upage m pd ` mapped m pd"

definition uspace :: "uint \<Rightarrow> memory \<Rightarrow> uint \<Rightarrow> uint list \<Rightarrow> bool" where
  "uspace e m pd xs \<longleftrightarrow> KERNBASE < e \<and> space e m pd xs \<and>
     (\<forall>v \<in> mapped m pd. page_ok e (upage m pd v) \<and> upage m pd v \<notin> pd_pages m pd \<and> upage m pd v \<notin> set xs) \<and>
     (\<forall>v \<in> mapped m pd. \<forall>w \<in> mapped m pd. upage m pd v = upage m pd w \<longrightarrow> same_page v w)"

text \<open>What user code reads at address \<open>v\<close>.\<close>

definition ubyte :: "memory \<Rightarrow> uint \<Rightarrow> uint \<Rightarrow> byte" where
  "ubyte m pd v = m (upage m pd v + (v AND 0xFFF))"

lemma same_page_entry: "same_page v w \<Longrightarrow> entry m pd v = entry m pd w"
  by (simp add: same_page_def entry_def)

lemma same_page_upage: "same_page v w \<Longrightarrow> upage m pd v = upage m pd w"
  by (simp add: upage_def same_page_entry [of v w])

lemma uspaceD:
  assumes "uspace e m pd xs" and "v \<in> mapped m pd"
  shows "page_ok e (upage m pd v)" and "aligned (upage m pd v)" and "upage m pd v \<notin> pd_pages m pd"
    and "upage m pd v \<notin> set xs" and "w \<in> mapped m pd \<Longrightarrow> upage m pd v = upage m pd w \<Longrightarrow> same_page v w"
  using assms by (auto simp: uspace_def page_ok_def)

lemma uspaceI:
  assumes "KERNBASE < e" and "space e m pd xs"
    and "\<And>v. v \<in> mapped m pd \<Longrightarrow> page_ok e (upage m pd v) \<and> upage m pd v \<notin> pd_pages m pd \<and> upage m pd v \<notin> set xs"
    and "\<And>v w. v \<in> mapped m pd \<Longrightarrow> w \<in> mapped m pd \<Longrightarrow> upage m pd v = upage m pd w \<Longrightarrow> same_page v w"
  shows "uspace e m pd xs"
  using assms by (simp add: uspace_def)

lemma upages_ok: "uspace e m pd xs \<Longrightarrow> p \<in> upages m pd \<Longrightarrow> page_ok e p"
  using pd_pages_ok [of e m pd xs p] by (auto simp: upages_def uspace_def)

lemma upages_free: "uspace e m pd xs \<Longrightarrow> upages m pd \<inter> set xs = {}"
  by (auto simp: upages_def uspace_def space_def)

text \<open>How an operation on an address space moves from one state to the next: no page is lost, the kernel's entries
  and the rest of the kernel's state stay, and memory outside the pages of the space and the free pages does not change.\<close>

definition ustep :: "uint \<Rightarrow> 'z kmem_state_scheme \<Rightarrow> uint list \<Rightarrow> 'z kmem_state_scheme \<Rightarrow> uint list \<Rightarrow> bool" where
  "ustep pd s xs t ys \<longleftrightarrow> pool t ys \<and> kend t = kend s \<and> mem_only s t \<and> uspace (kend s) (mem t) pd ys \<and>
     upages (mem t) pd \<union> set ys = upages (mem s) pd \<union> set xs \<and>
     (\<forall>v. KERNBASE \<le> v \<longrightarrow> entry (mem t) pd v = entry (mem s) pd v) \<and>
     (\<forall>a. (\<forall>p \<in> upages (mem s) pd \<union> set xs. \<not> in_page p a) \<longrightarrow> mem t a = mem s a)"

lemma ustep_refl: "pool s xs \<Longrightarrow> uspace (kend s) (mem s) pd xs \<Longrightarrow> ustep pd s xs s xs"
  by (simp add: ustep_def)

lemma ustep_trans: "ustep pd s xs t ys \<Longrightarrow> ustep pd t ys u zs \<Longrightarrow> ustep pd s xs u zs"
  unfolding ustep_def by (auto intro: mem_only_trans)

lemma ustepD: "ustep pd s xs t ys \<Longrightarrow> pool t ys" "ustep pd s xs t ys \<Longrightarrow> kend t = kend s"
  "ustep pd s xs t ys \<Longrightarrow> uspace (kend t) (mem t) pd ys"
  by (simp_all add: ustep_def)

text \<open>The mapping of \<open>v\<close> and the contents of its page are the same in both states.\<close>

definition kept :: "uint \<Rightarrow> memory \<Rightarrow> memory \<Rightarrow> uint \<Rightarrow> bool" where
  "kept pd m m' v \<longleftrightarrow> entry m' pd v = entry m pd v \<and> (\<forall>a. in_page (upage m pd v) a \<longrightarrow> m' a = m a)"

lemma kept_refl [simp]: "kept pd m m v"
  by (simp add: kept_def)

lemma kept_trans: "kept pd m m' v \<Longrightarrow> kept pd m' m'' v \<Longrightarrow> kept pd m m'' v"
  by (simp add: kept_def upage_def)

lemma page_byte: "in_page p (p + (v AND 0xFFF))"
proof -
  have "v AND 0xFFF < 4096" by (simp add: and_FFF word_less_nat_alt unat_mod_4096)
  then show ?thesis by (simp add: in_page_def PGSIZE_def)
qed

lemma kept_ubyte: "kept pd m m' v \<Longrightarrow> ubyte m' pd v = ubyte m pd v"
  using page_byte by (simp add: kept_def ubyte_def upage_def)

section \<open>One page\<close>

lemma aligned_range: "aligned a \<Longrightarrow> PGROUNDDOWN a = a"
proof -
  assume "aligned a"
  then have "unat (PGROUNDDOWN a) = unat a" unfolding aligned_unat by (simp add: PGROUNDDOWN_arith)
  then show ?thesis by (simp add: word_unat_eq_iff)
qed

lemma one_page_last: "aligned a \<Longrightarrow> PGROUNDDOWN (a + PGSIZE - 1) = a"
proof -
  assume a: "aligned a"
  have "unat a \<le> 2 ^ 32 - 4096" by (rule aligned_top [OF a])
  then have "unat (a + PGSIZE - 1) = unat a + 4095" by (simp add: PGSIZE_def unat_word_ariths)
  moreover have "unat a mod 4096 = 0" using a unfolding aligned_unat .
  ultimately have "unat (PGROUNDDOWN (a + PGSIZE - 1)) = unat a"
    by (simp add: PGROUNDDOWN_arith mod_add_left_eq [symmetric])
  then show ?thesis by (simp add: word_unat_eq_iff)
qed

lemma mappages_one:
  assumes "pool s xs" and "space (kend s) (mem s) pd xs" and "aligned a" and "\<not> present (entry (mem s) pd a)"
  shows "wp (mappages pd a PGSIZE pa fl) (\<lambda>r t. \<exists>ys. pd_step pd s xs t ys \<and>
    (r = 0 \<and> (\<forall>v. entry (mem t) pd v = (if same_page v a then pa OR fl OR PTE_P else entry (mem s) pd v)) \<or>
     r = -1 \<and> ys = [] \<and> (\<forall>v. entry (mem t) pd v = entry (mem s) pd v))) s"
proof -
  have "map_range a a pa = [(a, pa)]" by (simp add: map_range_def)
  then have eq: "mappages pd a PGSIZE pa fl = bnd (mappage pd fl (a, pa)) (\<lambda>r. ret (case r of None \<Rightarrow> 0 | Some e \<Rightarrow> e))"
    using assms(3) by (simp add: mappages_def aligned_range one_page_last bnd_def fun_eq_iff split: res.split option.split)
  have np: "entry (mem s) pd a AND PTE_P = 0" using assms(4) by simp
  show ?thesis unfolding eq wp_bnd wp_ret
    using mappage_spec [OF assms(1,2) np] by (rule wp_mono) (auto split: option.splits)
qed

lemma KERNBASE_page: "same_page v w \<Longrightarrow> v < KERNBASE \<longleftrightarrow> w < KERNBASE"
proof -
  assume "same_page v w"
  moreover have "unat u < 2147483648 \<longleftrightarrow> unat u div 4096 < 524288" for u :: uint by auto
  ultimately show ?thesis by (simp add: same_page_iff word_less_nat_alt KERNBASE_def)
qed

lemma same_page_refl [simp]: "same_page v v" and same_page_sym: "same_page v w \<Longrightarrow> same_page w v"
  and same_page_trans: "same_page u v \<Longrightarrow> same_page v w \<Longrightarrow> same_page u w"
  by (simp_all add: same_page_def)

text \<open>Steps of the table alone leave every user page in place.\<close>

lemma pd_step_frame:
  assumes "uspace (kend s) (mem s) pd xs" and "pd_step pd s xs t ys" and "v \<in> mapped (mem s) pd" and "in_page (upage (mem s) pd v) a"
  shows "mem t a = mem s a"
proof -
  note d = uspaceD [OF assms(1,3)]
  have "space (kend s) (mem s) pd xs" using assms(1) by (simp add: uspace_def)
  moreover have "pool t ys" "set ys \<subseteq> set xs" "pd_pages (mem t) pd \<union> set ys = pd_pages (mem s) pd \<union> set xs"
    "space (kend s) (mem t) pd ys" "kend t = kend s"
    using assms(2) by (simp_all add: pd_step_def)
  ultimately have "\<not> in_page p a" if "p \<in> pd_pages (mem s) pd \<union> set xs" for p
  proof -
    have "page_ok (kend s) p" if "p \<in> pd_pages (mem t) pd \<union> set ys" for p
      using that pd_pages_ok [OF \<open>space (kend s) (mem t) pd ys\<close>] \<open>pool t ys\<close> \<open>kend t = kend s\<close>
      by (auto simp: pool_def free_list_def)
    then have "aligned p" using that \<open>pd_pages (mem t) pd \<union> set ys = _\<close> by (auto simp: page_ok_def)
    moreover have "upage (mem s) pd v \<noteq> p" using that d by auto
    ultimately show ?thesis using pages_disjoint [OF d(2), of p a] assms(4) by simp
  qed
  then show ?thesis using assms(2) by (auto simp: pd_step_def)
qed

lemma pd_step_ustep:
  assumes u: "uspace (kend s) (mem s) pd xs" and st: "pd_step pd s xs t ys"
    and e: "\<forall>v. entry (mem t) pd v = entry (mem s) pd v"
  shows "ustep pd s xs t ys"
proof -
  have m: "mapped (mem t) pd = mapped (mem s) pd" "upage (mem t) pd v = upage (mem s) pd v" for v
    using e by (simp_all add: mapped_def upage_def)
  have pg: "pd_pages (mem t) pd \<union> set ys = pd_pages (mem s) pd \<union> set xs" using st by (simp add: pd_step_def)
  have "upage (mem s) pd v \<notin> pd_pages (mem t) pd \<union> set ys" if "v \<in> mapped (mem s) pd" for v
    unfolding pg using uspaceD(3,4) [OF u that] by simp
  then have "uspace (kend s) (mem t) pd ys"
    using u st by (auto simp: uspace_def m pd_step_def)
  then show ?thesis using st e pg by (auto simp: ustep_def pd_step_def upages_def m)
qed

text \<open>A fresh page \<open>x\<close> becomes the page of \<open>a\<close>.\<close>

lemma uspace_map:
  assumes u: "uspace (kend s) (mem s) pd xs" and st: "pd_step pd s xs t ys"
    and a: "a < KERNBASE" "\<not> present (entry (mem s) pd a)"
    and x: "page_ok (kend s) x" "x \<notin> upages (mem s) pd" "x \<notin> set xs"
    and e: "\<forall>v. entry (mem t) pd v = (if same_page v a then w else entry (mem s) pd v)"
    and w: "present w" "P2V (PTE_ADDR w) = x"
  shows "uspace (kend s) (mem t) pd ys"
    and "upages (mem t) pd \<union> set ys = insert x (upages (mem s) pd \<union> set xs)"
    and "mapped (mem t) pd = mapped (mem s) pd \<union> {v. same_page v a}" and "upage (mem t) pd a = x"
    and "\<And>v. v \<in> mapped (mem s) pd \<Longrightarrow> upage (mem t) pd v = upage (mem s) pd v"
proof -
  have na: "\<not> same_page v a" if "v \<in> mapped (mem s) pd" for v
    using that a same_page_entry [of v a "mem s" pd] by (auto simp: mapped_def)
  show m: "mapped (mem t) pd = mapped (mem s) pd \<union> {v. same_page v a}"
    using e w KERNBASE_page a na by (auto simp: mapped_def split: if_splits)
  have up: "upage (mem t) pd v = (if same_page v a then x else upage (mem s) pd v)" for v
    using e w by (simp add: upage_def)
  then show "upage (mem t) pd a = x" by simp
  show "upage (mem t) pd v = upage (mem s) pd v" if "v \<in> mapped (mem s) pd" for v using up na [OF that] by simp
  have pg: "pd_pages (mem t) pd \<union> set ys = pd_pages (mem s) pd \<union> set xs" using st by (simp add: pd_step_def)
  have n: "upage (mem t) pd v \<notin> pd_pages (mem t) pd \<union> set ys" if "v \<in> mapped (mem t) pd" for v
    unfolding pg up using that uspaceD(3,4) [OF u, of v] x by (auto simp: m upages_def)
  have i: "same_page v v'" if "v \<in> mapped (mem t) pd" "v' \<in> mapped (mem t) pd" "upage (mem t) pd v = upage (mem t) pd v'"
    for v v'
  proof -
    have "upage (mem s) pd y \<noteq> x" if "y \<in> mapped (mem s) pd" for y using that x(2) by (auto simp: upages_def)
    then show ?thesis using that uspaceD(5) [OF u, of v v'] unfolding m up
      by (auto split: if_splits intro: same_page_trans same_page_sym)
  qed
  have "page_ok (kend s) (upage (mem t) pd v)" if "v \<in> mapped (mem t) pd" for v
    using that uspaceD(1) [OF u, of v] x unfolding m up by auto
  then show "uspace (kend s) (mem t) pd ys" using n i u st by (auto simp: uspace_def pd_step_def)
  have "upage (mem t) pd ` mapped (mem t) pd = insert x (upage (mem s) pd ` mapped (mem s) pd)"
    unfolding m up using na same_page_refl [of a] by (auto simp: image_iff simp del: same_page_refl)
  then show "upages (mem t) pd \<union> set ys = insert x (upages (mem s) pd \<union> set xs)" using pg by (auto simp: upages_def)
qed

text \<open>Changes outside the table's pages do not concern it; a free page may be taken out of the free list.\<close>

lemma uspace_mem:
  assumes u: "uspace e m pd xs" and same: "\<And>p b. p \<in> pd_pages m pd \<Longrightarrow> in_page p b \<Longrightarrow> m' b = m b"
    and sub: "upages m pd \<inter> set ys = {}"
  shows "uspace e m' pd ys" and "\<And>v. entry m' pd v = entry m pd v" and "pd_pages m' pd = pd_pages m pd"
    and "upages m' pd = upages m pd" and "mapped m' pd = mapped m pd" and "\<And>v. upage m' pd v = upage m pd v"
proof -
  have sp: "space e m pd xs" using u by (simp add: uspace_def)
  show e: "entry m' pd v = entry m pd v" for v using same by (intro entry_frame [symmetric]) simp
  have "space e m' pd xs" and pg: "pd_pages m' pd = pd_pages m pd"
    using space_frame [OF sp, of m'] same [of pd] by (auto simp: pd_pages_def)
  then have sp': "space e m' pd ys" using sub by (auto simp: space_def upages_def)
  show "pd_pages m' pd = pd_pages m pd" by (rule pg)
  show mp: "mapped m' pd = mapped m pd" and up: "upage m' pd v = upage m pd v" for v by (simp_all add: mapped_def upage_def e)
  show "upages m' pd = upages m pd" by (simp add: upages_def pg mp up)
  show "uspace e m' pd ys"
  proof (rule uspaceI [OF _ sp'])
    show "KERNBASE < e" using u by (simp add: uspace_def)
    show "page_ok e (upage m' pd v) \<and> upage m' pd v \<notin> pd_pages m' pd \<and> upage m' pd v \<notin> set ys"
      if "v \<in> mapped m' pd" for v
      using that uspaceD [OF u, of v] sub by (auto simp: mp up pg upages_def)
    show "same_page v w" if "v \<in> mapped m' pd" "w \<in> mapped m' pd" "upage m' pd v = upage m' pd w" for v w
      using that uspaceD(5) [OF u, of v w] by (simp add: mp up)
  qed
qed

lemma less_page_iff: "(w :: uint) < 4096 \<longleftrightarrow> take_bit 12 w = w"
proof -
  have "unat w mod 4096 = unat w \<longleftrightarrow> unat w < 4096" using mod_less_divisor [of 4096 "unat w"] by auto
  then show ?thesis by (simp add: take_bit_eq_mod word_unat_eq_iff unat_mod_4096 word_less_nat_alt)
qed

lemma new_entry: "aligned x \<Longrightarrow> fl < 4096 \<Longrightarrow> P2V (PTE_ADDR (V2P x OR fl OR PTE_P)) = x" "present (V2P x OR fl OR PTE_P)"
proof -
  have "fl OR PTE_P < 4096" if "fl < 4096"
    using that unfolding less_page_iff by (simp add: PTE_P_def)
  then show "P2V (PTE_ADDR (V2P x OR fl OR PTE_P)) = x" if "aligned x" "fl < 4096"
    using PTE_ADDR_or [OF V2P_aligned [OF that(1)]] that by (simp add: or.assoc P2V_def V2P_def)
  have "bit (V2P x OR fl OR PTE_P) 0" by (simp add: PTE_P_def bit_or_iff)
  then show "present (V2P x OR fl OR PTE_P)" by (auto simp: PTE_P_def bit_eq_iff bit_and_iff intro: exI [of _ 0])
qed

text \<open>A page \<open>x\<close> off the free list, filled with whatever \<open>m'\<close> holds, is mapped at \<open>a\<close>; or there was no page for a new
  table, and all mappings are as before.\<close>

lemma map_user:
  assumes po: "pool s (x # xs)" and u: "uspace (kend s) (mem s) pd (x # xs)"
    and s1: "pool s1 xs" "kend s1 = kend s" "mem s1 = mem s" "mem_only s s1" and m': "\<And>b. \<not> in_page x b \<Longrightarrow> m' b = mem s b"
    and a: "aligned a" "a < KERNBASE" "\<not> present (entry (mem s) pd a)" and fl: "fl < 4096"
  shows "wp (mappages pd a PGSIZE (V2P x) fl) (\<lambda>r t. \<exists>ys.
    (r = 0 \<and> ustep pd s (x # xs) t ys \<and>
      (\<forall>v. entry (mem t) pd v = (if same_page v a then V2P x OR fl OR PTE_P else entry (mem s) pd v)) \<and>
      (\<forall>b. in_page x b \<longrightarrow> mem t b = m' b) \<or>
     r = -1 \<and> ys = [] \<and> ustep pd (s1\<lparr>mem := m'\<rparr>) xs t [] \<and> (\<forall>v. entry (mem t) pd v = entry (mem s) pd v)) \<and>
    (\<forall>v \<in> mapped (mem s) pd. kept pd (mem s) (mem t) v)) (s1\<lparr>mem := m'\<rparr>)"
proof -
  let ?s = "s1\<lparr>mem := m'\<rparr>"
  have x: "page_ok (kend s) x" "x \<notin> set xs" and xs: "\<And>y. y \<in> set xs \<Longrightarrow> page_ok (kend s) y" and al: "aligned x"
    using po by (auto simp: pool_def free_list_def page_ok_def)
  have xu: "x \<notin> upages (mem s) pd" using upages_free [OF u] by simp
  have off: "m' b = mem s b" if "page_ok (kend s) p" "p \<noteq> x" "in_page p b" for p b
    using m' pages_disjoint [of p x b] that al by (simp add: page_ok_def)
  have same: "m' b = mem s b" if "p \<in> pd_pages (mem s) pd" "in_page p b" for p b
    using that xu upages_ok [OF u, of p] off [of p b] by (auto simp: upages_def)
  have xf: "upages (mem s) pd \<inter> set xs = {}" using upages_free [OF u] by auto
  note n = uspace_mem [OF u, of m' xs, OF same]
  have n': "uspace (kend s) m' pd xs" "pd_pages m' pd = pd_pages (mem s) pd" "upages m' pd = upages (mem s) pd"
      "mapped m' pd = mapped (mem s) pd" "\<And>v. entry m' pd v = entry (mem s) pd v"
      "\<And>v. upage m' pd v = upage (mem s) pd v"
    by (rule n, assumption, assumption, rule xf)+
  have po': "pool ?s xs" using pool_mem [OF s1(1), of m'] off xs x s1(3) by auto
  have us: "uspace (kend ?s) (mem ?s) pd xs" using n' s1 by simp
  then have sps: "space (kend ?s) (mem ?s) pd xs" by (simp add: uspace_def)
  have np: "\<not> present (entry (mem ?s) pd a)" using a n' by simp
  show ?thesis using mappages_one [OF po' sps a(1) np, of "V2P x" fl]
  proof (rule wp_mono, elim exE conjE)
    fix r :: int and t ys
    assume st: "pd_step pd ?s xs t ys" and r: "r = 0 \<and> (\<forall>v. entry (mem t) pd v =
        (if same_page v a then V2P x OR fl OR PTE_P else entry (mem ?s) pd v)) \<or>
      r = -1 \<and> ys = [] \<and> (\<forall>v. entry (mem t) pd v = entry (mem ?s) pd v)"
    have e: "entry (mem t) pd v = entry (mem s) pd v" if "v \<in> mapped (mem s) pd" for v
    proof -
      have "\<not> same_page v a" using that a(3) same_page_entry [of v a "mem s" pd] by (auto simp: mapped_def)
      then show ?thesis using r n' by auto
    qed
    have k: "\<forall>v \<in> mapped (mem s) pd. kept pd (mem s) (mem t) v"
    proof
      fix v assume v: "v \<in> mapped (mem s) pd"
      have "mem t b = mem s b" if "in_page (upage (mem s) pd v) b" for b
        using pd_step_frame [OF us st, of v b] off [OF uspaceD(1) [OF u v] _ that] uspaceD(4) [OF u v] that v n' by auto
      then show "kept pd (mem s) (mem t) v" using e [OF v] by (simp add: kept_def)
    qed
    have fr: "mem t b = m' b" if "\<And>p. p \<in> pd_pages (mem s) pd \<union> set xs \<Longrightarrow> \<not> in_page p b" for b
      using st that n' by (simp add: pd_step_def)
    have "ustep pd s (x # xs) t ys \<and> (\<forall>b. in_page x b \<longrightarrow> mem t b = m' b)" if r0: "r = 0"
    proof (intro conjI allI impI)
      have et: "\<forall>v. entry (mem t) pd v = (if same_page v a then V2P x OR fl OR PTE_P else entry (mem ?s) pd v)"
        using r r0 by auto
      have "page_ok (kend ?s) x" "x \<notin> upages (mem ?s) pd" using x xu s1 n' by simp_all
      note um = uspace_map [OF us st a(2) np this x(2) et new_entry(2) new_entry(1) [OF al fl]]
      have "\<not> same_page v a" if "KERNBASE \<le> v" for v using KERNBASE_page [of v a] a(2) that by auto
      moreover have "mem_only s t" using st mem_only_trans [OF mem_only_upd(1) [OF s1(4), of m']] by (simp add: pd_step_def)
      ultimately show "ustep pd s (x # xs) t ys"
        using um(1,2) st et n' s1(1-3) fr m' unfolding ustep_def by (auto simp: pd_step_def upages_def)
      show "mem t b = m' b" if "in_page x b" for b
        using that pages_disjoint [OF al] xs x xu pd_pages_ok [OF sps] s1 n'
        by (intro fr) (auto simp: page_ok_def upages_def)
    qed
    moreover have "ustep pd ?s xs t ys" if "r = -1" using pd_step_ustep [OF us st] r that by auto
    ultimately show "\<exists>ys. (r = 0 \<and> ustep pd s (x # xs) t ys \<and>
        (\<forall>v. entry (mem t) pd v = (if same_page v a then V2P x OR fl OR PTE_P else entry (mem s) pd v)) \<and>
        (\<forall>b. in_page x b \<longrightarrow> mem t b = m' b) \<or>
       r = -1 \<and> ys = [] \<and> ustep pd ?s xs t [] \<and> (\<forall>v. entry (mem t) pd v = entry (mem s) pd v)) \<and>
      (\<forall>v \<in> mapped (mem s) pd. kept pd (mem s) (mem t) v)"
      using r k n' by auto
  qed
qed

text \<open>A mapped page is unmapped and freed.\<close>

lemma mapped_unmap:
  "(\<And>v. entry m' pd v = (if same_page v a then 0 else entry m pd v)) \<Longrightarrow> mapped m' pd = mapped m pd - {v. same_page v a}"
  by (auto simp: mapped_def split: if_splits)

lemma uspace_unmap:
  assumes u: "uspace e m pd xs" and a: "a \<in> mapped m pd" and sp: "space e m' pd (upage m pd a # xs)"
    and e: "\<And>v. entry m' pd v = (if same_page v a then 0 else entry m pd v)" and pg: "pd_pages m' pd = pd_pages m pd"
  shows "uspace e m' pd (upage m pd a # xs)" and "upages m' pd \<union> set (upage m pd a # xs) = upages m pd \<union> set xs"
    and "mapped m' pd = mapped m pd - {v. same_page v a}"
proof -
  show mp: "mapped m' pd = mapped m pd - {v. same_page v a}" using e by (rule mapped_unmap)
  have up: "upage m' pd v = upage m pd v" if "\<not> same_page v a" for v using that by (simp add: upage_def e)
  have v: "page_ok e (upage m' pd v) \<and> upage m' pd v \<notin> pd_pages m' pd \<and> upage m' pd v \<notin> set (upage m pd a # xs)"
    if "v \<in> mapped m' pd" for v
  proof -
    have v: "v \<in> mapped m pd" "\<not> same_page v a" using that by (simp_all add: mp)
    then have "upage m pd v \<noteq> upage m pd a" using uspaceD(5) [OF u v(1) a] by auto
    then show ?thesis using uspaceD(1,3,4) [OF u v(1)] by (simp add: up [OF v(2)] pg)
  qed
  have i: "same_page v w" if "v \<in> mapped m' pd" "w \<in> mapped m' pd" "upage m' pd v = upage m' pd w" for v w
    using that uspaceD(5) [OF u, of v w] unfolding mp by (simp add: up)
  have "KERNBASE < e" using u by (simp add: uspace_def)
  then show "uspace e m' pd (upage m pd a # xs)" using sp v i by (rule uspaceI)
  have "upage m pd ` mapped m pd = insert (upage m pd a) (upage m' pd ` mapped m' pd)"
  proof -
    have s: "mapped m pd = {v \<in> mapped m pd. same_page v a} \<union> mapped m' pd" unfolding mp by auto
    have "upage m pd ` {v \<in> mapped m pd. same_page v a} = (\<lambda>_. upage m pd a) ` {v \<in> mapped m pd. same_page v a}"
      by (rule image_cong [OF refl]) (rule same_page_upage, simp)
    then have "upage m pd ` {v \<in> mapped m pd. same_page v a} = {upage m pd a}" using a by auto
    moreover have "upage m pd ` mapped m' pd = upage m' pd ` mapped m' pd"
      by (rule image_cong) (simp_all add: mp up)
    ultimately show ?thesis by (subst s) (simp add: image_Un)
  qed
  then show "upages m' pd \<union> set (upage m pd a # xs) = upages m pd \<union> set xs" by (auto simp: upages_def pg)
qed

lemma unmap_user:
  assumes po: "pool s xs" and u: "uspace (kend s) (mem s) pd xs" and a: "a \<in> mapped (mem s) pd"
  shows "wp (deallocuvm_page pd a) (\<lambda>r t. r = a + PGSIZE \<and> ustep pd s xs t (upage (mem s) pd a # xs) \<and>
    (\<forall>v. entry (mem t) pd v = (if same_page v a then 0 else entry (mem s) pd v)) \<and>
    (\<forall>v \<in> mapped (mem s) pd. \<not> same_page v a \<longrightarrow> kept pd (mem s) (mem t) v)) s"
proof -
  let ?p = "upage (mem s) pd a" and ?t = "tab (mem s) pd (dirx a)"
  note d = uspaceD [OF u a]
  have sp: "space (kend s) (mem s) pd xs" and kb: "KERNBASE < kend s" using u by (simp_all add: uspace_def)
  have pr: "present (entry (mem s) pd a)" using a by (simp add: mapped_def)
  then have h: "has_tab (mem s) pd (dirx a)" by (auto simp: entry_def split: if_splits)
  note tb = spaceD(4) [OF sp PDX_lt h]
  have tin: "?t \<in> pd_pages (mem s) pd" using h PDX_lt by (auto simp: pd_pages_def)
  then have tp: "?t \<noteq> ?p" using d(3) by auto
  have en: "load32 (mem s) (slot ?t (tabx a)) = entry (mem s) pd a" using h by (simp add: entry_def)
  have nz: "PTE_ADDR (entry (mem s) pd a) \<noteq> 0"
  proof
    assume "PTE_ADDR (entry (mem s) pd a) = 0"
    then have "?p = KERNBASE" by (simp add: upage_def P2V_def)
    then show False using d(1) kb by (simp add: page_ok_def linorder_not_less [symmetric])
  qed
  obtain s1 where s1: "kfree ?p s = Ret () s1" "pool s1 (?p # xs)" "kend s1 = kend s"
      "\<And>b. \<not> in_page ?p b \<Longrightarrow> mem s1 b = mem s b" "mem_only s s1"
    using kfree_pool [OF po d(1,4)] by blast
  have same: "mem s b = mem s1 b" if "q \<in> pd_pages (mem s) pd" "in_page q b" for q b
  proof -
    have "q \<noteq> ?p" "aligned q" using that d(3) pd_pages_ok [OF sp, of q] by (auto simp: page_ok_def)
    then show ?thesis using that d(2) pages_disjoint [of q ?p b] s1(4) [of b] by simp
  qed
  have e1: "entry (mem s1) pd v = entry (mem s) pd v" for v using entry_frame [OF same] by simp
  have inpd: "mem s b = mem s1 b" if "in_page pd b" for b using same [of pd b] that by (simp add: pd_pages_def)
  have pde1: "pde (mem s1) pd i = pde (mem s) pd i" if "i < 1024" for i using pde_frame [OF that inpd] by simp
  then have h1: "has_tab (mem s1) pd (dirx a)" "tab (mem s1) pd (dirx a) = ?t"
    using h PDX_lt by (simp_all add: has_tab_def tab_def)
  have sp1: "space (kend s) (mem s1) pd (?p # xs)" and pg1: "pd_pages (mem s1) pd = pd_pages (mem s) pd"
    using space_frame [OF sp inpd] d(3) by (auto simp: space_def)
  define m' where "m' = store32 (mem s1) (slot ?t (tabx a)) 0"
  note se = store_entry [OF sp1 h1(1), of m' 0, unfolded h1(2), OF m'_def]
  have e: "entry m' pd v = (if same_page v a then 0 else entry (mem s) pd v)" for v using se(3) e1 by simp
  note un = uspace_unmap [OF u a se(1) e, unfolded pg1, OF se(2) [unfolded pg1]]
  have po1: "pool (s1\<lparr>mem := m'\<rparr>) (?p # xs)"
  proof (rule pool_mem [OF s1(2)])
    fix y b assume y: "y \<in> set (?p # xs)" "in_page y b"
    then have "page_ok (kend s1) y" "y \<noteq> ?t" using s1(2) tb tp by (auto simp: pool_def free_list_def)
    then have "aligned y" "y \<noteq> ?t" by (simp_all add: page_ok_def)
    then show "m' b = mem s1 b" using y tb by (intro se(4) pages_disjoint [of y ?t b]) simp_all
  qed
  have fr: "m' b = mem s b" if "\<not> in_page ?t b" "\<not> in_page ?p b" for b using se(4) s1(4) that by simp
  have up: "?p \<in> upages (mem s) pd" using a by (auto simp: upages_def)
  have "?t \<in> upages (mem s) pd" using tin by (simp add: upages_def)
  then have frm: "\<forall>b. (\<forall>p \<in> upages (mem s) pd \<union> set xs. \<not> in_page p b) \<longrightarrow> m' b = mem s b" using fr up by blast
  have "entry m' pd v = entry (mem s) pd v" if "KERNBASE \<le> v" for v
  proof -
    have "\<not> same_page v a" using that a KERNBASE_page [of v a] by (auto simp: mapped_def)
    then show ?thesis by (simp add: e)
  qed
  then have st: "ustep pd s xs (s1\<lparr>mem := m'\<rparr>) (?p # xs)"
    using po1 s1(3) un(1,2) frm mem_only_upd(1) [OF s1(5)] by (simp add: ustep_def)
  have k: "kept pd (mem s) m' v" if v: "v \<in> mapped (mem s) pd" "\<not> same_page v a" for v
  proof -
    note dv = uspaceD [OF u v(1)]
    have "upage (mem s) pd v \<noteq> ?p" using dv(5) [OF a] v(2) by auto
    moreover have "upage (mem s) pd v \<noteq> ?t" using dv(3) tin by auto
    ultimately have "m' b = mem s b" if "in_page (upage (mem s) pd v) b" for b
      using that dv(2) d(2) tb pages_disjoint [of "upage (mem s) pd v" ?p b] pages_disjoint [of "upage (mem s) pd v" ?t b] fr
      by simp
    then show ?thesis using v(2) e by (simp add: kept_def)
  qed
  have "walkpgdir pd a False s = Ret (slot ?t (tabx a)) s"
    using h by (simp add: walkpgdir_def bnd_def has_tab_def tab_def pde_def slot_PDX slot_PTX)
  moreover have "slot ?t (tabx a) \<noteq> 0" using slot_nz [OF _ PTX_lt] tb by blast
  moreover have "kfree (P2V (PTE_ADDR (entry (mem s) pd a))) s = Ret () s1" using s1(1) by (simp add: upage_def)
  ultimately have "deallocuvm_page pd a s = Ret (a + PGSIZE) (s1\<lparr>mem := m'\<rparr>)"
    using pr nz by (simp add: deallocuvm_page_def bnd_def en whenk_def m'_def)
  then show ?thesis using st e k by (simp add: wp_def)
qed

section \<open>Address spaces of a given size\<close>

definition npages :: "uint \<Rightarrow> nat" where
  "npages sz = (unat sz + 4095) div 4096"

definition pageno :: "uint \<Rightarrow> nat" where
  "pageno v = unat v div 4096"

lemma same_pageno: "same_page v w \<longleftrightarrow> pageno v = pageno w"
  by (simp add: same_page_iff pageno_def)

lemma pageno_mult: "unat a = 4096 * k \<Longrightarrow> pageno a = k"
  by (simp add: pageno_def)

text \<open>A process of \<open>sz\<close> bytes has exactly its first \<open>npages sz\<close> pages mapped.\<close>

definition uvm :: "uint \<Rightarrow> memory \<Rightarrow> uint \<Rightarrow> uint \<Rightarrow> uint list \<Rightarrow> bool" where
  "uvm e m pd sz xs \<longleftrightarrow> uspace e m pd xs \<and> mapped m pd = {v. v < KERNBASE \<and> pageno v < npages sz}"

lemma PGROUNDUP_npages: "sz \<le> KERNBASE \<Longrightarrow> unat (PGROUNDUP sz) = 4096 * npages sz"
proof -
  assume "sz \<le> KERNBASE"
  then have "unat sz \<le> 2 ^ 32 - 4096" by (simp add: word_le_nat_alt KERNBASE_def)
  then show ?thesis by (simp add: PGROUNDUP_arith npages_def minus_mod_eq_mult_div)
qed

lemma npages_mono: "a \<le> b \<Longrightarrow> npages a \<le> npages b"
  by (simp add: npages_def word_le_nat_alt div_le_mono)

lemma npages_user: "sz \<le> KERNBASE \<Longrightarrow> npages sz \<le> 524288"
  using npages_mono [of sz KERNBASE] by (simp add: npages_def KERNBASE_def)

lemma KERNBASE_pageno: "v < KERNBASE \<longleftrightarrow> pageno v < 524288"
  by (auto simp: word_less_nat_alt KERNBASE_def pageno_def)

lemma pageno_lt_iff: "unat a = 4096 * k \<Longrightarrow> a < sz \<longleftrightarrow> k < npages sz"
  unfolding word_less_nat_alt npages_def by linarith

text \<open>A step of \<open>deallocuvm\<close> over a page that is not mapped: the next page, or the next table.\<close>

lemma unmap_absent:
  assumes sp: "space (kend s) (mem s) pd xs" and a: "\<not> present (entry (mem s) pd a)"
  shows "deallocuvm_page pd a s = Ret (if has_tab (mem s) pd (dirx a) then a + PGSIZE else a + 0x400000) s"
proof (cases "has_tab (mem s) pd (dirx a)")
  case True
  then have "walkpgdir pd a False s = Ret (slot (tab (mem s) pd (dirx a)) (tabx a)) s"
    by (simp add: walkpgdir_def bnd_def has_tab_def tab_def pde_def slot_PDX slot_PTX)
  moreover have "slot (tab (mem s) pd (dirx a)) (tabx a) \<noteq> 0"
    using spaceD(4) [OF sp PDX_lt True] slot_nz [OF _ PTX_lt] by blast
  ultimately show ?thesis using a True by (simp add: deallocuvm_page_def bnd_def entry_def)
next
  case False
  then have "walkpgdir pd a False s = Ret 0 s" by (simp add: walkpgdir_def bnd_def has_tab_def pde_def slot_PDX)
  then show ?thesis using False by (simp add: deallocuvm_page_def bnd_def NPTENTRIES_def PGSIZE_def)
qed

lemma unat_page_step:
  assumes "unat a = 4096 * k" and "k < 524288"
  shows "unat (a + PGSIZE) = 4096 * Suc k" and "unat (a + 0x400000) = 4096 * (k + 1024)"
  using assms by (simp_all add: PGSIZE_def unat_word_ariths)

text \<open>The loop of \<open>deallocuvm\<close> at address \<open>a\<close>, started on a space of \<open>cur\<close> bytes: the pages from \<open>newsz\<close> up to \<open>a\<close> are
  gone, those below are as they were.\<close>

definition shrunk ::
  "uint \<Rightarrow> 'z kmem_state_scheme \<Rightarrow> uint list \<Rightarrow> uint \<Rightarrow> uint \<Rightarrow> uint \<Rightarrow> 'z kmem_state_scheme \<Rightarrow> bool" where
  "shrunk pd s xs cur newsz a t \<longleftrightarrow> (\<exists>k ys. unat a = 4096 * k \<and> npages newsz \<le> k \<and> ustep pd s xs t ys \<and>
    mapped (mem t) pd = {v. v < KERNBASE \<and> (pageno v < npages newsz \<or> k \<le> pageno v \<and> pageno v < npages cur)} \<and>
    (\<forall>v. v < KERNBASE \<and> pageno v < npages newsz \<longrightarrow> kept pd (mem s) (mem t) v))"

lemma shrunk_step:
  assumes I: "shrunk pd s xs cur newsz a t" and lt: "a < oldsz" and old: "oldsz \<le> KERNBASE"
  shows "wp (deallocuvm_page pd a) (\<lambda>b t'. shrunk pd s xs cur newsz b t' \<and> 2 ^ 32 - unat b < 2 ^ 32 - unat a) t"
proof -
  obtain k ys where k: "unat a = 4096 * k" "npages newsz \<le> k" and st: "ustep pd s xs t ys"
      and mp: "mapped (mem t) pd = {v. v < KERNBASE \<and> (pageno v < npages newsz \<or> k \<le> pageno v \<and> pageno v < npages cur)}"
      and kp: "\<forall>v. v < KERNBASE \<and> pageno v < npages newsz \<longrightarrow> kept pd (mem s) (mem t) v"
    using I unfolding shrunk_def by blast
  have kb: "k < 524288" using pageno_lt_iff [OF k(1), of oldsz] lt npages_user [OF old] by simp
  have ak: "pageno a = k" "a < KERNBASE" using pageno_mult [OF k(1)] kb KERNBASE_pageno by simp_all
  note nx = unat_page_step [OF k(1) kb]
  show ?thesis
  proof (cases "a \<in> mapped (mem t) pd")
    case True
    show ?thesis using unmap_user [OF ustepD(1,3) [OF st] True]
    proof (rule wp_mono, elim conjE)
      fix b t' assume b: "b = a + PGSIZE" and st': "ustep pd t ys t' (upage (mem t) pd a # ys)"
        and e: "\<forall>v. entry (mem t') pd v = (if same_page v a then 0 else entry (mem t) pd v)"
        and kp': "\<forall>v \<in> mapped (mem t) pd. \<not> same_page v a \<longrightarrow> kept pd (mem t) (mem t') v"
      have "mapped (mem t') pd = mapped (mem t) pd - {v. same_page v a}"
        using e by (intro mapped_unmap) simp
      moreover have "(j < npages newsz \<or> k \<le> j \<and> j < npages cur) \<and> j \<noteq> k \<longleftrightarrow>
          j < npages newsz \<or> Suc k \<le> j \<and> j < npages cur" for j using k(2) by linarith
      ultimately have mp': "mapped (mem t') pd =
          {v. v < KERNBASE \<and> (pageno v < npages newsz \<or> Suc k \<le> pageno v \<and> pageno v < npages cur)}"
        unfolding mp by (intro set_eqI) (simp add: same_pageno ak)
      have kk: "kept pd (mem s) (mem t') v" if v: "v < KERNBASE \<and> pageno v < npages newsz" for v
      proof -
        have "v \<in> mapped (mem t) pd" "\<not> same_page v a" using v k(2) by (simp_all add: mp same_pageno ak)
        then have "kept pd (mem t) (mem t') v" using kp' by simp
        then show ?thesis using kp v kept_trans by blast
      qed
      have "npages newsz \<le> Suc k" "2 ^ 32 - unat b < 2 ^ 32 - unat a" using k kb nx(1) by (simp_all add: b)
      then show "shrunk pd s xs cur newsz b t' \<and> 2 ^ 32 - unat b < 2 ^ 32 - unat a"
        unfolding shrunk_def using nx(1) ustep_trans [OF st st'] mp' kk b by blast
    qed
  next
    case nm: False
    then have nc: "npages cur \<le> k" using ak k(2) by (simp add: mp)
    have I': "shrunk pd s xs cur newsz b t" if "unat b = 4096 * k'" "k \<le> k'" for b k'
    proof -
      have "(j < npages newsz \<or> k \<le> j \<and> j < npages cur) \<longleftrightarrow> (j < npages newsz \<or> k' \<le> j \<and> j < npages cur)" for j
        using that(2) nc by linarith
      then have "mapped (mem t) pd =
          {v. v < KERNBASE \<and> (pageno v < npages newsz \<or> k' \<le> pageno v \<and> pageno v < npages cur)}" unfolding mp by simp
      moreover have "npages newsz \<le> k'" using k(2) that(2) by simp
      ultimately show ?thesis unfolding shrunk_def using that(1) st kp by blast
    qed
    have "\<not> present (entry (mem t) pd a)" using nm ak by (simp add: mapped_def)
    moreover have "space (kend t) (mem t) pd ys" using ustepD(3) [OF st] by (simp add: uspace_def)
    moreover have "(2 ^ 32 :: nat) - unat (a + PGSIZE) < 2 ^ 32 - unat a" "(2 ^ 32 :: nat) - unat (a + 0x400000) < 2 ^ 32 - unat a"
      unfolding nx k(1) using kb by simp_all
    ultimately show ?thesis using unmap_absent [of t pd ys a] I' [OF nx(1)] I' [OF nx(2)] by (simp add: wp_def)
  qed
qed

text \<open>\<open>deallocuvm\<close> from a space of \<open>cur\<close> bytes, called with any \<open>oldsz\<close> that covers it.\<close>

lemma deallocuvm_spec:
  assumes po: "pool s xs" and u: "uvm (kend s) (mem s) pd cur xs"
    and sz: "newsz \<le> cur" "cur \<le> oldsz" "oldsz \<le> KERNBASE"
  shows "wp (deallocuvm pd oldsz newsz) (\<lambda>r t. \<exists>ys. r = newsz \<and> ustep pd s xs t ys \<and> uvm (kend s) (mem t) pd newsz ys \<and>
    (\<forall>v. v < KERNBASE \<and> pageno v < npages newsz \<longrightarrow> kept pd (mem s) (mem t) v)) s"
proof (cases "newsz \<ge> oldsz")
  case True
  then have "newsz = oldsz" "cur = oldsz" using sz by simp_all
  then show ?thesis using u ustep_refl [OF po, of pd] by (auto simp: deallocuvm_def wp_ret uvm_def)
next
  case False
  have us: "uspace (kend s) (mem s) pd xs" using u by (simp add: uvm_def)
  have "wp (kwhile (\<lambda>a _. a < oldsz) (deallocuvm_page pd) (PGROUNDUP newsz))
    (\<lambda>a t. shrunk pd s xs cur newsz a t \<and> \<not> a < oldsz) s"
  proof (rule wp_kwhile [where I = "shrunk pd s xs cur newsz" and V = "\<lambda>a _. 2 ^ 32 - unat a"])
    have "newsz \<le> KERNBASE" by (rule order.trans [OF order.trans [OF sz(1,2)] sz(3)])
    moreover have "mapped (mem s) pd = {v. v < KERNBASE \<and>
        (pageno v < npages newsz \<or> npages newsz \<le> pageno v \<and> pageno v < npages cur)}"
    proof -
      have "mapped (mem s) pd = {v. v < KERNBASE \<and> pageno v < npages cur}" using u by (simp add: uvm_def)
      moreover have "k < npages cur \<longleftrightarrow> k < npages newsz \<or> npages newsz \<le> k \<and> k < npages cur" for k
        using npages_mono [OF sz(1)] by linarith
      ultimately show ?thesis by simp
    qed
    ultimately show "shrunk pd s xs cur newsz (PGROUNDUP newsz) s" unfolding shrunk_def
      using ustep_refl [OF po us] PGROUNDUP_npages [of newsz] by (intro exI [of _ "npages newsz"] exI [of _ xs]) simp
  next
    show "wp (deallocuvm_page pd a) (\<lambda>b t'. shrunk pd s xs cur newsz b t' \<and> 2 ^ 32 - unat b < 2 ^ 32 - unat a) t"
      if "shrunk pd s xs cur newsz a t" "a < oldsz" for a t using shrunk_step [OF that sz(3)] .
  next
    show "shrunk pd s xs cur newsz a t \<and> \<not> a < oldsz" if "shrunk pd s xs cur newsz a t" "\<not> a < oldsz" for a t using that by simp
  qed
  then show ?thesis using False unfolding deallocuvm_def if_not_P [OF False] wp_bnd wp_ret
  proof (elim wp_mono conjE)
    fix a t assume I: "shrunk pd s xs cur newsz a t" and ge: "\<not> a < oldsz"
    then obtain k ys where k: "unat a = 4096 * k" and st: "ustep pd s xs t ys"
        and mp: "mapped (mem t) pd = {v. v < KERNBASE \<and> (pageno v < npages newsz \<or> k \<le> pageno v \<and> pageno v < npages cur)}"
        and kp: "\<forall>v. v < KERNBASE \<and> pageno v < npages newsz \<longrightarrow> kept pd (mem s) (mem t) v"
      unfolding shrunk_def by blast
    have "npages cur \<le> k" using pageno_lt_iff [OF k, of oldsz] ge npages_mono [OF sz(2)] by simp
    then have "mapped (mem t) pd = {v. v < KERNBASE \<and> pageno v < npages newsz}" unfolding mp by auto
    then show "\<exists>ys. newsz = newsz \<and> ustep pd s xs t ys \<and> uvm (kend s) (mem t) pd newsz ys \<and>
        (\<forall>v. v < KERNBASE \<and> pageno v < npages newsz \<longrightarrow> kept pd (mem s) (mem t) v)"
      using st kp by (auto simp: uvm_def ustep_def)
  qed
qed

section \<open>Growing\<close>

lemma npages_mult: "unat a = 4096 * k \<Longrightarrow> npages a = k"
  by (simp add: npages_def)

text \<open>\<open>kfree\<close> of a page \<open>x\<close> that belongs to nobody.\<close>

lemma give_back:
  assumes st: "ustep pd s xs t ys" and x: "page_ok (kend s) x" "x \<notin> upages (mem t) pd" "x \<notin> set ys"
  shows "wp (kfree x) (\<lambda>_ u. pool u (x # ys) \<and> kend u = kend t \<and> mem_only t u \<and> uspace (kend t) (mem u) pd (x # ys) \<and>
    upages (mem u) pd = upages (mem t) pd \<and> (\<forall>v. entry (mem u) pd v = entry (mem t) pd v) \<and>
    (\<forall>v \<in> mapped (mem t) pd. kept pd (mem t) (mem u) v) \<and> (\<forall>b. \<not> in_page x b \<longrightarrow> mem u b = mem t b)) t"
proof -
  note u = ustepD(3) [OF st]
  have k: "kend t = kend s" by (rule ustepD(2) [OF st])
  have al: "aligned x" using x by (simp add: page_ok_def)
  obtain u' where u': "kfree x t = Ret () u'" "pool u' (x # ys)" "kend u' = kend t"
      "\<And>b. \<not> in_page x b \<Longrightarrow> mem u' b = mem t b" "mem_only t u'"
    using kfree_pool [OF ustepD(1) [OF st], of x] x k by auto
  have off: "mem u' b = mem t b" if "p \<in> upages (mem t) pd" "in_page p b" for p b
  proof -
    have "aligned p" "p \<noteq> x" using that x upages_ok [OF u, of p] by (auto simp: page_ok_def)
    then show ?thesis using that pages_disjoint [of p x b] al u'(4) by simp
  qed
  have same: "mem u' b = mem t b" if "p \<in> pd_pages (mem t) pd" "in_page p b" for p b
    using that off [of p b] by (simp add: upages_def)
  have "upages (mem t) pd \<inter> set (x # ys) = {}" using x upages_free [OF u] by simp
  note n = uspace_mem [OF u same this]
  have "kept pd (mem t) (mem u') v" if "v \<in> mapped (mem t) pd" for v
    using off [of "upage (mem t) pd v"] that n(2) by (auto simp: kept_def upages_def)
  then show ?thesis using u' n by (simp add: wp_def)
qed

text \<open>A page off the free list, and nothing else, has changed hands.\<close>

lemma pool_exit [simp]: "pool (kmem_exit s) xs = pool s xs"
  by (simp add: pool_def free_list_def)

lemma ustep_exit: "ustep pd s xs t ys \<Longrightarrow> ustep pd s xs (kmem_exit t) ys"
  by (simp add: ustep_def mem_only_exit)

lemma uvm_ustep: "ustep pd s xs t ys \<Longrightarrow> unat a = 4096 * k \<Longrightarrow>
    mapped (mem t) pd = {v. v < KERNBASE \<and> pageno v < k} \<Longrightarrow> uvm (kend t) (mem t) pd a ys"
  using ustepD(3) [of pd s xs t ys] by (simp add: uvm_def npages_mult)

text \<open>The loop of \<open>allocuvm\<close>: the pages from \<open>oldsz\<close> up to \<open>a\<close> are new, zeroed and writable by the user; or the loop has
  given up and the space is back to \<open>oldsz\<close> bytes.\<close>

definition grown ::
  "uint \<Rightarrow> 'z kmem_state_scheme \<Rightarrow> uint list \<Rightarrow> uint \<Rightarrow> uint \<times> bool \<Rightarrow> 'z kmem_state_scheme \<Rightarrow> bool" where
  "grown pd s xs oldsz = (\<lambda>(a, failed) t. \<exists>ys. ustep pd s xs t ys \<and>
    (\<forall>v. v < KERNBASE \<and> pageno v < npages oldsz \<longrightarrow> kept pd (mem s) (mem t) v) \<and>
    (if failed then uvm (kend s) (mem t) pd oldsz ys \<and> card (upages (mem s) pd \<union> set xs) \<le> 1026 + pageno a
     else \<exists>k. unat a = 4096 * k \<and> npages oldsz \<le> k \<and> mapped (mem t) pd = {v. v < KERNBASE \<and> pageno v < k} \<and>
       (\<forall>v. v < KERNBASE \<and> npages oldsz \<le> pageno v \<and> pageno v < k \<longrightarrow>
          PTE_FLAGS (entry (mem t) pd v) = PTE_W OR PTE_U OR PTE_P \<and>
          (\<forall>b. in_page (upage (mem t) pd v) b \<longrightarrow> mem t b = 0))))"

text \<open>Giving up: what had been mapped is unmapped again.\<close>

lemma give_up:
  assumes po: "pool t ys" and u: "uspace (kend t) (mem t) pd ys" and k: "unat a = 4096 * k" "npages oldsz \<le> k"
    and sz: "a < newsz" "newsz < KERNBASE" and mp: "mapped (mem t) pd = {v. v < KERNBASE \<and> pageno v < k}"
  shows "wp (deallocuvm pd newsz oldsz) (\<lambda>_ t'. \<exists>zs. ustep pd t ys t' zs \<and> uvm (kend t) (mem t') pd oldsz zs \<and>
    (\<forall>v. v < KERNBASE \<and> pageno v < npages oldsz \<longrightarrow> kept pd (mem t) (mem t') v)) t"
proof -
  have "unat oldsz \<le> 4096 * npages oldsz" by (simp add: npages_def)
  then have "oldsz \<le> a" using k by (simp add: word_le_nat_alt)
  moreover have "a \<le> newsz" "newsz \<le> KERNBASE" using sz by simp_all
  moreover have "uvm (kend t) (mem t) pd a ys" using u mp npages_mult [OF k(1)] by (simp add: uvm_def)
  ultimately have "wp (deallocuvm pd newsz oldsz) (\<lambda>r t'. \<exists>zs. r = oldsz \<and> ustep pd t ys t' zs \<and> uvm (kend t) (mem t') pd oldsz zs \<and>
    (\<forall>v. v < KERNBASE \<and> pageno v < npages oldsz \<longrightarrow> kept pd (mem t) (mem t') v)) t"
    by (intro deallocuvm_spec [OF po])
  then show ?thesis by (rule wp_mono) auto
qed

text \<open>A space of \<open>k\<close> pages has at most that many pages and a full set of tables.\<close>

lemma pd_pages_card: "finite (pd_pages m pd)" "card (pd_pages m pd) \<le> 1025"
proof -
  let ?T = "tab m pd ` {i. i < 1024 \<and> has_tab m pd i}"
  have "card ?T \<le> card {i :: nat. i < 1024 \<and> has_tab m pd i}" by (rule card_image_le) simp
  also have "\<dots> \<le> card {..<1024 :: nat}" by (rule card_mono) auto
  finally show "card (pd_pages m pd) \<le> 1025" unfolding pd_pages_def using card_insert_le_m1 [of 1025 ?T pd] by simp
  show "finite (pd_pages m pd)" by (simp add: pd_pages_def)
qed

lemma upages_card:
  assumes "mapped m pd = {v. v < KERNBASE \<and> pageno v < k}"
  shows "finite (upages m pd)" and "card (upages m pd) \<le> 1025 + k"
proof -
  let ?U = "(\<lambda>j. upage m pd (of_nat (4096 * j))) ` {..<k}"
  have "upage m pd v \<in> ?U" if "v \<in> mapped m pd" for v
  proof -
    have "4096 * pageno v < 2 ^ 32" using unat_lt32 [of v] by (simp add: pageno_def)
    then have "unat (of_nat (4096 * pageno v) :: uint) = 4096 * pageno v" by (simp add: unat_of_nat del: of_nat_mult)
    then have "same_page v (of_nat (4096 * pageno v))" using pageno_mult by (simp add: same_pageno del: of_nat_mult)
    then have "upage m pd v = upage m pd (of_nat (4096 * pageno v))" by (rule same_page_upage)
    moreover have "pageno v < k" using that assms by auto
    ultimately show ?thesis by blast
  qed
  then have sub: "upages m pd \<subseteq> pd_pages m pd \<union> ?U" by (auto simp: upages_def)
  have fin: "finite (pd_pages m pd \<union> ?U)" using pd_pages_card(1) by simp
  with sub show "finite (upages m pd)" by (rule finite_subset)
  have "card ?U \<le> k" using card_image_le [of "{..<k}" "\<lambda>j. upage m pd (of_nat (4096 * j))"] by simp
  then have "card (pd_pages m pd \<union> ?U) \<le> 1025 + k"
    using pd_pages_card(2) [of m pd] card_Un_le [of "pd_pages m pd" ?U] by linarith
  then show "card (upages m pd) \<le> 1025 + k" using card_mono [OF fin sub] by simp
qed

text \<open>A page \<open>x\<close> in hand, when \<open>mappages\<close> has failed for want of a page table.\<close>

lemma limbo:
  assumes po: "pool t (x # ys)" and u: "uspace (kend t) (mem t) pd (x # ys)"
    and m': "\<And>b. \<not> in_page x b \<Longrightarrow> m' b = mem t b" and st: "ustep pd (s1\<lparr>mem := m'\<rparr>) ys t2 []"
  shows "page_ok (kend t) x" and "x \<notin> set ys" and "x \<notin> upages (mem t) pd" and "upages m' pd = upages (mem t) pd"
    and "upages (mem t) pd \<union> set (x # ys) = insert x (upages (mem t2) pd)"
proof -
  show x: "page_ok (kend t) x" "x \<notin> set ys" "x \<notin> upages (mem t) pd"
    using po upages_free [OF u] by (auto simp: pool_def free_list_def)
  have same: "m' b = mem t b" if "p \<in> pd_pages (mem t) pd" "in_page p b" for p b
  proof -
    have "p \<noteq> x" "aligned p" "aligned x" using that x upages_ok [OF u, of p] by (auto simp: upages_def page_ok_def)
    then show ?thesis using that m' pages_disjoint [of p x b] by simp
  qed
  have "upages (mem t) pd \<inter> set ys = {}" using upages_free [OF u] by auto
  note n = uspace_mem [OF u same this]
  show up: "upages m' pd = upages (mem t) pd" by (rule n(4))
  then show "upages (mem t) pd \<union> set (x # ys) = insert x (upages (mem t2) pd)" using st by (simp add: ustep_def)
qed

lemma stuck_card:
  assumes po: "pool t (x # ys)" and u: "uspace (kend t) (mem t) pd (x # ys)"
    and m': "\<And>b. \<not> in_page x b \<Longrightarrow> m' b = mem t b" and st: "ustep pd (s1\<lparr>mem := m'\<rparr>) ys t2 []"
    and e: "\<forall>v. entry (mem t2) pd v = entry (mem t) pd v" and mp: "mapped (mem t) pd = {v. v < KERNBASE \<and> pageno v < k}"
  shows "card (upages (mem t) pd \<union> set (x # ys)) \<le> 1026 + k"
proof -
  have "mapped (mem t2) pd = {v. v < KERNBASE \<and> pageno v < k}" unfolding mp [symmetric] by (simp add: mapped_def e)
  moreover have "upages (mem t) pd \<union> set (x # ys) = insert x (upages (mem t2) pd)" by (rule limbo(5) [OF po u m' st])
  ultimately show ?thesis
    using upages_card [of "mem t2" pd k] card_insert_le_m1 [of "1026 + k" "upages (mem t2) pd" x] by simp
qed

text \<open>Giving up with that page in hand.\<close>

lemma give_up_page:
  assumes po: "pool t (x # ys)" and u: "uspace (kend t) (mem t) pd (x # ys)"
    and s1: "kend s1 = kend t" "mem_only t s1" and m': "\<And>b. \<not> in_page x b \<Longrightarrow> m' b = mem t b"
    and st: "ustep pd (s1\<lparr>mem := m'\<rparr>) ys t2 []" and e: "\<forall>v. entry (mem t2) pd v = entry (mem t) pd v"
    and kp: "\<forall>v \<in> mapped (mem t) pd. kept pd (mem t) (mem t2) v"
    and k: "unat a = 4096 * k" "npages oldsz \<le> k" and sz: "a < newsz" "newsz < KERNBASE"
    and mp: "mapped (mem t) pd = {v. v < KERNBASE \<and> pageno v < k}"
  shows "wp (bnd (deallocuvm pd newsz oldsz) (\<lambda>_. kfree x)) (\<lambda>_ t'. \<exists>zs. ustep pd t (x # ys) t' zs \<and>
    uvm (kend t) (mem t') pd oldsz zs \<and> (\<forall>v. v < KERNBASE \<and> pageno v < npages oldsz \<longrightarrow> kept pd (mem t) (mem t') v)) t2"
proof -
  have x: "page_ok (kend t) x" "x \<notin> set ys" "x \<notin> upages (mem t) pd" and up: "upages m' pd = upages (mem t) pd"
    by (rule limbo [OF po u m' st], assumption)+
  have mp2: "mapped (mem t2) pd = {v. v < KERNBASE \<and> pageno v < k}" unfolding mp [symmetric] by (simp add: mapped_def e)
  have kt: "kend t2 = kend t" using ustepD(2) [OF st] s1 by simp
  show ?thesis unfolding wp_bnd using give_up [OF ustepD(1,3) [OF st] k sz mp2]
  proof (rule wp_mono, elim exE conjE)
    fix r t3 zs assume st3: "ustep pd t2 [] t3 zs" and u3: "uvm (kend t2) (mem t3) pd oldsz zs"
      and kp3: "\<forall>v. v < KERNBASE \<and> pageno v < npages oldsz \<longrightarrow> kept pd (mem t2) (mem t3) v"
    have st13: "ustep pd (s1\<lparr>mem := m'\<rparr>) ys t3 zs" by (rule ustep_trans [OF st st3])
    then have pg: "upages (mem t3) pd \<union> set zs = upages (mem t) pd \<union> set ys" using up by (simp add: ustep_def)
    then have "x \<notin> upages (mem t3) pd" "x \<notin> set zs" using x by auto
    then have "wp (kfree x) (\<lambda>_ u. pool u (x # zs) \<and> kend u = kend t3 \<and> mem_only t3 u \<and> uspace (kend t3) (mem u) pd (x # zs) \<and>
      upages (mem u) pd = upages (mem t3) pd \<and> (\<forall>v. entry (mem u) pd v = entry (mem t3) pd v) \<and>
      (\<forall>v \<in> mapped (mem t3) pd. kept pd (mem t3) (mem u) v) \<and> (\<forall>b. \<not> in_page x b \<longrightarrow> mem u b = mem t3 b)) t3"
      using x(1) s1 by (intro give_back [OF st13]) simp_all
    then show "wp (kfree x) (\<lambda>_ t'. \<exists>zs. ustep pd t (x # ys) t' zs \<and> uvm (kend t) (mem t') pd oldsz zs \<and>
      (\<forall>v. v < KERNBASE \<and> pageno v < npages oldsz \<longrightarrow> kept pd (mem t) (mem t') v)) t3"
    proof (rule wp_mono, elim conjE)
      fix r' and u' :: "'a kmem_state_scheme" assume u': "pool u' (x # zs)" "kend u' = kend t3" "uspace (kend t3) (mem u') pd (x # zs)"
        "upages (mem u') pd = upages (mem t3) pd" "\<forall>v. entry (mem u') pd v = entry (mem t3) pd v"
        "\<forall>v \<in> mapped (mem t3) pd. kept pd (mem t3) (mem u') v" "\<forall>b. \<not> in_page x b \<longrightarrow> mem u' b = mem t3 b"
        "mem_only t3 u'"
      have k3: "kend t3 = kend t" using ustepD(2) [OF st3] kt by simp
      have mp3: "mapped (mem t3) pd = {v. v < KERNBASE \<and> pageno v < npages oldsz}" using u3 by (simp add: uvm_def)
      have "upages (mem u') pd \<union> set (x # zs) = upages (mem t) pd \<union> set (x # ys)" using pg u'(4) by auto
      moreover have "entry (mem u') pd v = entry (mem t) pd v" if "KERNBASE \<le> v" for v
        using that u'(5) st3 e by (simp add: ustep_def)
      moreover have "mem u' b = mem t b" if "\<forall>p \<in> upages (mem t) pd \<union> set (x # ys). \<not> in_page p b" for b
        using that u'(7) st13 m' up by (simp add: ustep_def)
      moreover have "mem_only t u'"
        using mem_only_trans [OF mem_only_upd(1) [OF s1(2), of m']] st13 mem_only_trans [OF _ u'(8)] by (simp add: ustep_def)
      ultimately have "ustep pd t (x # ys) u' (x # zs)" using u'(1-3) k3 by (simp add: ustep_def)
      moreover have "mapped (mem u') pd = mapped (mem t3) pd" using u'(5) by (simp add: mapped_def)
      then have "uvm (kend t) (mem u') pd oldsz (x # zs)" using u'(3) k3 mp3 by (simp add: uvm_def)
      moreover have "kept pd (mem t) (mem u') v" if v: "v < KERNBASE \<and> pageno v < npages oldsz" for v
      proof -
        have "kept pd (mem t) (mem t2) v" using kp v k(2) by (simp add: mp)
        moreover have "kept pd (mem t3) (mem u') v" using u'(6) v mp3 by simp
        ultimately show ?thesis using kp3 v kept_trans by blast
      qed
      ultimately show "\<exists>zs. ustep pd t (x # ys) u' zs \<and> uvm (kend t) (mem u') pd oldsz zs \<and>
        (\<forall>v. v < KERNBASE \<and> pageno v < npages oldsz \<longrightarrow> kept pd (mem t) (mem u') v)" by blast
    qed
  qed
qed

lemma new_entry_flags: "aligned x \<Longrightarrow> fl < 4096 \<Longrightarrow> PTE_FLAGS (V2P x OR fl OR PTE_P) = fl OR PTE_P"
proof -
  assume x: "aligned x" and fl: "fl < 4096"
  have "V2P x AND 0xFFF = 0" using V2P_aligned [OF x] by (simp add: and_FFF)
  moreover have "w AND 0xFFF = w" if "w < 4096" for w :: uint
    using that unfolding less_page_iff mask12 by (simp add: take_bit_eq_mask)
  ultimately show ?thesis using fl
    by (simp add: PTE_FLAGS_def bit.conj_disj_distrib2 PTE_P_def or.assoc)
qed

lemma grown_new_page:
  assumes I: "grown pd s xs oldsz (a, False) t" and sz: "a < KERNBASE"
    and st': "ustep pd t ys t' zs" and po: "ustep pd s xs t ys"
    and e: "\<forall>v. entry (mem t') pd v = (if same_page v a then V2P x OR (PTE_W OR PTE_U) OR PTE_P else entry (mem t) pd v)"
    and x: "aligned x" "\<forall>b. in_page x b \<longrightarrow> mem t' b = 0"
    and kp: "\<forall>v \<in> mapped (mem t) pd. kept pd (mem t) (mem t') v"
  shows "grown pd s xs oldsz (a + PGSIZE, False) t'"
proof -
  obtain k where k: "unat a = 4096 * k" "npages oldsz \<le> k" and mp: "mapped (mem t) pd = {v. v < KERNBASE \<and> pageno v < k}"
      and kt: "\<forall>v. v < KERNBASE \<and> pageno v < npages oldsz \<longrightarrow> kept pd (mem s) (mem t) v"
      and z: "\<forall>v. v < KERNBASE \<and> npages oldsz \<le> pageno v \<and> pageno v < k \<longrightarrow>
        PTE_FLAGS (entry (mem t) pd v) = PTE_W OR PTE_U OR PTE_P \<and> (\<forall>b. in_page (upage (mem t) pd v) b \<longrightarrow> mem t b = 0)"
    using I by (auto simp: grown_def)
  have ak: "pageno a = k" by (rule pageno_mult [OF k(1)])
  have kb: "k < 524288" using sz KERNBASE_pageno [of a] ak by simp
  have six: "PTE_W OR PTE_U < 4096" by (simp add: PTE_W_def PTE_U_def)
  have en: "entry (mem t') pd v = entry (mem t) pd v" if "pageno v \<noteq> k" for v using e that by (simp add: same_pageno ak)
  have new: "entry (mem t') pd v = V2P x OR (PTE_W OR PTE_U) OR PTE_P" if "pageno v = k" for v
    using e that by (simp add: same_pageno ak)
  have "v \<in> mapped (mem t') pd \<longleftrightarrow> v < KERNBASE \<and> pageno v < Suc k" for v
  proof (cases "pageno v = k")
    case True
    then show ?thesis using new [OF True] new_entry(2) [of x "PTE_W OR PTE_U"] by (simp add: mapped_def)
  next
    case False
    then show ?thesis using en [OF False] mp by (simp add: mapped_def set_eq_iff less_Suc_eq)
  qed
  then have mp': "mapped (mem t') pd = {v. v < KERNBASE \<and> pageno v < Suc k}" by auto
  have kp': "kept pd (mem s) (mem t') v" if v: "v < KERNBASE \<and> pageno v < npages oldsz" for v
  proof -
    have "v \<in> mapped (mem t) pd" using v k(2) by (simp add: mp)
    then show ?thesis using kp kt v kept_trans by blast
  qed
  have z': "PTE_FLAGS (entry (mem t') pd v) = PTE_W OR PTE_U OR PTE_P \<and> (\<forall>b. in_page (upage (mem t') pd v) b \<longrightarrow> mem t' b = 0)"
    if v: "v < KERNBASE \<and> npages oldsz \<le> pageno v \<and> pageno v < Suc k" for v
  proof (cases "pageno v = k")
    case True
    then show ?thesis using new [OF True] new_entry(1) [OF x(1) six] new_entry_flags [OF x(1) six] x(2)
      by (simp add: upage_def or.assoc)
  next
    case False
    then have "v \<in> mapped (mem t) pd" using v by (simp add: mp)
    then have kv: "kept pd (mem t) (mem t') v" using kp by simp
    then have "upage (mem t') pd v = upage (mem t) pd v" by (simp add: upage_def kept_def)
    moreover have "pageno v < k" using v False by simp
    ultimately show ?thesis using kv z [THEN spec, of v] v by (simp add: kept_def)
  qed
  have "npages oldsz \<le> Suc k" using k(2) by simp
  then show ?thesis unfolding grown_def
    using ustep_trans [OF po st'] unat_page_step(1) [OF k(1) kb] mp' kp' z' by (simp only: prod.case if_False) blast
qed

lemma grown_fail:
  assumes I: "grown pd s xs oldsz (a, False) t" and st: "ustep pd s xs t ys" and st': "ustep pd t ys t' zs"
    and u: "uvm (kend t) (mem t') pd oldsz zs"
    and kp: "\<forall>v. v < KERNBASE \<and> pageno v < npages oldsz \<longrightarrow> kept pd (mem t) (mem t') v"
    and c: "card (upages (mem t) pd \<union> set ys) \<le> 1026 + pageno b"
  shows "grown pd s xs oldsz (b, True) t'"
proof -
  have kt: "\<forall>v. v < KERNBASE \<and> pageno v < npages oldsz \<longrightarrow> kept pd (mem s) (mem t) v" using I by (auto simp: grown_def)
  have "kept pd (mem s) (mem t') v" if "v < KERNBASE \<and> pageno v < npages oldsz" for v
    using kt kp that kept_trans by blast
  moreover have "uvm (kend s) (mem t') pd oldsz zs" using u ustepD(2) [OF st] by simp
  moreover have "card (upages (mem s) pd \<union> set xs) \<le> 1026 + pageno b" using c st by (simp add: ustep_def)
  ultimately show ?thesis unfolding grown_def using ustep_trans [OF st st'] by (simp only: prod.case if_True) blast
qed

lemma grown_step:
  assumes I: "grown pd s xs oldsz (a, False) t" and sz: "a < newsz" "newsz < KERNBASE"
  shows "wp (allocuvm_page pd oldsz newsz (a, False))
    (\<lambda>(b, f) t'. grown pd s xs oldsz (b, f) t' \<and> (if f then b = a else unat b = unat a + 4096)) t"
proof -
  obtain k ys where k: "unat a = 4096 * k" "npages oldsz \<le> k" and st: "ustep pd s xs t ys"
      and mp: "mapped (mem t) pd = {v. v < KERNBASE \<and> pageno v < k}"
    using I by (auto simp: grown_def)
  have akb: "a < KERNBASE" using sz by simp
  then have kb: "k < 524288" using KERNBASE_pageno [of a] pageno_mult [OF k(1)] by simp
  have al: "aligned a" unfolding aligned_unat k(1) by simp
  have po: "pool t ys" and us: "uspace (kend t) (mem t) pd ys" using ustepD(1,3) [OF st] by simp_all
  show ?thesis
  proof (cases ys)
    case Nil
    have kx: "kalloc t = Ret 0 (kmem_exit t)" using po Nil kalloc_empty [of t] by simp
    have ue: "uspace (kend (kmem_exit t)) (mem (kmem_exit t)) pd ys" using us by simp
    have "mapped (mem (kmem_exit t)) pd = {v. v < KERNBASE \<and> pageno v < k}" using mp by simp
    from give_up [OF _ ue k sz this] po obtain r t' zs where t': "deallocuvm pd newsz oldsz (kmem_exit t) = Ret r t'"
        "ustep pd (kmem_exit t) ys t' zs" "uvm (kend t) (mem t') pd oldsz zs"
        "\<forall>v. v < KERNBASE \<and> pageno v < npages oldsz \<longrightarrow> kept pd (mem t) (mem t') v"
      unfolding wp_iff by auto
    have "ustep pd t ys t' zs"
      using t'(2) mem_only_trans [OF mem_only_exit [OF mem_only_refl], of t t'] by (simp add: ustep_def)
    moreover have "card (upages (mem t) pd \<union> set ys) \<le> 1026 + pageno a"
      using upages_card(2) [OF mp] pageno_mult [OF k(1)] Nil by simp
    ultimately have "grown pd s xs oldsz (a, True) t'" using grown_fail [OF I st _ t'(3,4)] by blast
    then show ?thesis using kx t'(1) by (simp add: allocuvm_page_def wp_def bnd_def)
  next
    case (Cons x ys')
    obtain s1 where s1: "kalloc t = Ret x s1" "pool s1 ys'" "mem s1 = mem t" "kend s1 = kend t" "mem_only t s1"
      using kalloc_Cons [of t x ys'] po Cons by auto
    have x: "x \<noteq> 0" "aligned x" using po Cons page_ok_nz by (auto simp: pool_def free_list_def page_ok_def)
    define m' where "m' = memset (mem t) x 0 PGSIZE"
    have m': "m' b = mem t b" if "\<not> in_page x b" for b using that by (simp add: m'_def memset_outside)
    have zero: "m' b = 0" if "in_page x b" for b using memset_inside [OF that, of "mem t" 0] by (simp add: m'_def)
    have np: "\<not> present (entry (mem t) pd a)"
    proof -
      have "a \<notin> mapped (mem t) pd" using pageno_mult [OF k(1)] by (simp add: mp)
      then show ?thesis using akb by (simp add: mapped_def)
    qed
    have "PTE_W OR PTE_U < 4096" by (simp add: PTE_W_def PTE_U_def)
    note mu = map_user [OF po [unfolded Cons] us [unfolded Cons] s1(2,4,3,5) m' al akb np this]
    then obtain r t2 zs where r: "mappages pd a PGSIZE (V2P x) (PTE_W OR PTE_U) (s1\<lparr>mem := m'\<rparr>) = Ret r t2"
        and c: "(r = 0 \<and> ustep pd t (x # ys') t2 zs \<and>
          (\<forall>v. entry (mem t2) pd v = (if same_page v a then V2P x OR (PTE_W OR PTE_U) OR PTE_P else entry (mem t) pd v)) \<and>
          (\<forall>b. in_page x b \<longrightarrow> mem t2 b = m' b)) \<or>
        (r = -1 \<and> ustep pd (s1\<lparr>mem := m'\<rparr>) ys' t2 [] \<and> (\<forall>v. entry (mem t2) pd v = entry (mem t) pd v))"
        and kp: "\<forall>v \<in> mapped (mem t) pd. kept pd (mem t) (mem t2) v"
      unfolding wp_iff by auto
    have run: "allocuvm_page pd oldsz newsz (a, False) t = (if r < 0
        then bnd (bnd (deallocuvm pd newsz oldsz) (\<lambda>_. kfree x)) (\<lambda>_. ret (a, True)) t2 else Ret (a + PGSIZE, False) t2)"
      using s1(1,3) x r by (simp add: allocuvm_page_def bnd_def m'_def split: res.split)
    from c show ?thesis
    proof (elim disjE conjE)
      assume ok: "r = 0" "ustep pd t (x # ys') t2 zs"
        "\<forall>v. entry (mem t2) pd v = (if same_page v a then V2P x OR (PTE_W OR PTE_U) OR PTE_P else entry (mem t) pd v)"
        "\<forall>b. in_page x b \<longrightarrow> mem t2 b = m' b"
      have "\<forall>b. in_page x b \<longrightarrow> mem t2 b = 0" using ok(4) zero by simp
      from grown_new_page [OF I akb ok(2) st [unfolded Cons] ok(3) x(2) this kp] show ?thesis
        using run ok(1) unat_page_step(1) [OF k(1) kb] k(1) by (simp add: wp_def)
    next
      assume bad: "r = -1" "ustep pd (s1\<lparr>mem := m'\<rparr>) ys' t2 []" "\<forall>v. entry (mem t2) pd v = entry (mem t) pd v"
      from give_up_page [OF po [unfolded Cons] us [unfolded Cons] s1(4,5) m' bad(2,3) kp k sz mp]
      obtain t' zs' where t': "bnd (deallocuvm pd newsz oldsz) (\<lambda>_. kfree x) t2 = Ret () t'"
          "ustep pd t (x # ys') t' zs'" "uvm (kend t) (mem t') pd oldsz zs'"
          "\<forall>v. v < KERNBASE \<and> pageno v < npages oldsz \<longrightarrow> kept pd (mem t) (mem t') v"
        unfolding wp_unit by auto
      have "allocuvm_page pd oldsz newsz (a, False) t = Ret (a, True) t'"
        using run bad(1) t'(1) by (simp add: bnd_def [where f = "\<lambda>_. ret (a, True)"])
      moreover have "card (upages (mem t) pd \<union> set (x # ys')) \<le> 1026 + pageno a"
        using stuck_card [OF po [unfolded Cons] us [unfolded Cons] m' bad(2,3) mp] pageno_mult [OF k(1)] by simp
      ultimately show ?thesis using grown_fail [OF I st [unfolded Cons] t'(2-4)] by (simp add: wp_def)
    qed
  qed
qed


lemma grown_start:
  assumes "pool s xs" and u: "uvm (kend s) (mem s) pd oldsz xs" and "oldsz \<le> KERNBASE"
  shows "grown pd s xs oldsz (PGROUNDUP oldsz, False) s"
proof -
  have "uspace (kend s) (mem s) pd xs" and mp: "mapped (mem s) pd = {v. v < KERNBASE \<and> pageno v < npages oldsz}"
    using u by (simp_all add: uvm_def)
  then have st: "ustep pd s xs s xs" using assms(1) by (intro ustep_refl)
  show ?thesis unfolding grown_def using st mp PGROUNDUP_npages [OF assms(3)]
    by (simp only: prod.case if_False) (intro exI [of _ xs] exI [of _ "npages oldsz"] conjI allI impI; (elim conjE)?; simp)
qed

lemma allocuvm_spec:
  assumes po: "pool s xs" and u: "uvm (kend s) (mem s) pd oldsz xs" and old: "oldsz \<le> newsz"
  shows "wp (allocuvm pd oldsz newsz) (\<lambda>r t. \<exists>ys. ustep pd s xs t ys \<and>
    (\<forall>v. v < KERNBASE \<and> pageno v < npages oldsz \<longrightarrow> kept pd (mem s) (mem t) v) \<and>
    (r = newsz \<and> newsz < KERNBASE \<and> uvm (kend s) (mem t) pd newsz ys \<and>
       (\<forall>v. v < KERNBASE \<and> npages oldsz \<le> pageno v \<and> pageno v < npages newsz \<longrightarrow>
          PTE_FLAGS (entry (mem t) pd v) = PTE_W OR PTE_U OR PTE_P \<and> ubyte (mem t) pd v = 0) \<or>
     r = 0 \<and> uvm (kend s) (mem t) pd oldsz ys \<and>
       (newsz < KERNBASE \<longrightarrow> card (upages (mem s) pd \<union> set xs) \<le> 1025 + npages newsz))) s" (is "wp _ ?Q s")
proof (cases "newsz \<ge> KERNBASE")
  case True
  then show ?thesis using u ustep_refl [OF po] by (auto simp: allocuvm_def wp_ret uvm_def)
next
  case False
  then have nk: "newsz < KERNBASE" by simp
  have us: "uspace (kend s) (mem s) pd xs" using u by (simp add: uvm_def)
  let ?b = "\<lambda>(a, failed) _. \<not> failed \<and> a < newsz"
  let ?I = "\<lambda>x t. grown pd s xs oldsz x t \<and> (if snd x then pageno (fst x) < npages newsz else unat (fst x) \<le> 4096 * npages newsz)"
  have "wp (kwhile ?b (allocuvm_page pd oldsz newsz) (PGROUNDUP oldsz, False)) (\<lambda>x t. ?I x t \<and> \<not> ?b x t) s"
  proof (rule wp_kwhile [where I = ?I and V = "\<lambda>x _. if snd x then 0 else Suc (4096 * npages newsz - unat (fst x))"])
    have "oldsz \<le> KERNBASE" using old nk by (auto intro: order.trans)
    then show "?I (PGROUNDUP oldsz, False) s"
      using grown_start [OF po u] PGROUNDUP_npages [of oldsz] npages_mono [OF old] by simp
  next
    fix x t assume I: "?I x t" and b: "?b x t"
    obtain a where x: "x = (a, False)" and lt: "a < newsz" using b by (cases x) auto
    have g: "grown pd s xs oldsz (a, False) t" using I x by simp
    then obtain k where k: "unat a = 4096 * k" by (auto simp: grown_def)
    have kn: "Suc k \<le> npages newsz" using pageno_lt_iff [OF k, of newsz] lt by simp
    have "unat a + 4096 \<le> 4096 * npages newsz" unfolding k using kn by simp
    moreover have "pageno a < npages newsz" using kn pageno_mult [OF k] by simp
    ultimately show "wp (allocuvm_page pd oldsz newsz x) (\<lambda>y t'. ?I y t' \<and>
        (if snd y then 0 else Suc (4096 * npages newsz - unat (fst y))) <
        (if snd x then 0 else Suc (4096 * npages newsz - unat (fst x)))) t"
      unfolding x by (intro wp_mono [OF grown_step [OF g lt nk]]) (auto split: if_splits)
  qed simp
  moreover have "\<not> newsz < oldsz" using old by simp
  ultimately show ?thesis unfolding allocuvm_def if_not_P [OF False] if_not_P [OF \<open>\<not> newsz < oldsz\<close>] wp_bnd
  proof (elim wp_mono conjE)
    fix x t assume g: "grown pd s xs oldsz x t" and le: "if snd x then pageno (fst x) < npages newsz else unat (fst x) \<le> 4096 * npages newsz" and nb: "\<not> ?b x t"
    obtain a f where x: "x = (a, f)" by (cases x)
    obtain ys where st: "ustep pd s xs t ys" and kp: "\<forall>v. v < KERNBASE \<and> pageno v < npages oldsz \<longrightarrow> kept pd (mem s) (mem t) v"
        and c: "if f then uvm (kend s) (mem t) pd oldsz ys \<and> card (upages (mem s) pd \<union> set xs) \<le> 1026 + pageno a else \<exists>k. unat a = 4096 * k \<and> npages oldsz \<le> k \<and>
          mapped (mem t) pd = {v. v < KERNBASE \<and> pageno v < k} \<and>
          (\<forall>v. v < KERNBASE \<and> npages oldsz \<le> pageno v \<and> pageno v < k \<longrightarrow>
            PTE_FLAGS (entry (mem t) pd v) = PTE_W OR PTE_U OR PTE_P \<and> (\<forall>b. in_page (upage (mem t) pd v) b \<longrightarrow> mem t b = 0))"
      using g unfolding x grown_def by auto
    show "wp (case x of (_, failed) \<Rightarrow> ret (if failed then 0 else newsz)) ?Q t"
    proof (cases f)
      case True
      then show ?thesis using st kp c le by (auto simp: x wp_ret)
    next
      case nf: False
      then obtain k where k: "unat a = 4096 * k" "mapped (mem t) pd = {v. v < KERNBASE \<and> pageno v < k}"
          and z: "\<forall>v. v < KERNBASE \<and> npages oldsz \<le> pageno v \<and> pageno v < k \<longrightarrow>
            PTE_FLAGS (entry (mem t) pd v) = PTE_W OR PTE_U OR PTE_P \<and> (\<forall>b. in_page (upage (mem t) pd v) b \<longrightarrow> mem t b = 0)"
        using c by auto
      have "k = npages newsz" using pageno_lt_iff [OF k(1), of newsz] nb le k(1) nf by (simp add: x)
      moreover have "uspace (kend s) (mem t) pd ys" using ustepD(2,3) [OF st] by simp
      ultimately show ?thesis using st kp k(2) z nf nk page_byte unfolding x by (auto simp: wp_ret uvm_def ubyte_def)
    qed
  qed
qed

text \<open>C13. \<open>allocuvm\<close> grows an address space from \<open>oldsz\<close> to \<open>newsz\<close> bytes: every page it adds is zeroed, writable by the
  user and no one else's, and the old pages keep their mapping and contents. When it refuses the size or runs out of
  memory it returns 0 and the space has \<open>oldsz\<close> bytes as before; memory runs out only if the space and the free list together
  hold fewer pages than the new size and a full set of page tables. Either way no page is lost, the kernel's mappings stay, and
  memory that is neither free nor part of the space does not change.\<close>

theorem allocuvm_grows:
  assumes po: "pool s xs" and u: "uvm (kend s) (mem s) pd oldsz xs" and old: "oldsz \<le> newsz"
  shows "wp (allocuvm pd oldsz newsz) (\<lambda>r t. \<exists>ys. ustep pd s xs t ys \<and>
    (\<forall>v. v < KERNBASE \<and> pageno v < npages oldsz \<longrightarrow> kept pd (mem s) (mem t) v) \<and>
    (r = newsz \<and> newsz < KERNBASE \<and> uvm (kend s) (mem t) pd newsz ys \<and>
       (\<forall>v. v < KERNBASE \<and> npages oldsz \<le> pageno v \<and> pageno v < npages newsz \<longrightarrow>
          PTE_FLAGS (entry (mem t) pd v) = PTE_W OR PTE_U OR PTE_P \<and> ubyte (mem t) pd v = 0) \<or>
     r = 0 \<and> uvm (kend s) (mem t) pd oldsz ys \<and>
       (newsz < KERNBASE \<longrightarrow> card (upages (mem s) pd \<union> set xs) \<le> 1025 + npages newsz))) s"
  using assms by (rule allocuvm_spec)

text \<open>C16. \<open>deallocuvm\<close> shrinks an address space to \<open>newsz\<close> bytes: the pages above go back to the free list, those below keep
  their mapping and contents, no page is lost and no other memory changes.\<close>

theorem deallocuvm_shrinks:
  assumes "pool s xs" and "uvm (kend s) (mem s) pd oldsz xs" and "newsz \<le> oldsz" and "oldsz \<le> KERNBASE"
  shows "wp (deallocuvm pd oldsz newsz) (\<lambda>r t. \<exists>ys. r = newsz \<and> ustep pd s xs t ys \<and> uvm (kend s) (mem t) pd newsz ys \<and>
    (\<forall>v. v < KERNBASE \<and> pageno v < npages newsz \<longrightarrow> entry (mem t) pd v = entry (mem s) pd v \<and>
      ubyte (mem t) pd v = ubyte (mem s) pd v)) s"
  using deallocuvm_spec [OF assms(1-3) order_refl assms(4)]
proof (rule wp_mono, elim exE conjE)
  fix r t ys assume t: "r = newsz" "ustep pd s xs t ys" "uvm (kend s) (mem t) pd newsz ys"
    and kp: "\<forall>v. v < KERNBASE \<and> pageno v < npages newsz \<longrightarrow> kept pd (mem s) (mem t) v"
  have "\<forall>v. v < KERNBASE \<and> pageno v < npages newsz \<longrightarrow> entry (mem t) pd v = entry (mem s) pd v \<and>
      ubyte (mem t) pd v = ubyte (mem s) pd v"
    using kp kept_ubyte by (auto simp: kept_def)
  then show "\<exists>ys. r = newsz \<and> ustep pd s xs t ys \<and> uvm (kend s) (mem t) pd newsz ys \<and>
    (\<forall>v. v < KERNBASE \<and> pageno v < npages newsz \<longrightarrow> entry (mem t) pd v = entry (mem s) pd v \<and>
      ubyte (mem t) pd v = ubyte (mem s) pd v)" using t by blast
qed

section \<open>Freeing\<close>

lemma npages_0 [simp]: "npages 0 = 0"
  by (simp add: npages_def)

text \<open>The loop of \<open>freevm\<close> over the directory: after \<open>i\<close> entries the tables of those are on the free list.\<close>

lemma free_tables:
  assumes po: "pool s xs" and sp: "space (kend s) (mem s) pd xs"
  shows "wp (foreach (\<lambda>i s. (let e = load32 (mem s) (pd + 4 * of_nat i)
      in whenk (e AND PTE_P \<noteq> 0) (kfree (P2V (PTE_ADDR e))) s)) [0..<1024])
    (\<lambda>_ t. \<exists>ys. pool t ys \<and> kend t = kend s \<and> mem_only s t \<and> set ys = set xs \<union> (pd_pages (mem s) pd - {pd}) \<and>
      (\<forall>a. (\<forall>p \<in> pd_pages (mem s) pd - {pd}. \<not> in_page p a) \<longrightarrow> mem t a = mem s a)) s"
proof -
  note d = spaceD [OF sp]
  define T where "T i = tab (mem s) pd ` {j. j < i \<and> has_tab (mem s) pd j}" for i
  let ?f = "\<lambda>i s. (let e = load32 (mem s) (pd + 4 * of_nat i) in whenk (e AND PTE_P \<noteq> 0) (kfree (P2V (PTE_ADDR e))) s)"
  let ?I = "\<lambda>i t. \<exists>ys. pool t ys \<and> kend t = kend s \<and> mem_only s t \<and> set ys = set xs \<union> T i \<and> (\<forall>a. (\<forall>p \<in> T i. \<not> in_page p a) \<longrightarrow> mem t a = mem s a)"
  have "wp (foreach ?f [0..<1024]) (\<lambda>_. ?I 1024) s"
  proof (rule wp_foreach_upt)
    show "?I 0 s" using po by (auto simp: T_def)
  next
    fix i t assume i: "i < (1024 :: nat)" and I: "?I i t"
    obtain ys where t: "pool t ys" "kend t = kend s" and mo: "mem_only s t" and t': "set ys = set xs \<union> T i"
        "\<forall>a. (\<forall>p \<in> T i. \<not> in_page p a) \<longrightarrow> mem t a = mem s a"
      using I by (elim exE conjE) (rule that)
    note t = t t'
    have T: "aligned p \<and> p \<noteq> pd" if "p \<in> T i" for p using that d(4) i by (auto simp: T_def)
    have "mem t a = mem s a" if "in_page pd a" for a
      using t(4) T pages_disjoint [OF d(2) _ _ that] by metis
    then have pd: "load32 (mem t) (slot pd i) = pde (mem s) pd i" unfolding pde_def by (intro load_slot_cong [OF i])
    have Ts: "T (Suc i) = (if has_tab (mem s) pd i then insert (tab (mem s) pd i) (T i) else T i)"
      by (auto simp: T_def less_Suc_eq)
    show "wp (?f i) (\<lambda>_. ?I (Suc i)) t"
    proof (cases "has_tab (mem s) pd i")
      case False
      then have "?f i t = Ret () t" using pd by (simp add: has_tab_def whenk_def slot_def)
      then show ?thesis using I False by (simp add: wp_def Ts)
    next
      case True
      note ti = d(4) [OF i True]
      have "tab (mem s) pd i \<notin> T i"
      proof
        assume "tab (mem s) pd i \<in> T i"
        then obtain j where "j < i" "has_tab (mem s) pd j" "tab (mem s) pd i = tab (mem s) pd j" by (auto simp: T_def)
        then show False using d(5) [OF i True, of j] i by simp
      qed
      then have "tab (mem s) pd i \<notin> set ys" "page_ok (kend t) (tab (mem s) pd i)" using t ti by auto
      then obtain u where u: "kfree (tab (mem s) pd i) t = Ret () u" "pool u (tab (mem s) pd i # ys)" "kend u = kend t"
          "\<forall>a. \<not> in_page (tab (mem s) pd i) a \<longrightarrow> mem u a = mem t a" "mem_only t u"
        using kfree_pool [OF t(1)] by blast
      have "?f i t = Ret () u" using pd True u(1) by (simp add: has_tab_def whenk_def slot_def tab_def)
      moreover have "?I (Suc i) u"
        using u t mem_only_trans [OF mo u(5)] by (intro exI [of _ "tab (mem s) pd i # ys"]) (auto simp: Ts True)
      ultimately show ?thesis by (simp add: wp_def)
    qed
  qed
  moreover have "T 1024 = pd_pages (mem s) pd - {pd}" using d(4) by (auto simp: T_def pd_pages_def)
  ultimately show ?thesis by simp
qed


lemma freevm_spec:
  assumes po: "pool s xs" and u: "uvm (kend s) (mem s) pd sz xs" and sz: "sz \<le> KERNBASE"
  shows "wp (freevm pd) (\<lambda>_ t. \<exists>ys. pool t ys \<and> kend t = kend s \<and> mem_only s t \<and> set ys = set xs \<union> upages (mem s) pd \<and>
    (\<forall>a. (\<forall>p \<in> upages (mem s) pd \<union> set xs. \<not> in_page p a) \<longrightarrow> mem t a = mem s a)) s"
proof -
  have us: "uspace (kend s) (mem s) pd xs" using u by (simp add: uvm_def)
  then have sp: "space (kend s) (mem s) pd xs" by (simp add: uspace_def)
  have nz: "pd \<noteq> 0" using spaceD(1) [OF sp] page_ok_nz by blast
  have "(0 :: uint) \<le> sz" by simp
  from deallocuvm_spec [OF po u this sz order_refl] obtain r t ys where
    t: "deallocuvm pd KERNBASE 0 s = Ret r t" "ustep pd s xs t ys" "uvm (kend s) (mem t) pd 0 ys"
    unfolding wp_iff by blast
  have ut: "uspace (kend t) (mem t) pd ys" and k: "kend t = kend s" using ustepD [OF t(2)] by simp_all
  then have spt: "space (kend t) (mem t) pd ys" by (simp add: uspace_def)
  have "mapped (mem t) pd = {}" using t(3) by (simp add: uvm_def)
  then have up: "upages (mem t) pd = pd_pages (mem t) pd" by (simp add: upages_def)
  have pdin: "pd \<in> pd_pages (mem t) pd" by (simp add: pd_pages_def)
  have cons: "pd_pages (mem t) pd \<union> set ys = upages (mem s) pd \<union> set xs"
    and fr: "\<forall>a. (\<forall>p \<in> upages (mem s) pd \<union> set xs. \<not> in_page p a) \<longrightarrow> mem t a = mem s a"
    using t(2) up by (simp_all add: ustep_def)
  from free_tables [OF ustepD(1) [OF t(2)] spt] obtain u1 zs where
    u1: "foreach (\<lambda>i s. (let e = load32 (mem s) (pd + 4 * of_nat i)
      in whenk (e AND PTE_P \<noteq> 0) (kfree (P2V (PTE_ADDR e))) s)) [0..<1024] t = Ret () u1"
    "pool u1 zs" "kend u1 = kend t" and mo1: "mem_only t u1" and u1': "set zs = set ys \<union> (pd_pages (mem t) pd - {pd})"
    "\<forall>a. (\<forall>p \<in> pd_pages (mem t) pd - {pd}. \<not> in_page p a) \<longrightarrow> mem u1 a = mem t a"
    unfolding wp_unit by blast
  note u1 = u1 u1'
  have "pd \<notin> set zs" "page_ok (kend u1) pd" using u1(3,4) spaceD(1,3) [OF spt] by auto
  then obtain u2 where u2: "kfree pd u1 = Ret () u2" "pool u2 (pd # zs)" "kend u2 = kend u1"
      "\<forall>a. \<not> in_page pd a \<longrightarrow> mem u2 a = mem u1 a" "mem_only u1 u2"
    using kfree_pool [OF u1(2)] by blast
  have "set (pd # zs) = set xs \<union> upages (mem s) pd" using u1(4) cons pdin by auto
  moreover have "mem u2 a = mem s a" if a: "\<forall>p \<in> upages (mem s) pd \<union> set xs. \<not> in_page p a" for a
  proof -
    have "\<not> in_page p a" if "p \<in> pd_pages (mem t) pd" for p using a that unfolding cons [symmetric] by simp
    then show ?thesis using u2(4) u1(5) fr a pdin by simp
  qed
  moreover have "freevm pd s = Ret () u2"
    using nz t(1) u1(1) u2(1) by (simp add: freevm_def whenk_def bnd_def NPDENTRIES_def)
  moreover have "mem_only s u2" using t(2) mem_only_trans [OF _ mem_only_trans [OF mo1 u2(5)]] by (simp add: ustep_def)
  ultimately show ?thesis using u2(2,3) u1(3) k by (auto simp: wp_def)
qed

text \<open>C14. \<open>freevm\<close> gives every page of an address space back: user pages, page tables and directory, each exactly once;
  no other memory and no other part of the kernel's state changes.\<close>

theorem freevm_frees_all:
  assumes po: "pool s xs" and u: "uvm (kend s) (mem s) pd sz xs" and sz: "sz \<le> KERNBASE"
  shows "wp (freevm pd) (\<lambda>_ t. \<exists>ys. pool t ys \<and> mem_only s t \<and> set ys = set xs \<union> upages (mem s) pd \<and>
    (\<forall>a. (\<forall>p \<in> upages (mem s) pd \<union> set xs. \<not> in_page p a) \<longrightarrow> mem t a = mem s a)) s"
  using freevm_spec [OF assms] by (rule wp_mono) blast

end
