(* ===== verification/Kvm.thy ===== *)
theory Kvm
  imports Uvm
begin

text \<open>
  The kernel's half of every address space (\<open>setupkvm\<close>) and the copy of a whole space for \<open>fork\<close> (\<open>copyuvm\<close>).
\<close>

section \<open>The kernel map\<close>

text \<open>What \<open>mappages\<close> covers, as an interval.\<close>

lemma mapped_range_iff:
  assumes al: "aligned va" and len: "0 < unat len" and top: "unat va + unat len \<le> 2 ^ 32"
  shows "mapped_range va len v \<longleftrightarrow> unat va \<le> unat v \<and> pageno v \<le> (unat va + unat len - 1) div 4096"
proof -
  obtain q where q: "unat va = 4096 * q" using al unfolding aligned_unat by auto
  have w: "unat (va + len - 1) = unat va + unat len - 1"
  proof -
    have l: "unat (len - 1) = unat len - 1" using len by (simp add: unat_sub word_le_nat_alt)
    have "unat (va + (len - 1)) = (unat va + unat (len - 1)) mod 2 ^ 32"
      using unat_word_ariths(1) [of va "len - 1"] by simp
    also have "\<dots> = unat va + unat len - 1" unfolding l using len top by simp
    finally show ?thesis by (simp add: add_diff_eq)
  qed
  let ?l = "(unat va + unat len - 1) div 4096"
  have lq: "q \<le> ?l" using q len by (simp add: div_le_mono [of "4096 * q" _ 4096, simplified])
  have "unat (PGROUNDDOWN (va + len - 1)) = 4096 * ?l" unfolding PGROUNDDOWN_arith w by (simp add: minus_mod_eq_mult_div)
  moreover have "va \<le> PGROUNDDOWN (va + len - 1)" unfolding word_le_nat_alt calculation using q lq by simp
  ultimately have "unat (PGROUNDDOWN (va + len - 1) - va) = 4096 * (?l - q)" by (simp add: unat_sub q right_diff_distrib')
  then have li: "last_ix va len = ?l - q" by (simp add: last_ix_def pgix_def aligned_range [OF al])
  show ?thesis
  proof (cases "unat va \<le> unat v")
    case True
    then have "unat (v - va) = unat v - 4096 * q" by (simp add: unat_sub word_le_nat_alt q)
    then have "pgix va v = pageno v - q" by (simp add: pgix_def pageno_def)
    moreover have "q \<le> pageno v" using True q by (simp add: pageno_def)
    ultimately show ?thesis using True li lq by (simp add: aligned_range [OF al]) linarith
  next
    case False
    then have "unat (v - va) = 2 ^ 32 + unat v - 4096 * q" by (simp add: unat_sub_if_size word_size q)
    then have "2 ^ 20 - q \<le> pgix va v" using q top unfolding pgix_def by simp
    moreover have "?l < 2 ^ 20" using top by simp
    ultimately have "\<not> pgix va v \<le> ?l - q" using lq by linarith
    then show ?thesis using False li by (simp add: aligned_range [OF al])
  qed
qed

text \<open>The entry a list of mappings of \<open>kmap\<close> gives to \<open>v\<close>.\<close>

abbreviation kmap_covers :: "uint \<Rightarrow> uint \<times> uint \<times> uint \<times> uint \<Rightarrow> bool" where
  "kmap_covers v k \<equiv> (case k of (virt, ps, pe, perm) \<Rightarrow> mapped_range virt (pe - ps) v)"

definition kmap_entry :: "(uint \<times> uint \<times> uint \<times> uint) list \<Rightarrow> uint \<Rightarrow> uint" where
  "kmap_entry ks v = (case find (kmap_covers v) ks of None \<Rightarrow> 0
     | Some (virt, ps, pe, perm) \<Rightarrow> (ps + of_nat (pgix (PGROUNDDOWN virt) v) * PGSIZE) OR perm OR PTE_P)"

text \<open>The linker's \<open>data\<close> symbol lies on a page boundary inside the kernel's memory.\<close>

definition kdata_ok :: "uint \<Rightarrow> bool" where
  "kdata_ok d \<longleftrightarrow> aligned d \<and> KERNLINK < d \<and> d < P2V PHYSTOP"

lemma kmap_intervals:
  assumes "kdata_ok d"
  shows "mapped_range KERNBASE (EXTMEM - 0) v \<longleftrightarrow> 0x80000 \<le> pageno v \<and> pageno v < 0x80100"
    and "mapped_range KERNLINK (V2P d - V2P KERNLINK) v \<longleftrightarrow> 0x80100 \<le> pageno v \<and> pageno v < pageno d"
    and "mapped_range d (PHYSTOP - V2P d) v \<longleftrightarrow> pageno d \<le> pageno v \<and> pageno v < 0x8E000"
    and "mapped_range DEVSPACE (0 - DEVSPACE) v \<longleftrightarrow> 0xFE000 \<le> pageno v"
    and "0x80100 < pageno d" and "pageno d < 0x8E000"
proof -
  obtain q where q: "unat d = 4096 * q" using assms unfolding kdata_ok_def aligned_unat by auto
  have qd: "pageno d = q" by (rule pageno_mult [OF q])
  have "0x80100000 < unat d" "unat d < 0x8E000000"
    using assms by (simp_all add: kdata_ok_def word_less_nat_alt layout_defs P2V_def)
  then show q1: "0x80100 < pageno d" and q2: "pageno d < 0x8E000" unfolding qd using q by simp_all
  have ge: "4096 * k \<le> unat v \<longleftrightarrow> k \<le> pageno v" for k by (auto simp: pageno_def)
  have len2: "unat (V2P d - V2P KERNLINK) = unat d - 0x80100000"
    using \<open>0x80100000 < unat d\<close> by (simp add: V2P_def layout_defs unat_sub_if_size word_size)
  have len3: "unat (PHYSTOP - V2P d) = 0x8E000000 - unat d"
  proof -
    have "PHYSTOP - V2P d = 0x8E000000 - d" by (simp add: V2P_def layout_defs)
    then show ?thesis using \<open>unat d < 0x8E000000\<close> by (simp add: unat_sub_if_size word_size)
  qed
  have vlt: "pageno v < 0x100000" using unat_lt32 [of v] by (simp add: pageno_def)
  show "mapped_range KERNBASE (EXTMEM - 0) v \<longleftrightarrow> 0x80000 \<le> pageno v \<and> pageno v < 0x80100"
    using ge [of "0x80000"] by (subst mapped_range_iff) (auto simp: layout_defs)
  show "mapped_range KERNLINK (V2P d - V2P KERNLINK) v \<longleftrightarrow> 0x80100 \<le> pageno v \<and> pageno v < pageno d"
    using ge [of "0x80100"] q1 q2 len2 q qd by (subst mapped_range_iff) (auto simp: layout_defs)
  show "mapped_range d (PHYSTOP - V2P d) v \<longleftrightarrow> pageno d \<le> pageno v \<and> pageno v < 0x8E000"
    using ge [of q] q1 q2 len3 q qd assms by (subst mapped_range_iff) (auto simp: kdata_ok_def)
  show "mapped_range DEVSPACE (0 - DEVSPACE) v \<longleftrightarrow> 0xFE000 \<le> pageno v"
    using ge [of "0xFE000"] vlt by (subst mapped_range_iff) (auto simp: layout_defs)
qed

lemma same_page_rounddown: "aligned a \<Longrightarrow> same_page v a \<Longrightarrow> PGROUNDDOWN v = a"
proof -
  assume a: "aligned a" and s: "same_page v a"
  obtain q where q: "unat a = 4096 * q" using a unfolding aligned_unat by auto
  have "unat v div 4096 = q" using s q by (simp add: same_page_iff)
  then have "unat (PGROUNDDOWN v) = unat a" unfolding PGROUNDDOWN_arith q by (simp add: minus_mod_eq_mult_div)
  then show ?thesis by (simp add: word_unat_eq_iff)
qed

lemma pgix_rounddown: "aligned base \<Longrightarrow> of_nat (pgix base v) * PGSIZE = PGROUNDDOWN v - base"
  using same_page_range [of base "pgix base v" v] pgix_lt same_page_rounddown [OF aligned_page, of base v "pgix base v"]
  by simp

lemma aligned_low_bits: "(b :: uint) mod 4096 = 0 \<Longrightarrow> f < 4096 \<Longrightarrow> b AND f = 0"
proof -
  assume "b mod 4096 = 0" and f: "f < 4096"
  then have b: "b = b AND NOT (mask 12)" by (simp only: and_not_FFF flip: mask12) simp
  have "f = f AND mask 12" using f unfolding less_page_iff by (simp add: take_bit_eq_mask)
  then have "b AND f = (b AND NOT (mask 12)) AND (f AND mask 12)" using b by simp
  also have "\<dots> = 0" by (rule bit_word_eqI) (auto simp: bit_simps)
  finally show ?thesis .
qed

text \<open>What the kernel's entries allow.\<close>

lemma kmap_entry_cases:
  assumes d: "kdata_ok d"
  shows "kmap_entry (kmap d) v =
    (if pageno v < 0x80000 then 0
     else if pageno v < 0x80100 then V2P (PGROUNDDOWN v) OR PTE_W OR PTE_P
     else if pageno v < pageno d then V2P (PGROUNDDOWN v) OR 0 OR PTE_P
     else if pageno v < 0x8E000 then V2P (PGROUNDDOWN v) OR PTE_W OR PTE_P
     else if pageno v < 0xFE000 then 0
     else PGROUNDDOWN v OR PTE_W OR PTE_P)"
proof -
  note k = kmap_intervals(1-4) [OF d, of v]
  have al: "aligned d" using d by (simp add: kdata_ok_def)
  have al': "aligned KERNBASE" "aligned KERNLINK" "aligned DEVSPACE" by (simp_all add: layout_defs)
  have e: "ps + of_nat (pgix (PGROUNDDOWN a) v) * PGSIZE = PGROUNDDOWN v + (ps - a)" if "aligned a" for ps a
    using pgix_rounddown [OF that, of v] by (simp add: aligned_range [OF that])
  have e': "0 + of_nat (pgix (PGROUNDDOWN KERNBASE) v) * PGSIZE = V2P (PGROUNDDOWN v)"
      "V2P KERNLINK + of_nat (pgix (PGROUNDDOWN KERNLINK) v) * PGSIZE = V2P (PGROUNDDOWN v)"
      "V2P d + of_nat (pgix (PGROUNDDOWN d) v) * PGSIZE = V2P (PGROUNDDOWN v)"
      "DEVSPACE + of_nat (pgix (PGROUNDDOWN DEVSPACE) v) * PGSIZE = PGROUNDDOWN v"
    unfolding e [OF al'(1)] e [OF al'(2)] e [OF al] e [OF al'(3)] by (simp_all add: V2P_def)
  have oc: "(case if c then Some k else x of None \<Rightarrow> z | Some y \<Rightarrow> f y) = (if c then f k else case x of None \<Rightarrow> z | Some y \<Rightarrow> f y)"
    for c x z and k :: "uint \<times> uint \<times> uint \<times> uint" and f :: "_ \<Rightarrow> uint" by simp
  have "kmap_entry (kmap d) v =
      (if 0x80000 \<le> pageno v \<and> pageno v < 0x80100 then V2P (PGROUNDDOWN v) OR PTE_W OR PTE_P
       else if 0x80100 \<le> pageno v \<and> pageno v < pageno d then V2P (PGROUNDDOWN v) OR 0 OR PTE_P
       else if pageno d \<le> pageno v \<and> pageno v < 0x8E000 then V2P (PGROUNDDOWN v) OR PTE_W OR PTE_P
       else if 0xFE000 \<le> pageno v then PGROUNDDOWN v OR PTE_W OR PTE_P else 0)"
    unfolding kmap_entry_def kmap_def find.simps prod.case k by (simp only: oc option.case prod.case e')
  then show ?thesis using kmap_intervals(5,6) [OF d] by (auto simp del: or.right_neutral)
qed

lemma kmap_rights:
  assumes d: "kdata_ok d"
  shows "kmap_entry (kmap d) v AND PTE_U = 0"
    and "pageno v < 0x80000 \<Longrightarrow> kmap_entry (kmap d) v = 0"
    and "KERNBASE \<le> v \<Longrightarrow> v < P2V PHYSTOP \<Longrightarrow> present (kmap_entry (kmap d) v) \<and> PTE_ADDR (kmap_entry (kmap d) v) = V2P (PGROUNDDOWN v)"
    and "KERNLINK \<le> v \<Longrightarrow> v < d \<Longrightarrow> kmap_entry (kmap d) v AND PTE_W = 0"
proof -
  have b: "PGROUNDDOWN v mod 4096 = 0" "V2P (PGROUNDDOWN v) mod 4096 = 0"
    using aligned_PGROUNDDOWN [of v] V2P_aligned [of "PGROUNDDOWN v"] by (simp_all add: PGSIZE_def)
  have pr: "present (x OR f OR PTE_P)" for x f by (rule new_entry(2) [of "P2V x", unfolded P2V_def V2P_def, simplified])
  have u: "(x OR f OR PTE_P) AND g = (f OR PTE_P) AND g" if "x mod 4096 = 0" "g < 4096" for x f g
    using aligned_low_bits [OF that] by (simp add: bit.conj_disj_distrib2 or.assoc)
  have g: "PTE_U < 4096" "PTE_W < 4096" by (simp_all add: PTE_U_def PTE_W_def)
  show "kmap_entry (kmap d) v AND PTE_U = 0"
  proof -
    have "(x OR PTE_W OR PTE_P) AND PTE_U = 0" "(x OR 0 OR PTE_P) AND PTE_U = 0" if "x mod 4096 = 0" for x
      unfolding u [OF that g(1)] by (simp_all add: PTE_U_def PTE_W_def PTE_P_def)
    note r = this [OF b(1)] this [OF b(2)]
    show ?thesis unfolding kmap_entry_cases [OF d] by (simp only: r if_distrib [where f = "\<lambda>x. x AND PTE_U"] and_zero_eq) simp
  qed
  show "kmap_entry (kmap d) v = 0" if "pageno v < 0x80000" using that by (simp add: kmap_entry_cases [OF d])
  obtain q where q: "unat d = 4096 * q" using d unfolding kdata_ok_def aligned_unat by auto
  show "present (kmap_entry (kmap d) v) \<and> PTE_ADDR (kmap_entry (kmap d) v) = V2P (PGROUNDDOWN v)"
    if "KERNBASE \<le> v" "v < P2V PHYSTOP"
  proof -
    have "0x80000 \<le> pageno v" "pageno v < 0x8E000"
      using that by (simp_all add: pageno_def word_le_nat_alt word_less_nat_alt layout_defs P2V_def)
    moreover have "PTE_ADDR (V2P (PGROUNDDOWN v) OR PTE_W OR PTE_P) = V2P (PGROUNDDOWN v)"
        "PTE_ADDR (V2P (PGROUNDDOWN v) OR PTE_P) = V2P (PGROUNDDOWN v)"
      using PTE_ADDR_or [OF b(2), of "PTE_W OR PTE_P"] PTE_ADDR_or [OF b(2), of PTE_P]
      by (simp_all add: or.assoc PTE_W_def PTE_P_def)
    ultimately show ?thesis unfolding kmap_entry_cases [OF d] using pr [of _ PTE_W] pr [of _ 0] by simp
  qed
  show "kmap_entry (kmap d) v AND PTE_W = 0" if "KERNLINK \<le> v" "v < d"
  proof -
    have "0x80100 \<le> pageno v" "pageno v < pageno d"
      using that q by (simp_all add: pageno_def word_le_nat_alt word_less_nat_alt layout_defs)
    then show ?thesis unfolding kmap_entry_cases [OF d] using u [OF b(2) g(2), of 0] by (simp add: PTE_W_def PTE_P_def)
  qed
qed

section \<open>setupkvm\<close>

text \<open>An empty directory on a page \<open>x\<close> off the free list.\<close>

lemma new_directory:
  assumes po: "pool s (x # xs)" and s1: "pool s1 xs" "mem s1 = mem s" "kend s1 = kend s"
    and t: "t = s1\<lparr>mem := memset (mem s) x 0 PGSIZE\<rparr>"
  shows "pool t xs" and "space (kend s) (mem t) x xs" and "pd_pages (mem t) x = {x}" and "\<And>v. entry (mem t) x v = 0"
proof -
  have x: "page_ok (kend s) x" "x \<notin> set xs" "aligned x" using po by (auto simp: pool_def free_list_def page_ok_def)
  have h: "\<not> has_tab (mem t) x i" if "i < 1024" for i
    using that x by (simp add: t has_tab_def pde_def load_memset_slot)
  then show pg: "pd_pages (mem t) x = {x}" by (auto simp: pd_pages_def)
  show "entry (mem t) x v = 0" for v using h [OF PDX_lt] by (simp add: entry_def)
  show "space (kend s) (mem t) x xs" unfolding space_def pg using x h by (auto simp: inj_on_def)
  show "pool t xs" unfolding t
  proof (rule pool_mem [OF s1(1)])
    fix y a assume y: "y \<in> set xs" "in_page y a"
    then have "page_ok (kend s) y" "y \<noteq> x" using po by (auto simp: pool_def free_list_def)
    then have "\<not> in_page x a" using x y pages_disjoint [of y x a] by (simp add: page_ok_def)
    then show "memset (mem s) x 0 PGSIZE a = mem s1 a" using s1(2) by (simp add: memset_outside)
  qed
qed

lemma kmap_list:
  assumes po: "pool s xs" and sp: "space (kend s) (mem s) pd xs" and e0: "\<And>v. entry (mem s) pd v = 0"
    and dis: "\<And>i j v. i < j \<Longrightarrow> j < length ks \<Longrightarrow> \<not> (kmap_covers v (ks ! i) \<and> kmap_covers v (ks ! j))"
  shows "wp (forexit (\<lambda>(virt, phys_start, phys_end, perm).
      bnd (mappages pd virt (phys_end - phys_start) phys_start perm) (\<lambda>r. ret (if r < 0 then Some 0 else None))) ks)
    (\<lambda>r t. \<exists>ys. pd_step pd s xs t ys \<and>
      (case r of None \<Rightarrow> \<forall>v. entry (mem t) pd v = kmap_entry ks v | Some z \<Rightarrow> z = (0 :: uint) \<and> ys = [])) s"
    (is "wp (forexit ?f ks) _ s")
proof -
  let ?I = "\<lambda>pre t. \<exists>ys. pd_step pd s xs t ys \<and> (\<forall>v. entry (mem t) pd v = kmap_entry pre v)"
  let ?Q = "\<lambda>z t. z = (0 :: uint) \<and> pd_step pd s xs t []"
  have "wp (forexit ?f ks) (\<lambda>r. case r of None \<Rightarrow> ?I ks | Some z \<Rightarrow> ?Q z) s"
  proof (rule wp_forexit)
    show "?I [] s" using pd_step_refl [OF po sp] e0 by (auto simp: kmap_entry_def)
  next
    fix pre k rest t assume ks: "ks = pre @ k # rest" and I: "?I pre t"
    obtain virt ps pe perm where k: "k = (virt, ps, pe, perm)" by (cases k)
    obtain ys where t: "pd_step pd s xs t ys" "\<forall>v. entry (mem t) pd v = kmap_entry pre v"
      using I by (elim exE conjE) (rule that)
    have none: "find (kmap_covers v) pre = None" if "kmap_covers v k" for v
    proof -
      have "\<not> kmap_covers v q" if q: "q \<in> set pre" for q
      proof -
        obtain i where "i < length pre" "q = pre ! i" using q by (auto simp: in_set_conv_nth)
        then show ?thesis using dis [of i "length pre" v] \<open>kmap_covers v k\<close> by (simp add: ks nth_append)
      qed
      then show ?thesis unfolding find_None_iff by blast
    qed
    have snoc: "kmap_entry (pre @ [k]) v = (if kmap_covers v k then (ps + of_nat (pgix (PGROUNDDOWN virt) v) * PGSIZE) OR perm OR PTE_P
        else kmap_entry pre v)" for v
    proof -
      have "find (kmap_covers v) (pre @ [k]) = (case find (kmap_covers v) pre of Some q \<Rightarrow> Some q
          | None \<Rightarrow> if kmap_covers v k then Some k else None)" by (induction pre) auto
      then show ?thesis using none [of v] by (auto simp: kmap_entry_def k split: option.split)
    qed
    have po': "pool t ys" and sp': "space (kend t) (mem t) pd ys" using t(1) by (simp_all add: pd_step_def)
    have "\<forall>v. mapped_range virt (pe - ps) v \<longrightarrow> entry (mem t) pd v AND PTE_P = 0"
      using none t(2) by (simp add: k kmap_entry_def)
    from mappages_spec [OF po' sp' this, of ps perm]
    show "wp (?f k) (\<lambda>r. case r of None \<Rightarrow> ?I (pre @ [k]) | Some z \<Rightarrow> ?Q z) t"
      unfolding k prod.case wp_bnd wp_ret
    proof (rule wp_mono, elim exE conjE)
      fix r :: int and u zs
      assume u: "pd_step pd t ys u zs" and r: "r = 0 \<and> (\<forall>v. entry (mem u) pd v = (if mapped_range virt (pe - ps) v
          then (ps + of_nat (pgix (PGROUNDDOWN virt) v) * PGSIZE) OR perm OR PTE_P else entry (mem t) pd v)) \<or>
        r = -1 \<and> zs = [] \<and> (\<forall>v. \<not> mapped_range virt (pe - ps) v \<longrightarrow> entry (mem u) pd v = entry (mem t) pd v)"
      have "\<forall>v. entry (mem u) pd v = kmap_entry (pre @ [k]) v" if "r = 0" using r that t(2) snoc by (auto simp: k)
      then show "(case if r < 0 then Some 0 else None of None \<Rightarrow> ?I (pre @ [(virt, ps, pe, perm)]) | Some z \<Rightarrow> ?Q z) u"
        using r pd_step_trans [OF t(1) u] by (auto simp: k)
    qed
  qed
  then show ?thesis by (rule wp_mono) (auto split: option.splits)
qed

lemma kmap_disjoint:
  assumes d: "kdata_ok d" and "i < j" and "j < length (kmap d)"
  shows "\<not> (kmap_covers v (kmap d ! i) \<and> kmap_covers v (kmap d ! j))"
proof -
  note k = kmap_intervals(1-4) [OF d, of v] kmap_intervals(5,6) [OF d]
  have "i = 0 \<and> j = 1 \<or> i = 0 \<and> j = 2 \<or> i = 0 \<and> j = 3 \<or> i = 1 \<and> j = 2 \<or> i = 1 \<and> j = 3 \<or> i = 2 \<and> j = 3"
    using assms(2,3) by (simp add: kmap_def) linarith
  moreover have n: "kmap d ! 0 = (KERNBASE, 0, EXTMEM, PTE_W)" "kmap d ! 1 = (KERNLINK, V2P KERNLINK, V2P d, 0)"
      "kmap d ! 2 = (d, V2P d, PHYSTOP, PTE_W)" "kmap d ! 3 = (DEVSPACE, DEVSPACE, 0, PTE_W)"
    by (simp_all add: kmap_def)
  ultimately show ?thesis using k(5,6) by (elim disjE conjE) (simp_all only: n prod.case k(1-4), linarith+)
qed

text \<open>What \<open>setupkvm\<close> leaves: memory outside the free pages is untouched; a directory it returns has the kernel's entries and
  no other, and it and its tables were free before.\<close>

lemma setupkvm_spec:
  assumes po: "pool s xs" and d: "kdata_ok (kdata s)" and kb: "KERNBASE < kend s"
  shows "wp setupkvm (\<lambda>r t. \<exists>ys. pool t ys \<and> kend t = kend s \<and> mem_only s t \<and> set ys \<subseteq> set xs \<and>
    (\<forall>a. (\<forall>p \<in> set xs. \<not> in_page p a) \<longrightarrow> mem t a = mem s a) \<and>
    (r = 0 \<and> length xs \<le> 1025 \<or> r \<in> set xs \<and> uvm (kend s) (mem t) r 0 ys \<and> upages (mem t) r \<union> set ys = set xs \<and>
       (\<forall>v. entry (mem t) r v = kmap_entry (kmap (kdata s)) v))) s"
proof (cases xs)
  case Nil
  then show ?thesis using po kalloc_empty [of s] mem_only_exit [OF mem_only_refl, of s] by (auto simp: setupkvm_def wp_def bnd_def)
next
  case (Cons x xs')
  note po' = po [unfolded Cons]
  have x: "page_ok (kend s) x" using po' by (simp add: pool_def free_list_def)
  obtain s1 where s1: "kalloc s = Ret x s1" "pool s1 xs'" "mem s1 = mem s" "kend s1 = kend s"
      and mo: "mem_only s s1" using kalloc_Cons [of s x xs'] po' by blast
  define t where "t = s1\<lparr>mem := memset (mem s) x 0 PGSIZE\<rparr>"
  note n = new_directory [OF po' s1(2-4) t_def]
  have kt: "kend t = kend s" "kdata t = kdata s" using s1 mo by (auto simp: t_def mem_only_def)
  have sp: "space (kend t) (mem t) x xs'" using n(2) kt by simp
  from kmap_list [OF n(1) sp n(4) kmap_disjoint [OF d]] obtain r u ys where
    u: "forexit (\<lambda>(virt, phys_start, phys_end, perm).
        bnd (mappages x virt (phys_end - phys_start) phys_start perm) (\<lambda>r. ret (if r < 0 then Some 0 else None)))
        (kmap (kdata s)) t = Ret r u"
    and st: "pd_step x t xs' u ys"
    and r: "case r of None \<Rightarrow> \<forall>v. entry (mem u) x v = kmap_entry (kmap (kdata s)) v | Some z \<Rightarrow> z = (0 :: uint) \<and> ys = []"
    unfolding wp_iff by blast
  have run: "setupkvm s = Ret (case r of None \<Rightarrow> x | Some z \<Rightarrow> z) u"
    using s1(1,3) kt(2) u page_ok_nz [OF x]
    by (simp add: setupkvm_def bnd_def whenk_def t_def P2V_def layout_defs)
  have sub: "set ys \<subseteq> set xs" and cons: "pd_pages (mem u) x \<union> set ys = set xs"
    using st n(3) by (auto simp: pd_step_def Cons)
  have fr: "mem u a = mem s a" if "\<forall>p \<in> set xs. \<not> in_page p a" for a
    using st that n(3) by (simp add: pd_step_def Cons t_def memset_outside)
  have "uvm (kend s) (mem u) x 0 ys \<and> upages (mem u) x \<union> set ys = set xs" if "r = None"
  proof -
    have e: "entry (mem u) x v = kmap_entry (kmap (kdata s)) v" for v using r that by simp
    have "v \<notin> mapped (mem u) x" for v
      using kmap_rights(2) [OF d, of v] KERNBASE_pageno [of v] by (auto simp: mapped_def e)
    then have mp: "mapped (mem u) x = {}" by blast
    then have "uspace (kend s) (mem u) x ys" using st kt kb by (intro uspaceI) (simp_all add: pd_step_def)
    then show ?thesis using mp cons by (simp add: uvm_def upages_def)
  qed
  moreover have "length xs \<le> 1025" if "ys = []"
  proof -
    have "card (set xs) \<le> 1025" using pd_pages_card(2) [of "mem u" x] cons that by simp
    then show ?thesis using po by (simp add: pool_def free_list_def distinct_card)
  qed
  moreover have "mem_only s u" using st mem_only_trans [OF mem_only_upd(1) [OF mo]] by (auto simp: pd_step_def t_def)
  ultimately show ?thesis using run sub fr st r kt Cons by (auto simp: wp_def pd_step_def split: option.splits)
qed

text \<open>C15. \<open>setupkvm\<close> builds the kernel's half of an address space from free pages only: nothing below \<open>KERNBASE\<close> is mapped,
  no entry lets user code in, all of physical memory up to \<open>PHYSTOP\<close> is mapped at \<open>KERNBASE\<close>, and the kernel's text is not
  writable. It returns 0 only when there are too few free pages for a directory and a full set of tables,
  and changes no other part of the kernel's state.\<close>

theorem setupkvm_protects_kernel:
  assumes "pool s xs" and d: "kdata_ok (kdata s)" and "KERNBASE < kend s"
  shows "wp setupkvm (\<lambda>r t. \<exists>ys. pool t ys \<and> mem_only s t \<and> (\<forall>a. (\<forall>p \<in> set xs. \<not> in_page p a) \<longrightarrow> mem t a = mem s a) \<and>
    (r = 0 \<and> length xs \<le> 1025 \<or> r \<in> set xs \<and> uvm (kend s) (mem t) r 0 ys \<and> upages (mem t) r \<union> set ys = set xs \<and>
      (\<forall>v. entry (mem t) r v AND PTE_U = 0) \<and>
      (\<forall>v. KERNBASE \<le> v \<and> v < P2V PHYSTOP \<longrightarrow> present (entry (mem t) r v) \<and> PTE_ADDR (entry (mem t) r v) = V2P (PGROUNDDOWN v)) \<and>
      (\<forall>v. KERNLINK \<le> v \<and> v < kdata s \<longrightarrow> entry (mem t) r v AND PTE_W = 0))) s"
  using setupkvm_spec [OF assms] by (rule wp_mono) (auto simp: kmap_rights [OF d])

section \<open>Copying an address space\<close>

lemma page_ok_room: "page_ok e p \<Longrightarrow> unat p + 4096 < 2 ^ 32"
proof -
  assume p: "page_ok e p"
  then have "unat (V2P p) < 0xE000000" by (simp add: page_ok_def word_less_nat_alt layout_defs)
  moreover have "unat p = unat (V2P p) + 0x80000000"
    using page_ok_high [OF p] by (simp add: V2P_def KERNBASE_def unat_sub word_le_nat_alt)
  ultimately show ?thesis by simp
qed

text \<open>A page copied with \<open>memmove\<close>.\<close>

lemma page_move:
  assumes "page_ok e x" and "page_ok e p"
  shows "memmove m x p PGSIZE (x + (v AND 0xFFF)) = m (p + (v AND 0xFFF))"
    and "\<not> in_page x b \<Longrightarrow> memmove m x p PGSIZE b = m b"
proof -
  have r: "unat p + unat PGSIZE < 2 ^ 32" "unat x + unat PGSIZE \<le> 2 ^ 32"
    using page_ok_room [OF assms(1)] page_ok_room [OF assms(2)] by (simp_all add: PGSIZE_def)
  have "unat (v AND 0xFFF) < unat PGSIZE" by (simp add: and_FFF unat_mod_4096 PGSIZE_def)
  from memmove_bytes(1) [OF r this, of m] show "memmove m x p PGSIZE (x + (v AND 0xFFF)) = m (p + (v AND 0xFFF))" by simp
  show "memmove m x p PGSIZE b = m b" if "\<not> in_page x b"
    using that in_page_offset [of _ x] by (intro memmove_bytes(2) [OF r]) (auto simp: PGSIZE_def)
qed

text \<open>The parent is out of reach of a loop that touches only pages that were free.\<close>

lemma parent_kept:
  assumes u: "uspace e m pd xs" and pg: "\<And>p. p \<in> set xs \<Longrightarrow> page_ok e p"
    and fr: "\<And>a. (\<forall>p \<in> set xs. \<not> in_page p a) \<Longrightarrow> m' a = m a" and sub: "set ys \<subseteq> set xs"
  shows "uspace e m' pd ys" and "entry m' pd v = entry m pd v" and "mapped m' pd = mapped m pd"
    and "v \<in> mapped m pd \<Longrightarrow> kept pd m m' v" and "upages m' pd = upages m pd"
proof -
  have same: "m' b = m b" if "p \<in> upages m pd" "in_page p b" for p b
  proof (rule fr, rule ballI)
    fix q assume q: "q \<in> set xs"
    then have "p \<noteq> q" "aligned q" "aligned p" using upages_free [OF u] that pg [OF q] upages_ok [OF u, of p]
      by (auto simp: page_ok_def)
    then show "\<not> in_page q b" using pages_disjoint [of p q b] that by simp
  qed
  have same': "m' b = m b" if "p \<in> pd_pages m pd" "in_page p b" for p b
    using that by (intro same [of p]) (simp_all add: upages_def)
  have "upages m pd \<inter> set ys = {}" using upages_free [OF u] sub by blast
  note n = uspace_mem [OF u same' this]
  show "uspace e m' pd ys" "entry m' pd v = entry m pd v" "mapped m' pd = mapped m pd" "upages m' pd = upages m pd"
    by (rule n, assumption, assumption)+
  then show "kept pd m m' v" if "v \<in> mapped m pd"
    using that same [of "upage m pd v"] by (auto simp: kept_def upages_def)
qed

text \<open>The loop of \<open>copyuvm\<close> when \<open>i\<close> bytes have been copied; \<open>K\<close> is the kernel's part of the table.\<close>

definition copied ::
  "uint \<Rightarrow> uint \<Rightarrow> (uint \<Rightarrow> uint) \<Rightarrow> 'z kmem_state_scheme \<Rightarrow> uint list \<Rightarrow> uint \<times> bool \<Rightarrow> 'z kmem_state_scheme \<Rightarrow> bool" where
  "copied pd d K s xs = (\<lambda>(i, bad) t. \<exists>k ys. unat i = 4096 * k \<and> pool t ys \<and> kend t = kend s \<and> mem_only s t \<and> uvm (kend s) (mem t) d i ys \<and>
     upages (mem t) d \<union> set ys \<subseteq> set xs \<and> (\<forall>a. (\<forall>p \<in> set xs. \<not> in_page p a) \<longrightarrow> mem t a = mem s a) \<and>
     (bad \<longrightarrow> card (set xs) \<le> 1026 + k) \<and>
     (\<not> bad \<longrightarrow> upages (mem t) d \<union> set ys = set xs \<and> (\<forall>v. KERNBASE \<le> v \<longrightarrow> entry (mem t) d v = K v) \<and>
       (\<forall>v. v < KERNBASE \<and> pageno v < k \<longrightarrow>
          PTE_FLAGS (entry (mem t) d v) = PTE_FLAGS (entry (mem s) pd v) \<and> ubyte (mem t) d v = ubyte (mem s) pd v)))"

lemma flags_present: "present e \<Longrightarrow> PTE_FLAGS e OR PTE_P = PTE_FLAGS e" and flags_small: "PTE_FLAGS e < 4096"
proof -
  show "PTE_FLAGS e < 4096" by (simp add: PTE_FLAGS_def and_FFF word_less_nat_alt unat_mod_4096)
  assume "present e"
  then have "bit e 0" by (simp add: PTE_P_def and_one_eq odd_iff_mod_2_eq_one bit_0)
  then show "PTE_FLAGS e OR PTE_P = PTE_FLAGS e"
    unfolding PTE_FLAGS_def PTE_P_def mask12 by (intro bit_word_eqI) (auto simp: bit_simps bit_1_iff)
qed

lemma copied_new_page:
  assumes I: "copied pd d K s xs (i, False) t" and k: "unat i = 4096 * k" "k < 524288"
    and mp: "mapped (mem t) d = {v. v < KERNBASE \<and> pageno v < k}" and po: "pool t ys" "upages (mem t) d \<union> set ys = set xs"
    and st: "ustep d t ys t2 zs" and e: "\<forall>v. entry (mem t2) d v =
      (if same_page v i then V2P x OR PTE_FLAGS (entry (mem s) pd i) OR PTE_P else entry (mem t) d v)"
    and pr: "present (entry (mem s) pd i)" and x: "aligned x"
    and c: "\<And>v. pageno v = k \<Longrightarrow> mem t2 (x + (v AND 0xFFF)) = ubyte (mem s) pd v"
    and kp: "\<forall>v \<in> mapped (mem t) d. kept d (mem t) (mem t2) v"
  shows "copied pd d K s xs (i + PGSIZE, False) t2"
proof -
  obtain k' where "unat i = 4096 * k'" and kt: "kend t = kend s" and mo: "mem_only s t"
      and fr: "\<forall>a. (\<forall>p \<in> set xs. \<not> in_page p a) \<longrightarrow> mem t a = mem s a"
      and ke: "\<forall>v. KERNBASE \<le> v \<longrightarrow> entry (mem t) d v = K v" and c': "\<forall>v. v < KERNBASE \<and> pageno v < k' \<longrightarrow>
        PTE_FLAGS (entry (mem t) d v) = PTE_FLAGS (entry (mem s) pd v) \<and> ubyte (mem t) d v = ubyte (mem s) pd v"
    using I by (auto simp: copied_def)
  then have [simp]: "k' = k" using k by simp
  have ik: "pageno i = k" by (rule pageno_mult [OF k(1)])
  have en: "entry (mem t2) d v = entry (mem t) d v" if "pageno v \<noteq> k" for v using e that by (simp add: same_pageno ik)
  have new: "entry (mem t2) d v = V2P x OR PTE_FLAGS (entry (mem s) pd i) OR PTE_P" if "pageno v = k" for v
    using e that by (simp add: same_pageno ik)
  have "v \<in> mapped (mem t2) d \<longleftrightarrow> v < KERNBASE \<and> pageno v < Suc k" for v
  proof (cases "pageno v = k")
    case True
    then show ?thesis using new [OF True] new_entry(2) [of x "PTE_FLAGS (entry (mem s) pd i)"] by (simp add: mapped_def)
  next
    case False
    then show ?thesis using en [OF False] mp by (simp add: mapped_def set_eq_iff less_Suc_eq)
  qed
  then have mp2: "mapped (mem t2) d = {v. v < KERNBASE \<and> pageno v < Suc k}" by blast
  have c2: "PTE_FLAGS (entry (mem t2) d v) = PTE_FLAGS (entry (mem s) pd v) \<and> ubyte (mem t2) d v = ubyte (mem s) pd v"
    if v: "v < KERNBASE \<and> pageno v < Suc k" for v
  proof (cases "pageno v = k")
    case True
    then have ev: "entry (mem s) pd v = entry (mem s) pd i" by (intro same_page_entry) (simp add: same_pageno ik)
    have "upage (mem t2) d v = x" using new [OF True] new_entry(1) [OF x flags_small] by (simp add: upage_def)
    moreover have "PTE_FLAGS (entry (mem t2) d v) = PTE_FLAGS (entry (mem s) pd i)"
      unfolding new [OF True] new_entry_flags [OF x flags_small] by (rule flags_present [OF pr])
    ultimately show ?thesis using c [OF True] ev by (simp add: ubyte_def)
  next
    case False
    then have "v \<in> mapped (mem t) d" "pageno v < k" using v by (simp_all add: mp)
    then show ?thesis using kp kept_ubyte [of d "mem t" "mem t2" v] c' v by (auto simp: kept_def)
  qed
  have "upages (mem t2) d \<union> set zs = set xs" using st po(2) by (simp add: ustep_def)
  moreover have "mem t2 a = mem s a" if "\<forall>p \<in> set xs. \<not> in_page p a" for a
    using st fr that po(2) by (simp add: ustep_def)
  moreover have "entry (mem t2) d v = K v" if "KERNBASE \<le> v" for v using st ke that by (simp add: ustep_def)
  moreover have "uvm (kend s) (mem t2) d (i + PGSIZE) zs"
    using ustepD(2,3) [OF st] kt mp2 npages_mult [OF unat_page_step(1) [OF k]] by (simp add: uvm_def)
  moreover have "mem_only s t2" using st mem_only_trans [OF mo] by (simp add: ustep_def)
  ultimately show ?thesis unfolding copied_def
    using ustepD(1,2) [OF st] kt unat_page_step(1) [OF k] c2
    by (simp only: prod.case) (intro exI [of _ "Suc k"] exI [of _ zs], simp)
qed

lemma copied_stuck:
  assumes I: "copied pd d K s xs (i, False) t" and mp: "mapped (mem t) d = {v. v < KERNBASE \<and> pageno v < k}" and k: "unat i = 4096 * k"
    and po: "pool t (x # ys)" and us: "uspace (kend t) (mem t) d (x # ys)" and cons: "upages (mem t) d \<union> set (x # ys) = set xs"
    and s1: "kend s1 = kend t" "mem_only t s1" and m': "\<And>b. \<not> in_page x b \<Longrightarrow> m' b = mem t b"
    and st: "ustep d (s1\<lparr>mem := m'\<rparr>) ys t2 []" and e: "\<forall>v. entry (mem t2) d v = entry (mem t) d v"
  shows "copied pd d K s xs (i, True) t2"
proof -
  have kt: "kend t = kend s" and mo: "mem_only s t" and fr: "\<And>a. (\<forall>p \<in> set xs. \<not> in_page p a) \<Longrightarrow> mem t a = mem s a" using I by (auto simp: copied_def)
  have up: "upages m' d = upages (mem t) d" by (rule limbo(4) [OF po us m' st])
  have "mapped (mem t2) d = {v. v < KERNBASE \<and> pageno v < k}" unfolding mp [symmetric] by (simp add: mapped_def e)
  then have "uvm (kend s) (mem t2) d i []" using ustepD(2,3) [OF st] s1 kt npages_mult [OF k] by (simp add: uvm_def)
  moreover have "upages (mem t2) d \<union> set [] \<subseteq> set xs" using st cons up by (auto simp: ustep_def)
  moreover have "mem t2 a = mem s a" if "\<forall>p \<in> set xs. \<not> in_page p a" for a
    using st fr [OF that] m' [of a] that unfolding cons [symmetric] by (simp add: ustep_def up)
  moreover have "card (set xs) \<le> 1026 + k" unfolding cons [symmetric] by (rule stuck_card [OF po us m' st e mp])
  moreover have "mem_only s t2"
    using st mem_only_trans [OF mem_only_trans [OF mo mem_only_upd(1) [OF s1(2)]]] by (auto simp: ustep_def)
  ultimately show ?thesis unfolding copied_def using ustepD(1,2) [OF st] s1 kt k
    by (simp only: prod.case) (intro exI [of _ k] exI [of _ "[]"], simp)
qed

lemma copied_step:
  assumes u: "uspace (kend s) (mem s) pd xs" and pg: "\<And>p. p \<in> set xs \<Longrightarrow> page_ok (kend s) p"
    and i: "i \<in> mapped (mem s) pd" and I: "copied pd d K s xs (i, False) t"
  shows "wp (copyuvm_page pd d (i, False)) (\<lambda>(j, bad) t'. copied pd d K s xs (j, bad) t' \<and> (if bad then j = i else unat j = unat i + 4096)) t"
proof -
  obtain k ys where k: "unat i = 4096 * k" and po: "pool t ys" and kt: "kend t = kend s" and mo: "mem_only s t" and ud: "uvm (kend s) (mem t) d i ys"
      and cons: "upages (mem t) d \<union> set ys = set xs" and fr: "\<And>a. (\<forall>p \<in> set xs. \<not> in_page p a) \<Longrightarrow> mem t a = mem s a"
    using I by (auto simp: copied_def)
  have mp: "mapped (mem t) d = {v. v < KERNBASE \<and> pageno v < k}" and us: "uspace (kend t) (mem t) d ys"
    using ud kt npages_mult [OF k] by (simp_all add: uvm_def)
  have ik: "pageno i = k" "i < KERNBASE" using pageno_mult [OF k] i by (simp_all add: mapped_def)
  then have kb: "k < 524288" using KERNBASE_pageno [of i] by simp
  have sub: "set ys \<subseteq> set xs" using cons by auto
  note pk = parent_kept [OF u pg fr sub]
  have e: "entry (mem t) pd i = entry (mem s) pd i" "upage (mem t) pd i = upage (mem s) pd i" and ki: "kept pd (mem s) (mem t) i"
    using pk(2,4) i by (simp_all add: upage_def)
  have pr: "present (entry (mem s) pd i)" using i by (simp add: mapped_def)
  have h: "has_tab (mem t) pd (dirx i)" using pr e(1) by (auto simp: entry_def split: if_splits)
  have spt: "space (kend s) (mem t) pd ys" using pk(1) by (simp add: uspace_def)
  have w: "walkpgdir pd i False t = Ret (slot (tab (mem t) pd (dirx i)) (tabx i)) t"
      "slot (tab (mem t) pd (dirx i)) (tabx i) \<noteq> 0" "load32 (mem t) (slot (tab (mem t) pd (dirx i)) (tabx i)) = entry (mem s) pd i"
    using h spaceD(4) [OF spt PDX_lt h] slot_nz [OF _ PTX_lt] e(1)
    by (auto simp: walkpgdir_def bnd_def has_tab_def tab_def pde_def slot_PDX slot_PTX entry_def)
  show ?thesis
  proof (cases ys)
    case Nil
    have "card (set xs) \<le> 1026 + k" using upages_card(2) [OF mp] cons Nil by simp
    then have "copied pd d K s xs (i, True) (kmem_exit t)"
      unfolding copied_def using k po kt mem_only_exit [OF mo] ud cons fr by (simp only: prod.case) (intro exI [of _ k] exI [of _ ys], simp)
    moreover have "copyuvm_page pd d (i, False) t = Ret (i, True) (kmem_exit t)"
      using w pr kalloc_empty [of t] po Nil by (simp add: copyuvm_page_def bnd_def whenk_def)
    ultimately show ?thesis by (simp add: wp_def)
  next
    case (Cons x ys')
    obtain s1 where s1: "kalloc t = Ret x s1" "pool s1 ys'" "mem s1 = mem t" "kend s1 = kend t" "mem_only t s1"
      using kalloc_Cons [of t x ys'] po Cons by auto
    have px: "page_ok (kend s) x" using pg [of x] sub Cons by auto
    then have x: "page_ok (kend s) x" "aligned x" "x \<noteq> 0" using page_ok_nz [OF px] by (simp_all add: page_ok_def)
    define m' where "m' = memmove (mem t) x (upage (mem s) pd i) PGSIZE"
    note mv = page_move [OF x(1) uspaceD(1) [OF u i], where m = "mem t", folded m'_def]
    have al: "aligned i" unfolding aligned_unat k by simp
    have np: "\<not> present (entry (mem t) d i)" using ik mp by (auto simp: mapped_def)
    obtain r t2 zs where r: "mappages d i PGSIZE (V2P x) (PTE_FLAGS (entry (mem s) pd i)) (s1\<lparr>mem := m'\<rparr>) = Ret r t2"
        and c: "(r = 0 \<and> ustep d t (x # ys') t2 zs \<and>
          (\<forall>v. entry (mem t2) d v = (if same_page v i then V2P x OR PTE_FLAGS (entry (mem s) pd i) OR PTE_P else entry (mem t) d v)) \<and>
          (\<forall>b. in_page x b \<longrightarrow> mem t2 b = m' b)) \<or>
        (r = -1 \<and> ustep d (s1\<lparr>mem := m'\<rparr>) ys' t2 [] \<and> (\<forall>v. entry (mem t2) d v = entry (mem t) d v))"
        and kp: "\<forall>v \<in> mapped (mem t) d. kept d (mem t) (mem t2) v"
      using map_user [OF po [unfolded Cons] us [unfolded Cons] s1(2,4,3,5) mv(2) al ik(2) np flags_small [of "entry (mem s) pd i"]]
      unfolding wp_iff by auto
    have run: "copyuvm_page pd d (i, False) t = Ret (if r < 0 then (i, True) else (i + PGSIZE, False)) t2"
      using w pr s1(1,3) x(3) r by (simp add: copyuvm_page_def bnd_def whenk_def m'_def upage_def)
    from c show ?thesis
    proof (elim disjE conjE)
      assume ok: "r = 0" "ustep d t (x # ys') t2 zs"
        "\<forall>v. entry (mem t2) d v = (if same_page v i then V2P x OR PTE_FLAGS (entry (mem s) pd i) OR PTE_P else entry (mem t) d v)"
        "\<forall>b. in_page x b \<longrightarrow> mem t2 b = m' b"
      have ct: "mem t2 (x + (v AND 0xFFF)) = ubyte (mem s) pd v" if "pageno v = k" for v
      proof -
        have "same_page v i" using that ik by (simp add: same_pageno)
        then have uv: "upage (mem s) pd v = upage (mem s) pd i" by (rule same_page_upage)
        have "mem t2 (x + (v AND 0xFFF)) = mem t (upage (mem s) pd i + (v AND 0xFFF))" using ok(4) page_byte [of x v] mv(1) by simp
        also have "\<dots> = mem s (upage (mem s) pd i + (v AND 0xFFF))" using ki page_byte by (simp add: kept_def)
        finally show ?thesis by (simp add: ubyte_def uv)
      qed
      from copied_new_page [OF I k kb mp po cons ok(2) [folded Cons] ok(3) pr x(2) ct kp] show ?thesis
        using run ok(1) unat_page_step(1) [OF k kb] k by (simp add: wp_def)
    next
      assume bad: "r = -1" "ustep d (s1\<lparr>mem := m'\<rparr>) ys' t2 []" "\<forall>v. entry (mem t2) d v = entry (mem t) d v"
      have "copied pd d K s xs (i, True) t2" by (rule copied_stuck [OF I mp k po [unfolded Cons] us [unfolded Cons] cons [unfolded Cons] s1(4,5) mv(2) bad(2,3)])
      then show ?thesis using run bad(1) by (simp add: wp_def)
    qed
  qed
qed


text \<open>The whole loop, from an empty space \<open>d\<close>: all pages are copied, or memory ran out.\<close>

lemma copy_loop:
  assumes us: "uspace (kend s) (mem s) pd xs" and mp: "mapped (mem s) pd = {v. v < KERNBASE \<and> pageno v < npages sz}"
    and pg: "\<And>p. p \<in> set xs \<Longrightarrow> page_ok (kend s) p" and sz: "sz \<le> KERNBASE" and I0: "copied pd d K s xs (0, False) t"
  shows "wp (kwhile (\<lambda>(i, bad) _. \<not> bad \<and> i < sz) (copyuvm_page pd d) (0, False))
    (\<lambda>(i, bad) t'. copied pd d K s xs (i, bad) t' \<and> i \<le> KERNBASE \<and>
      (if bad then card (set xs) \<le> 1025 + npages sz else npages i = npages sz)) t"
proof -
  let ?b = "\<lambda>(i, bad) _. \<not> bad \<and> i < sz"
  let ?I = "\<lambda>(i, bad) t. copied pd d K s xs (i, bad) t \<and> (if bad then npages i < npages sz else npages i \<le> npages sz)"
  have mult: "\<exists>k. unat i = 4096 * k \<and> npages i = k \<and> pageno i = k" if "copied pd d K s xs (i, bad) t" for i bad t
    using that npages_mult pageno_mult by (auto simp: copied_def)
  have "wp (kwhile ?b (copyuvm_page pd d) (0, False)) (\<lambda>x t. ?I x t \<and> \<not> ?b x t) t"
  proof (rule wp_kwhile [where I = ?I and V = "\<lambda>x _. if snd x then 0 else Suc (npages sz - npages (fst x))"])
    show "?I (0, False) t" using I0 by simp
  next
    fix x t' assume I: "?I x t'" and b: "?b x t'"
    obtain i where x: "x = (i, False)" and lt: "i < sz" using b by (cases x) auto
    have g: "copied pd d K s xs (i, False) t'" using I x by simp
    obtain k where k: "unat i = 4096 * k" "npages i = k" "pageno i = k" using mult [OF g] by blast
    have kn: "k < npages sz" using pageno_lt_iff [OF k(1), of sz] lt by simp
    then have im: "i \<in> mapped (mem s) pd" using k(3) lt sz by (auto simp: mp)
    have nx: "npages j = Suc k" if "unat j = unat i + 4096" for j using that k npages_mult [of j "Suc k"] by simp
    show "wp (copyuvm_page pd d x) (\<lambda>y t''. ?I y t'' \<and>
        (if snd y then 0 else Suc (npages sz - npages (fst y))) < (if snd x then 0 else Suc (npages sz - npages (fst x)))) t'"
      unfolding x using kn k(2) nx by (intro wp_mono [OF copied_step [OF us pg im g]]) (auto split: if_splits)
  qed simp
  then show ?thesis
  proof (rule wp_mono)
    fix x t' assume I: "?I x t' \<and> \<not> ?b x t'"
    obtain i bad where x: "x = (i, bad)" by (cases x)
    have g: "copied pd d K s xs (i, bad) t'" using I x by simp
    obtain k where k: "unat i = 4096 * k" "npages i = k" using mult [OF g] by blast
    have "k \<le> 524288" using I x k npages_user [OF sz] by (auto split: if_splits)
    then have "i \<le> KERNBASE" using k by (simp add: word_le_nat_alt KERNBASE_def)
    moreover have "card (set xs) \<le> 1026 + k" if bad using g that k by (auto simp: copied_def)
    ultimately show "(case x of (i, bad) \<Rightarrow> \<lambda>t'. copied pd d K s xs (i, bad) t' \<and> i \<le> KERNBASE \<and>
        (if bad then card (set xs) \<le> 1025 + npages sz else npages i = npages sz)) t'"
      using I g k pageno_lt_iff [OF k(1), of sz] by (auto simp: x split: if_splits)
  qed
qed

lemma parent_uvm:
  assumes u: "uvm e m pd sz xs" and "\<And>p. p \<in> set xs \<Longrightarrow> page_ok e p"
    and "\<And>a. (\<forall>p \<in> set xs. \<not> in_page p a) \<Longrightarrow> m' a = m a" and "set ys \<subseteq> set xs"
  shows "uvm e m' pd sz ys \<and> upages m' pd = upages m pd \<and>
      (\<forall>v. v < KERNBASE \<and> pageno v < npages sz \<longrightarrow> ubyte m' pd v = ubyte m pd v)"
proof -
  have us: "uspace e m pd xs" and mp: "mapped m pd = {v. v < KERNBASE \<and> pageno v < npages sz}"
    using u by (simp_all add: uvm_def)
  note k = parent_kept [OF us assms(2-4)]
  have "ubyte m' pd v = ubyte m pd v" if "v < KERNBASE \<and> pageno v < npages sz" for v
    using k(4) [of v] kept_ubyte that by (simp add: mp)
  then show ?thesis using k(1,3,5) mp by (simp add: uvm_def)
qed


section \<open>A machine with 16 MB of free pages\<close>

definition vm_demo :: vm_state where
  "vm_demo = \<lparr>cpu = cpu kmem_demo, locks = locks kmem_demo, mem = mem kmem_demo, use_lock = True, freelist = 0,
     kend = 0x80110000, kpgdir = 0, kdata = 0x80108000\<rparr>"

lemma vm_demo_boot:
  "\<exists>s xs. freerange 0x80200000 0x81200000 vm_demo = Ret () s \<and> pool s xs \<and> length xs = 4096 \<and>
     kend s = 0x80110000 \<and> kdata s = 0x80108000"
proof -
  have po: "pool vm_demo []" by (simp add: vm_demo_def kmem_demo_def pool_def free_list_def kmem_ready_def cpu_ok_def)
  have r: "PGROUNDUP 0x80200000 = 0x80200000" by (simp add: PGROUNDUP_def PGSIZE_def)
  note p = page_range_pages [of "0x80200000" "0x81200000", unfolded r, simplified]
  have "freerange 0x80200000 0x81200000 vm_demo = Ret () s \<and> pool s (rev (page_range 0x80200000 0x81200000) @ []) \<and>
      kend s = kend vm_demo \<and> mem_only vm_demo s \<Longrightarrow> ?thesis" for s
    using length_page_range [of "0x80200000" "0x81200000"] by (auto simp: vm_demo_def PGSIZE_def mem_only_def)
  moreover have "\<forall>q \<in> set (page_range 0x80200000 0x81200000). page_ok (kend vm_demo) q"
    by (auto simp: p(1) vm_demo_def page_ok_unat)
  ultimately show ?thesis using freerange_pool [OF po, of "0x80200000" "0x81200000", unfolded r] p(2) unfolding wp_unit by auto
qed

lemma vm_demo_kernel:
  "\<exists>(s :: vm_state) xs pd. pool s xs \<and> uvm (kend s) (mem s) pd 0 xs \<and> card (upages (mem s) pd \<union> set xs) = 4096 \<and> kdata_ok (kdata s)"
proof -
  obtain s :: vm_state and xs where s: "pool s xs" "length xs = 4096" "kend s = 0x80110000" "kdata s = 0x80108000"
    using vm_demo_boot by blast
  have kd: "kdata_ok (kdata s)" by (simp add: s kdata_ok_def aligned_unat layout_defs P2V_def)
  have "KERNBASE < kend s" by (simp add: s KERNBASE_def)
  from setupkvm_spec [OF s(1) kd this] s(2) obtain r t ys where
    t: "pool t ys" "kend t = kend s" "mem_only s t" "uvm (kend s) (mem t) r 0 ys" "upages (mem t) r \<union> set ys = set xs"
    unfolding wp_iff by auto
  moreover have "card (set xs) = 4096" using s by (simp add: pool_def free_list_def distinct_card)
  moreover have "kdata_ok (kdata t)" using t(3) kd by (auto simp: mem_only_def)
  ultimately show ?thesis by (intro exI [of _ t] exI [of _ ys] exI [of _ r]) simp
qed

lemma vm_demo_user:
  "\<exists>(s :: vm_state) xs pd. pool s xs \<and> uvm (kend s) (mem s) pd 8192 xs \<and> card (upages (mem s) pd \<union> set xs) = 4096 \<and> kdata_ok (kdata s)"
proof -
  obtain s :: vm_state and xs pd where s: "pool s xs" "uvm (kend s) (mem s) pd 0 xs" "card (upages (mem s) pd \<union> set xs) = 4096"
      "kdata_ok (kdata s)"
    using vm_demo_kernel by blast
  have n: "npages 8192 = 2" by (simp add: npages_def)
  have "(8192 :: uint) < KERNBASE" by (simp add: KERNBASE_def)
  with allocuvm_spec [OF s(1,2), of 8192] s(3) n obtain r t ys where
    t: "ustep pd s xs t ys" "uvm (kend s) (mem t) pd 8192 ys" unfolding wp_iff by auto
  then show ?thesis using s(3,4) ustepD(1,2) [OF t(1)]
    by (intro exI [of _ t] exI [of _ ys] exI [of _ pd]) (auto simp: ustep_def mem_only_def)
qed

theorem allocuvm_grows_witness:
  "\<exists>(s :: vm_state) xs pd t ys. uvm (kend s) (mem s) pd 8192 xs \<and> allocuvm pd 8192 20480 s = Ret 20480 t \<and>
     uvm (kend s) (mem t) pd 20480 ys \<and> ubyte (mem t) pd 0x4FFF = 0 \<and> ubyte (mem t) pd 0x1FFF = ubyte (mem s) pd 0x1FFF"
proof -
  obtain s :: vm_state and xs pd where s: "pool s xs" "uvm (kend s) (mem s) pd 8192 xs" "card (upages (mem s) pd \<union> set xs) = 4096"
    using vm_demo_user by blast
  have n: "npages 8192 = 2" "npages 20480 = 5" "pageno 0x4FFF = 4" "pageno 0x1FFF = 1" by (simp_all add: npages_def pageno_def)
  have k: "(20480 :: uint) < KERNBASE" "(0x4FFF :: uint) < KERNBASE" "(0x1FFF :: uint) < KERNBASE" by (simp_all add: KERNBASE_def)
  from allocuvm_grows [OF s(1,2), of 20480] s(3) n k obtain t ys where
    t: "allocuvm pd 8192 20480 s = Ret 20480 t" "uvm (kend s) (mem t) pd 20480 ys" "ubyte (mem t) pd 0x4FFF = 0"
      "kept pd (mem s) (mem t) 0x1FFF"
    unfolding wp_iff by auto
  then show ?thesis using s(2) kept_ubyte [OF t(4)] by blast
qed

theorem deallocuvm_shrinks_witness:
  "\<exists>(s :: vm_state) xs pd t ys. uvm (kend s) (mem s) pd 8192 xs \<and> deallocuvm pd 8192 4096 s = Ret 4096 t \<and>
     uvm (kend s) (mem t) pd 4096 ys \<and> ubyte (mem t) pd 0xFFF = ubyte (mem s) pd 0xFFF"
proof -
  obtain s :: vm_state and xs pd where s: "pool s xs" "uvm (kend s) (mem s) pd 8192 xs" using vm_demo_user by blast
  have n: "npages 4096 = 1" "pageno 0xFFF = 0" "(0xFFF :: uint) < KERNBASE" "(8192 :: uint) \<le> KERNBASE"
    by (simp_all add: npages_def pageno_def KERNBASE_def)
  from deallocuvm_shrinks [OF s, of 4096] n obtain t ys where
    t: "deallocuvm pd 8192 4096 s = Ret 4096 t" "uvm (kend s) (mem t) pd 4096 ys" "ubyte (mem t) pd 0xFFF = ubyte (mem s) pd 0xFFF"
    unfolding wp_iff by auto
  then show ?thesis using s(2) by blast
qed

theorem freevm_frees_all_witness:
  "\<exists>(s :: vm_state) xs pd t ys. uvm (kend s) (mem s) pd 8192 xs \<and> freevm pd s = Ret () t \<and> pool t ys \<and> length ys = 4096"
proof -
  obtain s :: vm_state and xs pd where s: "pool s xs" "uvm (kend s) (mem s) pd 8192 xs" "card (upages (mem s) pd \<union> set xs) = 4096"
    using vm_demo_user by blast
  have "(8192 :: uint) \<le> KERNBASE" by (simp add: KERNBASE_def)
  from freevm_frees_all [OF s(1,2) this] obtain t ys where
    t: "freevm pd s = Ret () t" "pool t ys" "set ys = set xs \<union> upages (mem s) pd" unfolding wp_unit by blast
  have "length ys = card (set ys)" using t(2) by (simp add: pool_def free_list_def distinct_card)
  then show ?thesis using t s by (metis Un_commute)
qed

theorem setupkvm_protects_kernel_witness:
  "\<exists>s t pd. freerange 0x80200000 0x81200000 vm_demo = Ret () s \<and> setupkvm s = Ret pd t \<and> pd \<noteq> 0 \<and>
     entry (mem t) pd KERNLINK AND PTE_W = 0 \<and> PTE_ADDR (entry (mem t) pd 0x80FFF000) = 0xFFF000"
proof -
  obtain s xs where s: "freerange 0x80200000 0x81200000 vm_demo = Ret () s" "pool s xs" "length xs = 4096"
      "kend s = 0x80110000" "kdata s = 0x80108000" using vm_demo_boot by blast
  have "kdata_ok (kdata s)" "KERNBASE < kend s" by (simp_all add: s kdata_ok_def aligned_unat layout_defs P2V_def)
  from setupkvm_protects_kernel [OF s(2) this] s(3) obtain pd t where
    t: "setupkvm s = Ret pd t" "pd \<in> set xs" "\<forall>v. KERNLINK \<le> v \<and> v < kdata s \<longrightarrow> entry (mem t) pd v AND PTE_W = 0"
      "\<forall>v. KERNBASE \<le> v \<and> v < P2V PHYSTOP \<longrightarrow> PTE_ADDR (entry (mem t) pd v) = V2P (PGROUNDDOWN v)"
    unfolding wp_iff by auto
  have "pd \<noteq> 0" using t(2) s(2) page_ok_nz by (auto simp: pool_def free_list_def)
  moreover have "KERNLINK < kdata s" by (simp add: s layout_defs)
  moreover have "KERNBASE \<le> 0x80FFF000" "0x80FFF000 < P2V PHYSTOP" "V2P (PGROUNDDOWN 0x80FFF000) = 0xFFF000"
    by (simp_all add: layout_defs P2V_def V2P_def PGROUNDDOWN_def PGSIZE_def)
  ultimately show ?thesis using s(1) t(1,3,4) by auto
qed


end
