(* ===== verification/Fileio.thy ===== *)
theory Fileio
  imports Fsio
begin

text \<open>
  What \<open>readi\<close>, \<open>writei\<close> and \<open>dirlookup\<close> of \<open>fs.c\<close> do to a file, seen as a sequence of bytes: \<open>contents\<close> puts together the
  blocks an inode points to, directly and through its indirect block, as the buffer cache shows them.
\<close>

section \<open>The contents of a file\<close>

text \<open>The disk block of block \<open>bn\<close> of the file.\<close>

definition block_of :: "'z icache_state_scheme \<Rightarrow> nat \<Rightarrow> nat \<Rightarrow> uint" where
  "block_of s ip bn = (if bn < NDIRECT then i_addrs (inodes s ip) bn
     else rd32 (bview s (i_addrs (inodes s ip) NDIRECT)) (4 * (bn - NDIRECT)))"

definition contents :: "'z icache_state_scheme \<Rightarrow> nat \<Rightarrow> byte list" where
  "contents s ip = map (\<lambda>k. bview s (block_of s ip (k div BSIZE)) ! (k mod BSIZE)) [0..<unat (i_size (inodes s ip))]"

text \<open>An inode of a file on the disk: no larger than a file may be, with a block on the disk for each part of it.\<close>

definition file_wf :: "'z icache_state_scheme \<Rightarrow> nat \<Rightarrow> bool" where
  "file_wf s ip \<longleftrightarrow> i_dev (inodes s ip) = 1 \<and> i_type (inodes s ip) \<noteq> T_DEV \<and>
     unat (i_size (inodes s ip)) \<le> MAXFILE * BSIZE \<and>
     (\<forall>bn. bn * BSIZE < unat (i_size (inodes s ip)) \<longrightarrow> block_of s ip bn \<noteq> 0 \<and> block_of s ip bn < disksize s \<and>
       (NDIRECT \<le> bn \<longrightarrow> i_addrs (inodes s ip) NDIRECT \<noteq> 0 \<and> i_addrs (inodes s ip) NDIRECT < disksize s))"

lemma length_contents [simp]: "length (contents s ip) = unat (i_size (inodes s ip))"
  by (simp add: contents_def)

section \<open>Reading\<close>

text \<open>No buffer is held and the cache has room; reading keeps that and changes nothing the file system sees.\<close>

definition quiet :: "'z bio_state_scheme \<Rightarrow> bool" where
  "quiet s \<longleftrightarrow> bok s \<and> busyb s = {} \<and> card (dirtyb s) < NBUF"

definition read_step :: "'z icache_state_scheme \<Rightarrow> 'z icache_state_scheme \<Rightarrow> bool" where
  "read_step s t \<longleftrightarrow> bio_step s t \<and> quiet t \<and> bview t = bview s \<and> memdisk t = memdisk s \<and> dirtyb t = dirtyb s"

lemma read_step_refl: "quiet s \<Longrightarrow> read_step s s"
  by (simp add: read_step_def)

lemma read_step_trans: "read_step s t \<Longrightarrow> read_step t u \<Longrightarrow> read_step s u"
  unfolding read_step_def using bio_step_trans by auto

lemma read_step_same:
  assumes "read_step s t"
  shows "inodes t = inodes s" and "block_of t ip bn = block_of s ip bn" and "contents t ip = contents s ip"
    and "file_wf t ip = file_wf s ip" and "quiet t" and "fs_sb t = fs_sb s" and "disksize t = disksize s"
proof -
  have b: "bio_step s t" and v: "bview t = bview s" using assms by (simp_all add: read_step_def)
  show i: "inodes t = inodes s" and "fs_sb t = fs_sb s" by (rule bio_step_inode [OF b])+
  show bo: "block_of t ip bn = block_of s ip bn" for bn by (simp add: block_of_def i v)
  show "contents t ip = contents s ip" unfolding contents_def bo by (simp add: i v)
  show d: "disksize t = disksize s" using bio_step_simps [OF b] by simp
  show "file_wf t ip = file_wf s ip" unfolding file_wf_def bo by (simp add: i d)
  show "quiet t" using assms by (simp add: read_step_def)
qed

lemma quiet_read:
  fixes s :: "'z icache_state_scheme"
  assumes "quiet s" and "bn < disksize s"
  obtains b s1 t where "bread 1 bn s = Ret b s1" and "bio_step s s1" and "bcontents s1 b = bview s bn"
    and "brelse b s1 = Ret () t" and "read_step s t"
proof -
  have q: "bok s" "busyb s = {}" "card (dirtyb s) < NBUF" using assms(1) by (simp_all add: quiet_def)
  obtain b s1 t where p: "bread 1 bn s = Ret b s1" "bcontents s1 b = bview s bn" "brelse b s1 = Ret () t" "bio_step s s1"
      and t: "bio_step s t" "bok t" "busyb t = {}" "dirtyb t = dirtyb s" "memdisk t = memdisk s" "bview t = bview s"
    using bc.read_block [OF q(1,2) assms(2)] q(3) by metis
  have "read_step s t" using t q(3) by (simp add: read_step_def quiet_def)
  then show ?thesis using that p by blast
qed

lemma bmap_mapped:
  assumes q: "quiet s" and f: "file_wf s ip" and bn: "unat bn * BSIZE < unat (i_size (inodes s ip))"
  shows "wp (bmap ip bn) (\<lambda>r t. r = block_of s ip (unat bn) \<and> read_step s t) s"
proof -
  have b: "block_of s ip (unat bn) \<noteq> 0" "unat (i_size (inodes s ip)) \<le> MAXFILE * BSIZE" and dev: "i_dev (inodes s ip) = 1"
    and ind: "NDIRECT \<le> unat bn \<Longrightarrow> i_addrs (inodes s ip) NDIRECT \<noteq> 0 \<and> i_addrs (inodes s ip) NDIRECT < disksize s"
    using f bn by (auto simp: file_wf_def)
  show ?thesis
  proof (cases "unat bn < NDIRECT")
    case True
    then show ?thesis using b(1) read_step_refl [OF q]
      by (simp add: bmap_def bmap_slot_def bnd_def block_of_def wp_def)
  next
    case False
    let ?ia = "i_addrs (inodes s ip) NDIRECT" and ?k = "unat bn - NDIRECT"
    have "unat bn < MAXFILE"
    proof -
      have "unat bn * BSIZE < MAXFILE * BSIZE" using bn b(2) by linarith
      then show ?thesis by simp
    qed
    then have k: "?k < NINDIRECT" using False by (simp add: MAXFILE_def)
    from False have ia: "?ia \<noteq> 0" "?ia < disksize s" using ind by simp_all
    obtain bp s1 t where p: "bread 1 ?ia s = Ret bp s1" "bio_step s s1" "bcontents s1 bp = bview s ?ia"
        "brelse bp s1 = Ret () t" "read_step s t"
      by (rule quiet_read [OF q ia(2)])
    have "rd32 (bview s ?ia) (4 * ?k) = block_of s ip (unat bn)" using False by (simp add: block_of_def)
    then have "bmap ip bn s = Ret (block_of s ip (unat bn)) t"
      using False k ia(1) p(1,3,4) b(1) dev by (simp add: bmap_def bmap_slot_def bnd_def Let_def)
    then show ?thesis using p(5) by (simp add: wp_def)
  qed
qed

text \<open>A part of the file inside one block.\<close>

lemma same_block:
  assumes "off mod b + i < (b :: nat)"
  shows "(off + i) div b = off div b" and "(off + i) mod b = off mod b + i"
proof -
  have e: "off + i = b * (off div b) + (off mod b + i)" by simp
  have "0 < b" using assms by simp
  then show "(off + i) div b = off div b" unfolding e by (subst div_mult_self4) (use assms in simp_all)
  show "(off + i) mod b = off mod b + i" unfolding e by (subst mod_mult_self4) (use assms in simp)
qed

lemma contents_part:
  assumes "quiet s" and "off + m \<le> unat (i_size (inodes s ip))" and "off mod BSIZE + m \<le> BSIZE"
  shows "take m (drop off (contents s ip)) = take m (drop (off mod BSIZE) (bview s (block_of s ip (off div BSIZE))))"
proof (rule nth_equalityI)
  have len: "length (bview s bn) = BSIZE" for bn using bc.view_length [of s] assms(1) by (simp add: quiet_def)
  show "length (take m (drop off (contents s ip))) = length (take m (drop (off mod BSIZE) (bview s (block_of s ip (off div BSIZE)))))"
    using assms(2,3) by (simp add: len)
  fix i assume "i < length (take m (drop off (contents s ip)))"
  then have i: "i < m" by simp
  have "off mod BSIZE + i < BSIZE" using i assms(3) by simp
  then have "(off + i) div BSIZE = off div BSIZE" "(off + i) mod BSIZE = off mod BSIZE + i" by (rule same_block)+
  then show "take m (drop off (contents s ip)) ! i = take m (drop (off mod BSIZE) (bview s (block_of s ip (off div BSIZE)))) ! i"
    using i assms(2,3) by (simp add: contents_def len)
qed

lemma unat_div_BSIZE: "unat ((off :: uint) div of_nat BSIZE) = unat off div BSIZE" "unat (off mod of_nat BSIZE) = unat off mod BSIZE"
  by (simp_all add: BSIZE_def unat_div_distrib unat_mod_distrib)

text \<open>How many bytes the next block gives.\<close>

lemma io_chunk:
  assumes "tot < (n :: uint)" and m_def: "m = min (n - tot) (of_nat BSIZE - off mod of_nat BSIZE)"
  shows "unat m = min (unat n - unat tot) (BSIZE - unat off mod BSIZE)" and "0 < unat m" and "unat (tot + m) = unat tot + unat m"
    and "unat tot + unat m \<le> unat n"
proof -
  have "unat (n - tot) = unat n - unat tot" using assms(1) by (simp add: unat_sub)
  moreover have "unat (of_nat BSIZE - off mod of_nat BSIZE) = BSIZE - unat off mod BSIZE"
  proof -
    have "unat (off mod of_nat BSIZE) < BSIZE" unfolding unat_div_BSIZE by (simp add: BSIZE_def)
    then have "off mod of_nat BSIZE \<le> (of_nat BSIZE :: uint)" by (simp add: word_le_nat_alt BSIZE_def)
    then show ?thesis unfolding unat_div_BSIZE(2) [symmetric] by (simp add: unat_sub BSIZE_def)
  qed
  ultimately show m: "unat m = min (unat n - unat tot) (BSIZE - unat off mod BSIZE)" by (simp add: m_def min_def word_le_nat_alt)
  have tn: "unat tot < unat n" using assms(1) by (simp add: word_less_nat_alt)
  then show "0 < unat m" unfolding m by (simp add: BSIZE_def)
  show le: "unat tot + unat m \<le> unat n" using m tn by simp
  then have "unat tot + unat m < 2 ^ 32" using unat_lt32 [of n] by simp
  then show "unat (tot + m) = unat tot + unat m" by (simp add: unat_word_ariths)
qed

lemma readi_step_reads:
  assumes q: "quiet s" and f: "file_wf s ip" and lt: "tot < n" and ne: "unat off + (unat n - unat tot) \<le> unat (i_size (inodes s ip))"
  shows "wp (readi_step ip n (tot, off, acc)) (\<lambda>(tot', off', acc') t. \<exists>m. 0 < m \<and> read_step s t \<and>
    unat tot' = unat tot + m \<and> unat tot' \<le> unat n \<and> unat off' = unat off + m \<and> acc' = acc @ take m (drop (unat off) (contents s ip))) s"
proof -
  define m where "m = min (n - tot) (of_nat BSIZE - off mod of_nat BSIZE)"
  note c = io_chunk [OF lt m_def]
  have tn: "unat tot < unat n" using lt by (simp add: word_less_nat_alt)
  have bn: "unat (off div of_nat BSIZE) * BSIZE < unat (i_size (inodes s ip))"
    unfolding unat_div_BSIZE using ne tn div_times_less_eq_dividend [of "unat off" BSIZE] by linarith
  let ?a = "block_of s ip (unat off div BSIZE)"
  obtain s1 where p1: "bmap ip (off div of_nat BSIZE) s = Ret ?a s1" and s1: "read_step s s1"
    using bmap_mapped [OF q f bn] unfolding wp_iff unat_div_BSIZE by blast
  note same = read_step_same [OF s1]
  have "?a < disksize s1" "i_dev (inodes s1 ip) = 1"
    using f bn unfolding file_wf_def same unat_div_BSIZE by blast+
  then obtain b s2 t where p2: "bread 1 ?a s1 = Ret b s2" "bcontents s2 b = bview s1 ?a" "brelse b s2 = Ret () t" and t: "read_step s1 t"
    using quiet_read [OF same(5)] by metis
  have mb: "unat off mod BSIZE + unat m \<le> BSIZE"
  proof -
    have "unat off mod BSIZE < BSIZE" by (simp add: BSIZE_def)
    then show ?thesis using c(1) by linarith
  qed
  have om: "unat off + unat m \<le> unat (i_size (inodes s ip))" using ne c(1) by linarith
  then have "unat off + unat m < 2 ^ 32" using unat_lt32 [of "i_size (inodes s ip)"] by linarith
  then have uo: "unat (off + m) = unat off + unat m" by (simp add: unat_word_ariths)
  have "readi_step ip n (tot, off, acc) s = Ret (tot + m, off + m, acc @ take (unat m) (drop (unat off mod BSIZE) (bview s1 ?a))) t"
    using p1 p2 \<open>i_dev (inodes s1 ip) = 1\<close> by (simp add: readi_step_def bnd_def Let_def m_def [symmetric] unat_div_BSIZE)
  moreover have "bview s1 = bview s" using s1 by (simp add: read_step_def)
  ultimately show ?thesis
    using contents_part [OF q om mb] c(2-4) uo read_step_trans [OF s1 t] by (auto simp: wp_def)
qed

text \<open>\<open>readi\<close> for a regular file or a directory.\<close>

lemma readi_spec:
  assumes q: "quiet s" and f: "file_wf s ip"
  shows "wp (readi ip off n) (\<lambda>(r, bs) t. read_step s t \<and>
    (if off > i_size (inodes s ip) \<or> off + n < off then r = -1 \<and> bs = []
     else bs = take (unat n) (drop (unat off) (contents s ip)) \<and> r = int (length bs))) s"
proof (cases "off > i_size (inodes s ip) \<or> off + n < off")
  case True
  then show ?thesis using f read_step_refl [OF q] by (simp add: readi_def file_wf_def wp_def Let_def)
next
  case False
  let ?sz = "i_size (inodes s ip)"
  define n' where "n' = (if off + n > ?sz then ?sz - off else n)"
  have sz: "unat ?sz \<le> MAXFILE * BSIZE" and ty: "i_type (inodes s ip) \<noteq> T_DEV" using f by (simp_all add: file_wf_def)
  have lo: "unat off \<le> unat ?sz" using False by (simp add: word_le_nat_alt not_less)
  have add: "unat (off + n) = unat off + unat n"
    using False unat_plus_if_size [of off n] unat_lt32 [of n] by (auto simp: word_less_nat_alt word_size not_less split: if_splits)
  have n': "unat n' = min (unat n) (unat ?sz - unat off)"
    using lo add by (auto simp: n'_def word_less_nat_alt word_le_nat_alt unat_sub min_def)
  let ?I = "\<lambda>(tot :: uint, off' :: uint, acc) t. read_step s t \<and> unat tot \<le> unat n' \<and> unat off' = unat off + unat tot \<and>
      acc = take (unat tot) (drop (unat off) (contents s ip))"
  have "wp (kwhile (\<lambda>(tot, _, _) _. tot < n') (readi_step ip n') (0, off, [])) (\<lambda>x t. ?I x t \<and> \<not> fst x < n') s"
  proof (rule wp_kwhile [where I = ?I and V = "\<lambda>x _. unat n' - unat (fst x)"])
    show "?I (0, off, []) s" using read_step_refl [OF q] by simp
  next
    fix x t assume I: "?I x t" and b: "(case x of (tot, _, _) \<Rightarrow> \<lambda>_. tot < n') t"
    obtain tot o' acc where x: "x = (tot, o', acc)" by (cases x)
    have rs: "read_step s t" and o: "unat o' = unat off + unat tot" and tn: "unat tot < unat n'" "tot < n'"
      and acc: "acc = take (unat tot) (drop (unat off) (contents s ip))" using I b by (auto simp: x word_less_nat_alt)
    note same = read_step_same [OF rs]
    have ft: "file_wf t ip" using f same(4) by simp
    have le: "unat o' + (unat n' - unat tot) \<le> unat (i_size (inodes t ip))" unfolding same using o tn n' lo by linarith
    have acc': "acc @ take m (drop (unat o') (contents t ip)) = take (unat tot + m) (drop (unat off) (contents s ip))" for m
      unfolding same acc o take_add drop_drop by (simp add: add.commute)
    show "wp (readi_step ip n' x) (\<lambda>y u. ?I y u \<and> unat n' - unat (fst y) < unat n' - unat (fst x)) t"
      unfolding x by (rule wp_mono [OF readi_step_reads [OF same(5) ft tn(2) le, of acc]])
        (use o tn read_step_trans [OF rs] in \<open>auto simp: acc' [unfolded o]\<close>)
  qed auto
  then obtain tot o' acc t where loop: "kwhile (\<lambda>(tot, _, _) _. tot < n') (readi_step ip n') (0, off, []) s = Ret (tot, o', acc) t"
      and t: "read_step s t" "unat tot = unat n'" "acc = take (unat n') (drop (unat off) (contents s ip))"
    unfolding wp_iff by (auto simp: word_less_nat_alt)
  have "acc = take (unat n) (drop (unat off) (contents s ip))" unfolding t(3) n' by (simp add: min_def)
  moreover have "sint n' = int (length acc)"
  proof -
    have "unat n' \<le> unat ?sz" using n' by simp
    then have "unat n' < 2 ^ 31" using sz by (simp add: MAXFILE_def NDIRECT_def NINDIRECT_def BSIZE_def)
    then have "sint n' = int (unat n')" by (rule sint_nat_small)
    then show ?thesis using t(3) n' lo by simp
  qed
  moreover have "readi ip off n s = Ret (sint n', acc) t"
    using False ty loop by (simp add: readi_def Let_def n'_def [symmetric] bnd_def)
  ultimately show ?thesis using False t(1) by (simp add: wp_def)
qed

section \<open>Writing\<close>

lemma tx_pinned: "tx_ready s \<Longrightarrow> log_n s = int (card (dirtyb s))"
  using card_image [of "log_block s" "{..<nat (log_n s)}"] by (auto simp: tx_ready_def tx_ok_def log_wf_def)

lemma tx_quiet: "tx_ready s \<Longrightarrow> quiet s"
  using tx_pins [of s] by (auto simp: tx_ready_def tx_ok_def quiet_def NBUF_def)

lemma tx_ready_read:
  assumes "tx_ready s" and "read_step s t"
  shows "tx_ready t"
proof -
  have t: "bio_step s t" "quiet t" "dirtyb t = dirtyb s" using assms(2) by (simp_all add: read_step_def)
  note l = bio_step_log [OF t(1)] bio_step_simps [OF t(1)]
  show ?thesis using assms(1) t by (simp add: tx_ready_def tx_ok_def quiet_def l)
qed

text \<open>The blocks of a file are its own: outside the log, each for one part of the file, none of them the indirect block.\<close>

definition blocks_own :: "'z icache_state_scheme \<Rightarrow> nat \<Rightarrow> bool" where
  "blocks_own s ip \<longleftrightarrow> (\<forall>bn. bn * BSIZE < unat (i_size (inodes s ip)) \<longrightarrow>
     \<not> in_log (log_start s) (block_of s ip bn) \<and> block_of s ip bn \<noteq> i_addrs (inodes s ip) NDIRECT \<and>
     (\<forall>bm. bm * BSIZE < unat (i_size (inodes s ip)) \<longrightarrow> block_of s ip bm = block_of s ip bn \<longrightarrow> bm = bn))"

lemma blocks_ownD:
  assumes "blocks_own s ip" and "bn * BSIZE < unat (i_size (inodes s ip))"
  shows "\<not> in_log (log_start s) (block_of s ip bn)" and "block_of s ip bn \<noteq> i_addrs (inodes s ip) NDIRECT"
    and "bm * BSIZE < unat (i_size (inodes s ip)) \<Longrightarrow> block_of s ip bm = block_of s ip bn \<Longrightarrow> bm = bn"
  using assms by (simp_all add: blocks_own_def)

text \<open>A write inside one block of the file.\<close>

lemma contents_write:
  assumes q: "quiet s" and own: "blocks_own s ip" and i: "inodes t = inodes s"
    and le: "off + length new \<le> unat (i_size (inodes s ip))" and blk: "off mod BSIZE + length new \<le> BSIZE" and ne: "new \<noteq> []"
    and v: "bview t = (bview s)(block_of s ip (off div BSIZE) := splice (bview s (block_of s ip (off div BSIZE))) (off mod BSIZE) new)"
  shows "block_of t ip bn = block_of s ip bn" and "contents t ip = splice (contents s ip) off new"
proof -
  let ?sz = "unat (i_size (inodes s ip))" and ?a = "block_of s ip (off div BSIZE)"
  have len: "length (bview s b) = BSIZE" for b using bc.view_length [of s] q by (simp add: quiet_def)
  have "0 < length new" using ne by simp
  then have ob: "off div BSIZE * BSIZE < ?sz" using le div_times_less_eq_dividend [of off BSIZE] by linarith
  then have "?a \<noteq> i_addrs (inodes s ip) NDIRECT" by (rule blocks_ownD(2) [OF own])
  then show bo: "block_of t ip bn = block_of s ip bn" for bn by (simp add: block_of_def i v)
  show "contents t ip = splice (contents s ip) off new"
  proof (rule nth_equalityI)
    show "length (contents t ip) = length (splice (contents s ip) off new)" using le by (simp add: i)
    fix k assume "k < length (contents t ip)"
    then have k: "k < ?sz" by (simp add: i)
    then have kb: "k div BSIZE * BSIZE < ?sz" using div_times_less_eq_dividend [of k BSIZE] by linarith
    have same: "block_of s ip (k div BSIZE) = ?a \<longleftrightarrow> k div BSIZE = off div BSIZE" using blocks_ownD(3) [OF own ob kb] by auto
    have kB: "k mod BSIZE < BSIZE" by (simp add: BSIZE_def)
    have eq: "k div BSIZE = off div BSIZE \<Longrightarrow> k mod BSIZE + off = off mod BSIZE + k"
      by (metis add.commute add.left_commute mult_div_mod_eq)
    have in_blk: "k div BSIZE = off div BSIZE" if "off \<le> k" "k < off + length new"
      using same_block(1) [of off BSIZE "k - off"] that blk by simp
    have "contents t ip ! k = (bview t (block_of s ip (k div BSIZE))) ! (k mod BSIZE)" using k by (simp add: contents_def i bo)
    also have "\<dots> = (if k < off then contents s ip ! k else if k < off + length new then new ! (k - off) else contents s ip ! k)"
    proof (cases "k div BSIZE = off div BSIZE")
      case True
      have c: "contents s ip ! k = bview s ?a ! (k mod BSIZE)" using k True by (simp add: contents_def)
      have "bview t (block_of s ip (k div BSIZE)) ! (k mod BSIZE) = splice (bview s ?a) (off mod BSIZE) new ! (k mod BSIZE)"
        using True by (simp add: v)
      also have "\<dots> = (if k mod BSIZE < off mod BSIZE then bview s ?a ! (k mod BSIZE)
          else if k mod BSIZE < off mod BSIZE + length new then new ! (k mod BSIZE - off mod BSIZE) else bview s ?a ! (k mod BSIZE))"
        by (rule nth_splice) (use blk kB in \<open>simp_all add: len\<close>)
      also have "k mod BSIZE < off mod BSIZE \<longleftrightarrow> k < off" using eq [OF True] by linarith
      also have "k mod BSIZE < off mod BSIZE + length new \<longleftrightarrow> k < off + length new" using eq [OF True] by linarith
      also have "k mod BSIZE - off mod BSIZE = k - off" using eq [OF True] by linarith
      finally show ?thesis by (simp add: c)
    next
      case False
      then have "contents s ip ! k = bview t (block_of s ip (k div BSIZE)) ! (k mod BSIZE)" using k same by (simp add: contents_def v)
      moreover have "\<not> (off \<le> k \<and> k < off + length new)" using in_blk False by blast
      ultimately show ?thesis by auto
    qed
    also have "\<dots> = splice (contents s ip) off new ! k" using le k by (simp add: nth_splice)
    finally show "contents t ip ! k = splice (contents s ip) off new ! k" .
  qed
qed

lemma splice_splice: "off \<le> length c \<Longrightarrow> splice (splice c off a) (off + length a) b = splice c off (a @ b)"
  by (simp add: splice_def ac_simps)

lemma writei_step_writes:
  assumes rd: "tx_ready s" and lg: "log_n s < 29" and f: "file_wf s ip" and own: "blocks_own s ip" and lt: "tot < n"
    and ne: "unat off + (unat n - unat tot) \<le> unat (i_size (inodes s ip))" and src: "unat n \<le> length src"
  shows "wp (writei_step ip src n (tot, off)) (\<lambda>(tot', off') t. \<exists>m. 0 < m \<and> unat tot' = unat tot + m \<and> unat tot' \<le> unat n \<and>
    unat off' = unat off + m \<and> unat off mod BSIZE + m \<le> BSIZE \<and> tx_step s t \<and> tx_ready t \<and> memdisk t = memdisk s \<and>
    dirtyb t = insert (block_of s ip (unat off div BSIZE)) (dirtyb s) \<and>
    bview t = (bview s)(block_of s ip (unat off div BSIZE) :=
      splice (bview s (block_of s ip (unat off div BSIZE))) (unat off mod BSIZE) (take m (drop (unat tot) src)))) s"
proof -
  define m where "m = min (n - tot) (of_nat BSIZE - off mod of_nat BSIZE)"
  note c = io_chunk [OF lt m_def]
  have q: "quiet s" by (rule tx_quiet [OF rd])
  have tn: "unat tot < unat n" using lt by (simp add: word_less_nat_alt)
  have bn: "unat off div BSIZE * BSIZE < unat (i_size (inodes s ip))"
    using ne tn div_times_less_eq_dividend [of "unat off" BSIZE] by linarith
  let ?a = "block_of s ip (unat off div BSIZE)" and ?new = "take (unat m) (drop (unat tot) src)"
  obtain s1 where p1: "bmap ip (off div of_nat BSIZE) s = Ret ?a s1" and s1: "read_step s s1"
    using bmap_mapped [OF q f, of "off div of_nat BSIZE"] bn unfolding wp_iff unat_div_BSIZE by blast
  note same = read_step_same [OF s1]
  have b1: "bio_step s s1" and v1: "bview s1 = bview s" "memdisk s1 = memdisk s" "dirtyb s1 = dirtyb s"
    using s1 by (simp_all add: read_step_def)
  note l = bio_step_log [OF b1]
  have dev: "i_dev (inodes s1 ip) = 1" and a: "?a < disksize s1" "\<not> in_log (log_start s1) ?a"
    using f bn blocks_ownD(1) [OF own bn] by (simp_all add: file_wf_def same l)
  have mb: "unat off mod BSIZE + unat m \<le> BSIZE"
  proof -
    have "unat off mod BSIZE < BSIZE" by (simp add: BSIZE_def)
    then show ?thesis using c(1) by linarith
  qed
  have nl: "length ?new = unat m" using src c(4) by simp
  have "length (bview s ?a) = BSIZE" using bc.view_length [of s] q by (simp add: quiet_def)
  then have d: "length (splice (bview s ?a) (unat off mod BSIZE) ?new) = BSIZE" using mb nl by simp
  have lg1: "log_n s1 < 29" using lg by (simp add: l)
  obtain b s2 s3 s4 t where p2: "bread 1 ?a s1 = Ret b s2" "bcontents s2 b = bview s1 ?a"
      "bput b (splice (bview s ?a) (unat off mod BSIZE) ?new) s2 = Ret () s3" "log_write b s3 = Ret () s4" "brelse b s4 = Ret () t"
      and t: "tx_step s1 t" "tx_ready t" "bview t = (bview s1)(?a := splice (bview s ?a) (unat off mod BSIZE) ?new)"
      "memdisk t = memdisk s1" "dirtyb t = insert ?a (dirtyb s1)"
    by (rule tx_update [OF tx_ready_read [OF rd s1] lg1 a d]) (rule that; assumption)
  have "writei_step ip src n (tot, off) s = Ret (tot + m, off + m) t"
    using p1 p2 dev by (simp add: writei_step_def bnd_def Let_def m_def [symmetric] unat_div_BSIZE v1)
  moreover have "unat off + unat m < 2 ^ 32" using ne c(1) unat_lt32 [of "i_size (inodes s ip)"] by linarith
  then have "unat (off + m) = unat off + unat m" by (simp add: unat_word_ariths)
  moreover have "tx_step s t" by (rule tx_step_trans [OF tx_step_bio [OF b1] t(1)])
  ultimately show ?thesis using c(2-4) mb t v1 by (auto simp: wp_def intro!: exI [of _ "unat m"])
qed

text \<open>The blocks a write touches.\<close>

definition touched :: "'z icache_state_scheme \<Rightarrow> nat \<Rightarrow> nat \<Rightarrow> nat \<Rightarrow> uint set" where
  "touched s ip off n = block_of s ip ` {bn. off div BSIZE \<le> bn \<and> bn * BSIZE < off + n}"

lemma touched_finite: "finite (touched s ip off n)"
proof -
  have "{bn. off div BSIZE \<le> bn \<and> bn * BSIZE < off + n} \<subseteq> {..<off + n}" by (auto simp: BSIZE_def)
  then show ?thesis unfolding touched_def using finite_subset by blast
qed

lemma writei_spec:
  assumes rd: "tx_ready s" and lg: "card (dirtyb s \<union> touched s ip (unat off) (unat n)) < 29" and f: "file_wf s ip"
    and own: "blocks_own s ip" and le: "unat off + unat n \<le> unat (i_size (inodes s ip))" and src: "length src = unat n"
  shows "wp (writei ip src off n) (\<lambda>r t. r = int (unat n) \<and> tx_step s t \<and> tx_ready t \<and> memdisk t = memdisk s \<and>
    contents t ip = splice (contents s ip) (unat off) src \<and> file_wf t ip \<and> blocks_own t ip \<and>
    (\<forall>b. b \<notin> touched s ip (unat off) (unat n) \<longrightarrow> bview t b = bview s b)) s"
proof -
  let ?sz = "unat (i_size (inodes s ip))" and ?T = "touched s ip (unat off) (unat n)"
  have sz: "?sz \<le> MAXFILE * BSIZE" and ty: "i_type (inodes s ip) \<noteq> T_DEV" using f by (simp_all add: file_wf_def)
  let ?I = "\<lambda>(tot :: uint, off' :: uint) t. tx_step s t \<and> tx_ready t \<and> memdisk t = memdisk s \<and> unat tot \<le> unat n \<and>
    unat off' = unat off + unat tot \<and> (\<forall>bn. block_of t ip bn = block_of s ip bn) \<and>
    contents t ip = splice (contents s ip) (unat off) (take (unat tot) src) \<and> dirtyb t \<subseteq> dirtyb s \<union> ?T \<and>
    (\<forall>b. b \<notin> ?T \<longrightarrow> bview t b = bview s b)"
  have wf: "file_wf t ip \<and> blocks_own t ip" if "tx_step s t" "\<forall>bn. block_of t ip bn = block_of s ip bn" for t
    using f own that tx_step_inode [OF that(1)] tx_step_simps [OF that(1)] by (simp add: file_wf_def blocks_own_def)
  have "wp (kwhile (\<lambda>(tot, _) _. tot < n) (writei_step ip src n) (0, off)) (\<lambda>x t. ?I x t \<and> \<not> fst x < n) s"
  proof (rule wp_kwhile [where I = ?I and V = "\<lambda>x _. unat n - unat (fst x)"])
    show "?I (0, off) s" using rd by (simp add: splice_def)
  next
    fix x t assume I: "?I x t" and b: "(case x of (tot, _) \<Rightarrow> \<lambda>_. tot < n) t"
    obtain tot o' where x: "x = (tot, o')" by (cases x)
    have st: "tx_step s t" "tx_ready t" "memdisk t = memdisk s" and o: "unat o' = unat off + unat tot"
      and bo: "\<forall>bn. block_of t ip bn = block_of s ip bn" and ct: "contents t ip = splice (contents s ip) (unat off) (take (unat tot) src)"
      and di: "dirtyb t \<subseteq> dirtyb s \<union> ?T" and vw: "\<forall>b. b \<notin> ?T \<longrightarrow> bview t b = bview s b" and lt: "tot < n" "unat tot < unat n"
      using I b by (simp_all add: x word_less_nat_alt)
    note fi = tx_step_inode [OF st(1)]
    have "finite (dirtyb s \<union> ?T)" using bc.pinned_finite [of s] touched_finite by simp
    then have "card (dirtyb t) < 29" using card_mono [OF _ di] lg by linarith
    then have lgt: "log_n t < 29" using tx_pinned [OF st(2)] by simp
    have wft: "file_wf t ip" "blocks_own t ip" using wf [OF st(1) bo] by simp_all
    have let': "unat o' + (unat n - unat tot) \<le> unat (i_size (inodes t ip))" using le lt o fi by simp
    have a: "block_of t ip (unat o' div BSIZE) \<in> ?T"
    proof -
      have "unat o' div BSIZE * BSIZE < unat off + unat n" using o lt div_times_less_eq_dividend [of "unat o'" BSIZE] by linarith
      moreover have "unat off div BSIZE \<le> unat o' div BSIZE" by (rule div_le_mono) (simp add: o)
      ultimately show ?thesis using bo by (auto simp: touched_def)
    qed
    let ?P = "\<lambda>tot' o2 u m. 0 < m \<and> unat tot' = unat tot + m \<and> unat tot' \<le> unat n \<and> unat o2 = unat o' + m \<and>
      unat o' mod BSIZE + m \<le> BSIZE \<and> tx_step t u \<and> tx_ready u \<and> memdisk u = memdisk t \<and>
      dirtyb u = insert (block_of t ip (unat o' div BSIZE)) (dirtyb t) \<and> bview u = (bview t)(block_of t ip (unat o' div BSIZE) :=
        splice (bview t (block_of t ip (unat o' div BSIZE))) (unat o' mod BSIZE) (take m (drop (unat tot) src)))"
    have step: "?I (tot', o2) u \<and> unat n - unat tot' < unat n - unat tot" if P: "?P tot' o2 u m" for tot' o2 :: uint and u m
    proof -
      have m: "0 < m" "unat tot' = unat tot + m" "unat tot' \<le> unat n" "unat o2 = unat o' + m" "unat o' mod BSIZE + m \<le> BSIZE"
        "tx_step t u" "tx_ready u" "memdisk u = memdisk t" "dirtyb u = insert (block_of t ip (unat o' div BSIZE)) (dirtyb t)"
        using P by blast+
      have v: "bview u = (bview t)(block_of t ip (unat o' div BSIZE) :=
          splice (bview t (block_of t ip (unat o' div BSIZE))) (unat o' mod BSIZE) (take m (drop (unat tot) src)))" using P by blast
      have nl: "length (take m (drop (unat tot) src)) = m" using m(2,3) src by simp
      have h: "unat o' + length (take m (drop (unat tot) src)) \<le> unat (i_size (inodes t ip))"
          "unat o' mod BSIZE + length (take m (drop (unat tot) src)) \<le> BSIZE" "take m (drop (unat tot) src) \<noteq> []"
        using m(1-3,5) nl o le fi by auto
      note w = contents_write [OF tx_quiet [OF st(2)] wft(2) tx_step_inode(2) [OF m(6)] h v]
      have t2: "take (unat tot') src = take (unat tot) src @ take m (drop (unat tot) src)" by (simp add: m(2) take_add)
      have o'l: "unat o' = unat off + length (take (unat tot) src)" using o src lt by simp
      have "contents u ip = splice (contents s ip) (unat off) (take (unat tot') src)"
        unfolding w(2) ct t2 unfolding o'l by (rule splice_splice) (use le in simp)
      then show ?thesis using m o st bo di a vw v w(1) lt tx_step_trans [OF st(1) m(6)] by auto
    qed
    have "unat n \<le> length src" using src by simp
    from writei_step_writes [OF st(2) lgt wft lt(1) let' this] obtain y u where
      run: "writei_step ip src n (tot, o') t = Ret y u" and P: "(case y of (tot', o2) \<Rightarrow> \<lambda>u. \<exists>m. ?P tot' o2 u m) u"
      unfolding wp_iff by (elim exE conjE) (rule that)
    obtain tot' o2 where y: "y = (tot', o2)" by (cases y)
    obtain m where "?P tot' o2 u m" using P unfolding y prod.case by (elim exE) (rule that)
    from step [OF this] run show "wp (writei_step ip src n x) (\<lambda>y u. ?I y u \<and> unat n - unat (fst y) < unat n - unat (fst x)) t"
      by (simp add: x y wp_def)
  qed auto
  then obtain tot o' t where loop: "kwhile (\<lambda>(tot, _) _. tot < n) (writei_step ip src n) (0, off) s = Ret (tot, o') t"
      and I: "?I (tot, o') t" and ge: "\<not> tot < n"
    unfolding wp_iff by auto
  have tot: "unat tot = unat n" using I ge by (simp add: word_less_nat_alt)
  have st: "tx_step s t" "\<forall>bn. block_of t ip bn = block_of s ip bn" using I by simp_all
  note fi = tx_step_inode [OF st(1)]
  have "unat n < 2 ^ 31" using le sz by (simp add: MAXFILE_def NDIRECT_def NINDIRECT_def BSIZE_def)
  then have sn: "sint n = int (unat n)" by (rule sint_nat_small)
  have "\<not> o' > i_size (inodes t ip)" using I tot le fi by (simp add: word_less_nat_alt)
  moreover have "unat (off + n) = unat off + unat n"
  proof -
    have "unat off + unat n < 2 ^ 32" using le unat_lt32 [of "i_size (inodes s ip)"] by linarith
    then show ?thesis by (simp add: unat_word_ariths)
  qed
  then have "\<not> off > i_size (inodes s ip)" "\<not> off + n < off" "\<not> off + n > of_nat (MAXFILE * BSIZE)"
    using le sz by (simp_all add: word_less_nat_alt MAXFILE_def NDIRECT_def NINDIRECT_def BSIZE_def)
  ultimately have "writei ip src off n s = Ret (sint n) t"
    using ty loop by (simp add: writei_def Let_def bnd_def whenk_def)
  then show ?thesis using I tot wf [OF st] sn src by (simp add: wp_def)
qed

section \<open>The inode cache\<close>

text \<open>An inode is in the cache at most once.\<close>

definition icache_inv :: "'z icache_state_scheme \<Rightarrow> bool" where
  "icache_inv s \<longleftrightarrow> (\<forall>i. 0 \<le> i_ref (inodes s i)) \<and> (\<forall>i < NINODE. \<forall>j < NINODE. 0 < i_ref (inodes s i) \<longrightarrow> 0 < i_ref (inodes s j) \<longrightarrow>
     i_dev (inodes s i) = i_dev (inodes s j) \<longrightarrow> i_inum (inodes s i) = i_inum (inodes s j) \<longrightarrow> i = j)"

text \<open>An inode that is cached, or for which there is a free entry.\<close>

definition icache_room :: "'z icache_state_scheme \<Rightarrow> uint \<Rightarrow> uint \<Rightarrow> bool" where
  "icache_room s dev inum \<longleftrightarrow> (\<exists>i < NINODE. i_ref (inodes s i) = 0 \<or>
     0 < i_ref (inodes s i) \<and> i_dev (inodes s i) = dev \<and> i_inum (inodes s i) = inum)"

lemma iget_run:
  assumes "idle Lk_icache s" and "cpu_ok (cpu s)"
  shows "iget dev inum s =
    (case find (\<lambda>i. i_ref (inodes s i) > 0 \<and> i_dev (inodes s i) = dev \<and> i_inum (inodes s i) = inum) [0..<NINODE] of
       Some ip \<Rightarrow> Ret ip (s\<lparr>cpu := settle (cpu s), inodes := (inodes s)(ip := (inodes s ip)\<lparr>i_ref := i_ref (inodes s ip) + 1\<rparr>)\<rparr>)
     | None \<Rightarrow> (case find (\<lambda>i. i_ref (inodes s i) = 0) [0..<NINODE] of
         None \<Rightarrow> Panic ''iget: no inodes''
       | Some ip \<Rightarrow> Ret ip (s\<lparr>cpu := settle (cpu s), inodes := (inodes s)(ip :=
           (inodes s ip)\<lparr>i_dev := dev, i_inum := inum, i_ref := 1, i_flags := 0\<rparr>)\<rparr>)))"
  using assms by (simp add: iget_def bnd_def lock_run upd_inode_def split: option.split)

text \<open>The entry that \<open>iget\<close> returns, and what it changes.\<close>

definition igot :: "uint \<Rightarrow> uint \<Rightarrow> nat \<Rightarrow> 'z icache_state_scheme \<Rightarrow> 'z icache_state_scheme \<Rightarrow> bool" where
  "igot dev inum ip s t \<longleftrightarrow> ip < NINODE \<and> i_dev (inodes t ip) = dev \<and> i_inum (inodes t ip) = inum \<and>
     i_ref (inodes t ip) = i_ref (inodes s ip) + 1 \<and> (\<forall>j. j \<noteq> ip \<longrightarrow> inodes t j = inodes s j) \<and>
     (0 < i_ref (inodes s ip) \<longrightarrow> inodes t ip = (inodes s ip)\<lparr>i_ref := i_ref (inodes s ip) + 1\<rparr>)"

lemma iget_spec:
  assumes l: "idle Lk_icache s" "cpu_ok (cpu s)" and inv: "icache_inv s" and room: "icache_room s dev inum"
  shows "wp (iget dev inum) (\<lambda>ip t. igot dev inum ip s t \<and> icache_inv t \<and> t = s\<lparr>cpu := settle (cpu s), inodes := inodes t\<rparr>) s"
proof (cases "find (\<lambda>i. i_ref (inodes s i) > 0 \<and> i_dev (inodes s i) = dev \<and> i_inum (inodes s i) = inum) [0..<NINODE]")
  case (Some ip)
  then have ip: "ip < NINODE" "i_ref (inodes s ip) > 0" "i_dev (inodes s ip) = dev" "i_inum (inodes s ip) = inum"
    by (auto simp: find_Some_iff)
  let ?t = "s\<lparr>cpu := settle (cpu s), inodes := (inodes s)(ip := (inodes s ip)\<lparr>i_ref := i_ref (inodes s ip) + 1\<rparr>)\<rparr>"
  have "igot dev inum ip s ?t" using ip by (simp add: igot_def)
  moreover have "icache_inv ?t" using inv ip by (auto simp: icache_inv_def)
  ultimately show ?thesis using iget_run [OF l, of dev inum] Some by (simp add: wp_def)
next
  case None
  then have new: "\<not> (i_ref (inodes s i) > 0 \<and> i_dev (inodes s i) = dev \<and> i_inum (inodes s i) = inum)" if "i < NINODE" for i
    using that by (auto simp: find_None_iff)
  then have "find (\<lambda>i. i_ref (inodes s i) = 0) [0..<NINODE] \<noteq> None" using room by (auto simp: icache_room_def find_None_iff)
  then obtain ip where fr: "find (\<lambda>i. i_ref (inodes s i) = 0) [0..<NINODE] = Some ip" by blast
  then have ip: "ip < NINODE" "i_ref (inodes s ip) = 0" by (auto simp: find_Some_iff)
  let ?t = "s\<lparr>cpu := settle (cpu s), inodes := (inodes s)(ip := (inodes s ip)\<lparr>i_dev := dev, i_inum := inum, i_ref := 1, i_flags := 0\<rparr>)\<rparr>"
  have "igot dev inum ip s ?t" using ip by (simp add: igot_def)
  moreover have "icache_inv ?t" using inv ip new unfolding icache_inv_def by auto
  ultimately show ?thesis using iget_run [OF l, of dev inum] None fr by (simp add: wp_def)
qed

section \<open>Directory lookup\<close>

text \<open>Entry \<open>k\<close> of a directory.\<close>

definition dir_entry :: "'z icache_state_scheme \<Rightarrow> nat \<Rightarrow> nat \<Rightarrow> byte list" where
  "dir_entry s dp k = take 16 (drop (16 * k) (contents s dp))"

definition names :: "byte list \<Rightarrow> byte list \<Rightarrow> bool" where
  "names name de \<longleftrightarrow> de_inum de \<noteq> 0 \<and> namecmp name (de_name de) = 0"

lemma read_entry:
  assumes q: "quiet s" and f: "file_wf s dp" and k: "unat off = 16 * k" "16 * k + 16 \<le> unat (i_size (inodes s dp))"
  shows "wp (readi dp off 16) (\<lambda>(r, de) t. r = 16 \<and> de = dir_entry s dp k \<and> read_step s t) s"
proof -
  have "unat off + 16 < 2 ^ 32" using k unat_lt32 [of "i_size (inodes s dp)"] f
    by (simp add: file_wf_def MAXFILE_def NDIRECT_def NINDIRECT_def BSIZE_def)
  then have "unat (off + 16) = unat off + 16" by (simp add: unat_word_ariths)
  then have "\<not> (off > i_size (inodes s dp) \<or> off + 16 < off)" using k by (simp add: word_less_nat_alt)
  then show ?thesis using k by (intro wp_mono [OF readi_spec [OF q f]]) (auto simp: dir_entry_def)
qed

text \<open>A directory in use, in a state where a lookup neither waits nor runs out of inodes.\<close>

definition dir_ready :: "'z icache_state_scheme \<Rightarrow> nat \<Rightarrow> bool" where
  "dir_ready s dp \<longleftrightarrow> quiet s \<and> file_wf s dp \<and> i_type (inodes s dp) = T_DIR \<and> 16 dvd unat (i_size (inodes s dp)) \<and>
     idle Lk_icache s \<and> icache_inv s \<and> (\<exists>i < NINODE. i_ref (inodes s i) = 0)"

lemma dir_ready_read:
  assumes t: "read_step s t" and r: "dir_ready s dp"
  shows "dir_ready t dp"
proof -
  have "locks t = locks s" using bio_step_simps(1) t by (auto simp: read_step_def)
  then show ?thesis using r read_step_same(5) [OF t]
    unfolding dir_ready_def icache_inv_def read_step_same(1,4) [OF t] by simp
qed

text \<open>One turn of the loop.\<close>

lemma dirlookup_turn:
  assumes rd: "dir_ready s dp" and k: "unat off = 16 * k" "16 * k < unat (i_size (inodes s dp))"
  shows "wp (dirlookup_step dp name (off, None)) (\<lambda>(off', found) t.
    if names name (dir_entry s dp k)
    then off' = off \<and> (\<exists>ip. found = Some (ip, off) \<and> igot 1 (de_inum (dir_entry s dp k)) ip s t \<and> icache_inv t \<and> bview t = bview s)
    else unat off' = 16 * Suc k \<and> found = None \<and> read_step s t) s"
proof -
  have q: "quiet s" and f: "file_wf s dp" and dv: "16 dvd unat (i_size (inodes s dp))" and li: "idle Lk_icache s"
    and inv: "icache_inv s" and room: "\<exists>i < NINODE. i_ref (inodes s i) = 0" and dev: "i_dev (inodes s dp) = 1"
    using rd by (auto simp: dir_ready_def file_wf_def)
  have k16: "16 * k + 16 \<le> unat (i_size (inodes s dp))" using dv k(2) by (auto elim!: dvdE)
  let ?de = "dir_entry s dp k"
  obtain t where r: "readi dp off 16 s = Ret (16, ?de) t" and t: "read_step s t"
    using read_entry [OF q f k(1) k16] unfolding wp_iff by auto
  note same = read_step_same [OF t]
  have b: "bio_step s t" "bview t = bview s" using t by (simp_all add: read_step_def)
  show ?thesis
  proof (cases "names name ?de")
    case False
    have "unat off + 16 < 2 ^ 32" using k(1) k16 unat_lt32 [of "i_size (inodes s dp)"] f
      by (simp add: file_wf_def MAXFILE_def NDIRECT_def NINDIRECT_def BSIZE_def)
    then have "unat (off + 16) = 16 * Suc k" using k(1) by (simp add: unat_word_ariths)
    moreover have "dirlookup_step dp name (off, None) s = Ret (off + 16, None) t"
      using r False by (auto simp: dirlookup_step_def bnd_def whenk_def names_def)
    ultimately show ?thesis using False t by (simp add: wp_def)
  next
    case True
    have "idle Lk_icache t" "cpu_ok (cpu t)" "icache_inv t" "icache_room t 1 (de_inum ?de)"
      using li q inv room bio_step_simps [OF b(1)] by (auto simp: icache_inv_def icache_room_def same quiet_def bok_def bready_def)
    from iget_spec [OF this] obtain ip u where u: "iget 1 (de_inum ?de) t = Ret ip u" "igot 1 (de_inum ?de) ip t u" "icache_inv u"
        "u = t\<lparr>cpu := settle (cpu t), inodes := inodes u\<rparr>" unfolding wp_iff by blast
    have "dirlookup_step dp name (off, None) s = Ret (off, Some (ip, off)) u"
      using r True u(1) dev same by (simp add: dirlookup_step_def bnd_def whenk_def names_def)
    moreover have "igot 1 (de_inum ?de) ip s u" using u(2) by (simp add: igot_def same)
    moreover have "bview u = bview s"
    proof -
      have "bufs u = bufs t" "memdisk u = memdisk t" by (subst u(4), simp)+
      then have "bview u = bview t" by (intro ext) (simp add: bview_def split: option.split)
      then show ?thesis by (simp add: b(2))
    qed
    ultimately show ?thesis using True u(3) by (simp add: wp_def)
  qed
qed

text \<open>C29. \<open>dirlookup\<close> finds the first entry of a directory that is in use and has the given name: it returns its offset and a
  new reference to its inode, the only cache entry of that inode; without such an entry it returns none. It changes no file and no
  other cache entry.\<close>

theorem dirlookup_finds_first:
  assumes rd: "dir_ready s dp"
  shows "wp (dirlookup dp name) (\<lambda>found t.
    (case find (\<lambda>k. names name (dir_entry s dp k)) [0..<unat (i_size (inodes s dp)) div 16] of
       None \<Rightarrow> found = None \<and> inodes t = inodes s
     | Some k \<Rightarrow> \<exists>ip. found = Some (ip, of_nat (16 * k)) \<and> igot 1 (de_inum (dir_entry s dp k)) ip s t) \<and>
    icache_inv t \<and> bview t = bview s) s"
proof -
  let ?n = "unat (i_size (inodes s dp)) div 16" and ?P = "\<lambda>k. names name (dir_entry s dp k)"
  have q: "quiet s" and dv: "unat (i_size (inodes s dp)) = 16 * ?n" and ty: "i_type (inodes s dp) = T_DIR" and inv: "icache_inv s"
    using rd by (auto simp: dir_ready_def)
  let ?I = "\<lambda>(off :: uint, found) t. \<exists>k. unat off = 16 * k \<and> k \<le> ?n \<and> (\<forall>j < k. \<not> ?P j) \<and> (case found of
      None \<Rightarrow> read_step s t
    | Some (ip, o') \<Rightarrow> o' = off \<and> k < ?n \<and> ?P k \<and> igot 1 (de_inum (dir_entry s dp k)) ip s t \<and> icache_inv t \<and> bview t = bview s)"
  have "wp (kwhile (\<lambda>(off, found) s. found = None \<and> off < i_size (inodes s dp)) (dirlookup_step dp name) (0, None))
    (\<lambda>x t. ?I x t \<and> (snd x = None \<longrightarrow> \<not> fst x < i_size (inodes t dp))) s"
  proof (rule wp_kwhile [where I = ?I and V = "\<lambda>x _. if snd x = None then Suc (16 * ?n - unat (fst x)) else 0"])
    show "?I (0, None) s" using read_step_refl [OF q] by simp
  next
    fix x t assume I: "?I x t" and b: "(case x of (off, found) \<Rightarrow> \<lambda>s. found = None \<and> off < i_size (inodes s dp)) t"
    obtain off where x: "x = (off, None)" and lt: "off < i_size (inodes t dp)" using b by (cases x) auto
    obtain k where k: "unat off = 16 * k" "\<forall>j < k. \<not> ?P j" and t: "read_step s t" using I by (auto simp: x)
    note same = read_step_same [OF t]
    have rdt: "dir_ready t dp" by (rule dir_ready_read [OF t rd])
    have lt': "16 * k < unat (i_size (inodes t dp))" using lt k(1) by (simp add: word_less_nat_alt)
    then have kn: "k < ?n" unfolding same using dv by linarith
    have de: "dir_entry t dp k = dir_entry s dp k" by (simp add: dir_entry_def same)
    have bv: "bview t = bview s" using t by (simp add: read_step_def)
    have ig: "igot 1 inum ip t u = igot 1 inum ip s u" for inum ip u by (simp add: igot_def same)
    show "wp (dirlookup_step dp name x) (\<lambda>y u. ?I y u \<and> (if snd y = None then Suc (16 * ?n - unat (fst y)) else 0) <
        (if snd x = None then Suc (16 * ?n - unat (fst x)) else 0)) t"
      unfolding x
    proof (rule wp_mono [OF dirlookup_turn [OF rdt k(1) lt']])
      fix y u
      assume "(case y of (off', found) \<Rightarrow> \<lambda>u. if names name (dir_entry t dp k)
        then off' = off \<and> (\<exists>ip. found = Some (ip, off) \<and> igot 1 (de_inum (dir_entry t dp k)) ip t u \<and> icache_inv u \<and> bview u = bview t)
        else unat off' = 16 * Suc k \<and> found = None \<and> read_step t u) u"
      then show "?I y u \<and> (if snd y = None then Suc (16 * ?n - unat (fst y)) else 0) <
          (if snd (off, None) = None then Suc (16 * ?n - unat (fst (off, None))) else 0)"
        using k kn bv de ig read_step_trans [OF t]
        by (cases y, cases "?P k") (fastforce simp: less_Suc_eq, auto simp: less_Suc_eq intro!: exI [of _ "Suc k"])
    qed
  qed auto
  then obtain off found t where loop: "kwhile (\<lambda>(off, found) s. found = None \<and> off < i_size (inodes s dp)) (dirlookup_step dp name) (0, None) s =
      Ret (off, found) t" and I: "?I (off, found) t" and e: "found = None \<longrightarrow> \<not> off < i_size (inodes t dp)"
    unfolding wp_iff by auto
  have run: "dirlookup dp name s = Ret found t" using ty loop by (simp add: dirlookup_def bnd_def whenk_def)
  obtain k where k: "unat off = 16 * k" "k \<le> ?n" "\<forall>j < k. \<not> ?P j" using I by auto
  show ?thesis
  proof (cases found)
    case None
    then have t: "read_step s t" using I by auto
    note same = read_step_same [OF t]
    have "k = ?n" using e None k dv same by (simp add: word_less_nat_alt)
    then have "find ?P [0..<?n] = None" using k by (simp add: find_None_iff)
    then show ?thesis using run None same t inv by (simp add: wp_def icache_inv_def read_step_def)
  next
    case (Some z)
    then obtain ip where z: "found = Some (ip, off)" "k < ?n" "?P k" "igot 1 (de_inum (dir_entry s dp k)) ip s t" "icache_inv t" "bview t = bview s"
      using I k by (cases z) auto
    then have "find ?P [0..<?n] = Some k" using k by (auto simp: find_Some_iff)
    moreover have "off = of_nat (unat off)" by simp
    then have "off = of_nat (16 * k)" by (simp only: k(1))
    ultimately show ?thesis using run z by (simp add: wp_def)
  qed
qed

section \<open>Files as sequences of bytes\<close>

text \<open>C27. \<open>readi\<close> on a file or directory returns the bytes of its contents at the offset, as many as asked for or as there are
  up to the end of the file, whatever blocks they are spread over, directly and through the indirect block; it fails exactly when
  the offset is past the end or the range wraps around. It always returns, and it changes nothing a file system call can see.\<close>

theorem readi_returns_contents:
  assumes "quiet s" and "file_wf s ip"
  shows "wp (readi ip off n) (\<lambda>(r, bs) t.
    (if off > i_size (inodes s ip) \<or> off + n < off then r = -1 \<and> bs = []
     else bs = take (unat n) (drop (unat off) (contents s ip)) \<and> r = int (length bs)) \<and>
    bview t = bview s \<and> memdisk t = memdisk s \<and> inodes t = inodes s \<and> quiet t) s"
  by (rule wp_mono [OF readi_spec [OF assms]]) (auto simp: read_step_def read_step_same(1) [unfolded read_step_def])

text \<open>C28. \<open>writei\<close> within the size of a file, in a transaction with room in the log for the blocks it touches, replaces the
  bytes at the offset by the new ones, whatever blocks they are spread over. Only blocks of that range of the file change, in the
  cache and in the log: the disk is untouched until the transaction commits.\<close>

theorem writei_overwrites:
  assumes "tx_ready s" and "card (dirtyb s \<union> touched s ip (unat off) (unat n)) < 29" and "file_wf s ip"
    and "blocks_own s ip" and "unat off + unat n \<le> unat (i_size (inodes s ip))" and "length src = unat n"
  shows "wp (writei ip src off n) (\<lambda>r t. r = int (unat n) \<and> contents t ip = splice (contents s ip) (unat off) src \<and>
    (\<forall>b. b \<notin> touched s ip (unat off) (unat n) \<longrightarrow> bview t b = bview s b) \<and> memdisk t = memdisk s \<and>
    tx_ready t \<and> file_wf t ip \<and> blocks_own t ip) s"
  by (rule wp_mono [OF writei_spec [OF assms]]) simp

subsection \<open>A directory with two entries\<close>

definition fs_demo_block :: "byte list" where
  "fs_demo_block = enc_dirent 1 [46] @ enc_dirent 5 [97, 98] @ replicate (BSIZE - 32) 0"

definition fs_demo :: cons_state where
  "fs_demo = cons_demo\<lparr>memdisk := (\<lambda>_. replicate BSIZE 0)(59 := fs_demo_block),
     inodes := (\<lambda>_. demo_inode)(0 := demo_inode\<lparr>i_dev := 1, i_inum := 1, i_ref := 1, i_flags := I_VALID, i_type := T_DIR,
       i_nlink := 1, i_size := 32, i_addrs := (\<lambda>_. 0)(0 := 59)\<rparr>)\<rparr>"

lemma fs_demo_block: "length fs_demo_block = BSIZE" "take 32 fs_demo_block = enc_dirent 1 [46] @ enc_dirent 5 [97, 98]"
    "take 16 fs_demo_block = enc_dirent 1 [46]" "take 16 (drop 16 fs_demo_block) = enc_dirent 5 [97, 98]"
  by (simp_all add: fs_demo_block_def enc_dirent_def length_le16 BSIZE_def DIRSIZ_def)

lemma fs_demo_boot:
  obtains s where "binit fs_demo = Ret () s" and "tx_ready s" and "dirtyb s = {}" and "file_wf s 0" and "blocks_own s 0"
    and "inodes s = inodes fs_demo" and "contents s 0 = take 32 fs_demo_block" and "block_of s 0 0 = 59" and "dir_ready s 0"
proof -
  have fs: "\<forall>i < NBUF. b_flags (bufs fs_demo i) = 0" "\<forall>bn. length (memdisk fs_demo bn) = BSIZE"
    "idle Lk_ptable fs_demo" "cpu_ok (cpu fs_demo)"
    by (simp_all add: fs_demo_def cons_demo_defs demo_buf_def cpu_ok_def fs_demo_block)
  from binit_inv [OF this] obtain s bf where run: "binit fs_demo = Ret () s" and t: "bok s" "busyb s = {}" "dirtyb s = {}"
      and eq: "s = fs_demo\<lparr>locks := (locks fs_demo)(Lk_bcache := free_lock), bufs := bf\<rparr>"
    unfolding wp_unit by blast
  have f: "memdisk s = (\<lambda>_. replicate BSIZE 0)(59 := fs_demo_block)" "disksize s = 1000" "log_dev s = 1" "log_start s = 2" "log_size s = 30"
      "log_outstanding s = 1" "log_n s = 0" "idle Lk_log s" "idle Lk_icache s"
    unfolding eq by (simp_all add: fs_demo_def cons_demo_defs)
  have is0: "inodes s = inodes fs_demo" unfolding eq by simp
  have i: "i_dev (inodes s 0) = 1" "i_type (inodes s 0) = T_DIR" "i_size (inodes s 0) = 32" "i_addrs (inodes s 0) = (\<lambda>_. 0)(0 := 59)"
    unfolding is0 by (simp_all add: fs_demo_def)
  have bv: "bview s = memdisk s" using bview_clean [of s] t by (auto simp: bok_def)
  have tx: "tx_ready s" using t f by (simp add: tx_ready_def tx_ok_def log_wf_def)
  have bo: "block_of s 0 0 = 59" by (simp add: block_of_def i NDIRECT_def)
  have z: "bn * BSIZE < 32 \<longleftrightarrow> bn = 0" for bn by (cases bn) (simp_all add: BSIZE_def)
  have "32 \<le> MAXFILE * BSIZE" by (simp add: MAXFILE_def NDIRECT_def NINDIRECT_def BSIZE_def)
  then have wf: "file_wf s 0" "blocks_own s 0"
    by (auto simp: file_wf_def blocks_own_def i z bo f in_log_def T_DIR_def T_DEV_def NDIRECT_def)
  have "contents s 0 = take 32 fs_demo_block"
    by (rule nth_equalityI) (simp_all add: contents_def i fs_demo_block(1) bo bv f BSIZE_def)
  moreover have "icache_inv s" unfolding icache_inv_def is0 by (simp add: fs_demo_def demo_inode_def)
  moreover have "1 < NINODE \<and> i_ref (inodes s 1) = 0" unfolding is0 by (simp add: fs_demo_def demo_inode_def NINODE_def)
  then have "\<exists>i < NINODE. i_ref (inodes s i) = 0" by (rule exI)
  ultimately have "contents s 0 = take 32 fs_demo_block" "dir_ready s 0" using tx_quiet [OF tx] wf i f by (simp_all add: dir_ready_def)
  then show ?thesis using that run tx t(3) wf is0 bo by blast
qed

theorem readi_returns_contents_witness:
  "\<exists>s t. binit fs_demo = Ret () s \<and> readi 0 16 100 s = Ret (16, enc_dirent 5 [97, 98]) t"
proof -
  obtain s where s: "binit fs_demo = Ret () s" "tx_ready s" "file_wf s 0" "inodes s = inodes fs_demo" "contents s 0 = take 32 fs_demo_block"
    by (rule fs_demo_boot)
  have "i_size (inodes s 0) = 32" "length (enc_dirent 5 [97, 98]) = 16" "length (enc_dirent 1 [46]) = 16"
    unfolding s by (simp_all add: fs_demo_def enc_dirent_def length_le16 DIRSIZ_def)
  then show ?thesis using readi_returns_contents [OF tx_quiet [OF s(2)] s(3), of 16 100] s(1)
    by (auto simp: wp_iff s(5) fs_demo_block(2))
qed

theorem writei_overwrites_witness:
  "\<exists>s t. binit fs_demo = Ret () s \<and> writei 0 [99] 18 1 s = Ret 1 t \<and> contents t 0 = enc_dirent 1 [46] @ enc_dirent 5 [99, 98]"
proof -
  obtain s where s: "binit fs_demo = Ret () s" "tx_ready s" "dirtyb s = {}" "file_wf s 0" "blocks_own s 0"
      "inodes s = inodes fs_demo" "contents s 0 = take 32 fs_demo_block" "block_of s 0 0 = 59"
    by (rule fs_demo_boot)
  have "{bn. 18 div BSIZE \<le> bn \<and> bn * BSIZE < 19} = {0}" by (auto simp: BSIZE_def)
  then have "card (dirtyb s \<union> touched s 0 (unat (18 :: uint)) (unat (1 :: uint))) < 29" by (simp add: touched_def s)
  moreover have "unat (18 :: uint) + unat (1 :: uint) \<le> unat (i_size (inodes s 0))" unfolding s by (simp add: fs_demo_def)
  moreover have "splice (take 32 fs_demo_block) 18 [99] = enc_dirent 1 [46] @ enc_dirent 5 [99, 98]"
    by (simp add: fs_demo_block splice_def enc_dirent_def) code_simp
  ultimately show ?thesis using writei_overwrites [OF s(2) _ s(4,5), of 18 1 "[99]"] s(1) by (auto simp: wp_iff s(7))
qed

theorem dirlookup_finds_first_witness:
  "\<exists>s t ip. binit fs_demo = Ret () s \<and> dirlookup 0 [97, 98] s = Ret (Some (ip, 16)) t \<and> i_inum (inodes t ip) = 5"
proof -
  obtain s where s: "binit fs_demo = Ret () s" "dir_ready s 0" "inodes s = inodes fs_demo" "contents s 0 = take 32 fs_demo_block"
    by (rule fs_demo_boot)
  have e: "dir_entry s 0 0 = enc_dirent 1 [46]" "dir_entry s 0 1 = enc_dirent 5 [97, 98]"
    by (simp_all add: dir_entry_def s(4) fs_demo_block(3) drop_take fs_demo_block(4) enc_dirent_def length_le16 DIRSIZ_def)
  have n: "\<not> names [97, 98] (enc_dirent 1 [46])" "names [97, 98] (enc_dirent 5 [97, 98])" "de_inum (enc_dirent 5 [97, 98]) = 5" by code_simp+
  have "find (\<lambda>k. names [97, 98] (dir_entry s 0 k)) [0..<unat (i_size (inodes s 0)) div 16] = Some 1"
    using e n unfolding s(3) by (simp add: fs_demo_def upt_rec)
  then show ?thesis using dirlookup_finds_first [OF s(2), of "[97, 98]"] s(1) e(2) n(3) by (auto simp: wp_iff igot_def)
qed

end
