(* ===== verification/Ulib.thy ===== *)
theory Ulib
  imports Xstring Digits
begin

text \<open>
  The C library of user programs, \<open>ulib.c\<close>. Strings are the bytes before the terminating NUL; memory is
  byte-addressed as in \<^theory_text>\<open>Xstring\<close>. What successive \<open>read\<close> calls on a descriptor hand over is a list of chunks: a call
  returns at most what is left of the first chunk, an empty list of chunks is the end of the input.
\<close>

abbreviation (input) newline :: byte where "newline \<equiv> 10"

section \<open>Strings\<close>

text \<open>\<open>strcpy\<close> copies up to and including the NUL; \<open>None\<close> is a source with no NUL to stop at.\<close>

partial_function (option) strcpy :: "memory \<Rightarrow> uint \<Rightarrow> uint \<Rightarrow> memory option" where
  "strcpy m s t = (let m' = m(s := m t) in if m t \<noteq> 0 then strcpy m' (s + 1) (t + 1) else Some m')"

fun strcmp :: "byte list \<Rightarrow> byte list \<Rightarrow> int" where
  "strcmp (p # ps) (q # qs) = (if p = q then strcmp ps qs else uint p - uint q)"
| "strcmp (p # ps) [] = uint p"
| "strcmp [] (q # qs) = - uint q"
| "strcmp [] [] = 0"

text \<open>\<open>strchr\<close> on the bytes of a buffer, up to its end or the first NUL; the result is an offset.\<close>

fun strchr :: "byte list \<Rightarrow> byte \<Rightarrow> nat option" where
  "strchr [] c = None"
| "strchr (x # xs) c = (if x = 0 then None else if x = c then Some 0 else map_option Suc (strchr xs c))"

text \<open>The library's \<open>memset\<close> and \<open>memmove\<close> always go upwards, byte by byte.\<close>

definition umemset :: "memory \<Rightarrow> uint \<Rightarrow> uint \<Rightarrow> uint \<Rightarrow> memory" where
  "umemset m dst c n = stosb m dst (ucast c) (unat n)"

definition umemmove :: "memory \<Rightarrow> uint \<Rightarrow> uint \<Rightarrow> int \<Rightarrow> memory" where
  "umemmove m dst src n = copy_up m src dst (nat n)"

section \<open>Input\<close>

type_synonym chunks = "byte list list"

fun read_chunk :: "nat \<Rightarrow> chunks \<Rightarrow> byte list \<times> chunks" where
  "read_chunk n [] = ([], [])"
| "read_chunk n (c # cs) = (take n c, if length c \<le> n then cs else drop n c # cs)"

text \<open>\<open>gets(buf, max)\<close>: the bytes stored before the NUL, and what is left to read. \<open>room\<close> is the number of
  bytes that may still be stored.\<close>

fun gets_loop :: "nat \<Rightarrow> chunks \<Rightarrow> byte list \<times> chunks" where
  "gets_loop 0 inp = ([], inp)"
| "gets_loop (Suc room) inp = (case read_chunk 1 inp of
     ([], inp') \<Rightarrow> ([], inp')
   | (c # _, inp') \<Rightarrow>
       if c = newline \<or> c = 13 then ([c], inp')
       else let (s, inp'') = gets_loop room inp' in (c # s, inp''))"

definition gets_line :: "int \<Rightarrow> chunks \<Rightarrow> byte list \<times> chunks" where
  "gets_line sz inp = gets_loop (nat (sz - 1)) inp"

section \<open>Facts\<close>

lemma read_chunk_concat: "read_chunk n inp = (d, inp') \<Longrightarrow> concat inp = d @ concat inp'"
  by (cases inp) (auto split: if_splits)

lemma read_chunk_shrinks: "read_chunk n inp = (d, inp') \<Longrightarrow> d \<noteq> [] \<Longrightarrow> length (concat inp') < length (concat inp)"
  by (drule read_chunk_concat) simp

lemma read_chunk_length: "read_chunk n inp = (d, inp') \<Longrightarrow> length d \<le> n"
  by (cases inp) auto

lemma strchr_Some:
  assumes "strchr xs c = Some i"
  shows "i < length xs" and "xs ! i = c" and "0 \<notin> set (take i xs)" and "c \<notin> set (take i xs)" and "c \<noteq> 0"
  using assms by (induction xs arbitrary: i) (auto split: if_splits)

lemma strchr_None: "strchr xs c = None \<Longrightarrow> 0 \<notin> set xs \<Longrightarrow> c \<notin> set xs"
  by (induction xs) (auto split: if_splits)

lemma strchr_append: "0 \<notin> set xs \<Longrightarrow> c \<notin> set xs \<Longrightarrow> c \<noteq> 0 \<Longrightarrow> strchr (xs @ c # ys) c = Some (length xs)"
  by (induction xs) auto

lemma strcmp_eq: "0 \<notin> set p \<Longrightarrow> 0 \<notin> set q \<Longrightarrow> strcmp p q = 0 \<longleftrightarrow> p = q"
proof (induction p q rule: strcmp.induct)
  case (1 p ps q qs)
  have "p = q" if "uint p = uint q" using that by (simp add: word_uint_eq_iff)
  with 1 show ?case by auto
next
  case (2 p ps)
  have "uint p \<noteq> 0" using 2 by (simp add: uint_0_iff)
  then show ?case by simp
next
  case (3 q qs)
  have "uint q \<noteq> 0" using 3 by (simp add: uint_0_iff)
  then show ?case by simp
qed simp

end
