(* ===== verification/Grep.thy ===== *)
theory Grep
  imports Ulib
begin

text \<open>
  The program \<open>grep.c\<close>: the pattern matcher and the loop that cuts its input into lines. The matcher is proved to decide
  the language of its patterns, and the loop to print exactly the matching lines of a file whose lines fit the buffer.
\<close>

section \<open>The matcher\<close>

function (sequential) matchhere :: "byte list \<Rightarrow> byte list \<Rightarrow> bool"
  and matchstar :: "byte \<Rightarrow> byte list \<Rightarrow> byte list \<Rightarrow> bool" where
  "matchhere [] text = True"
| "matchhere [c] text =
     (if c = 36 then text = []
      else case text of [] \<Rightarrow> False | x # xs \<Rightarrow> (c = 46 \<or> c = x) \<and> matchhere [] xs)"
| "matchhere (c # d # re) text =
     (if d = 42 then matchstar c re text
      else case text of [] \<Rightarrow> False | x # xs \<Rightarrow> (c = 46 \<or> c = x) \<and> matchhere (d # re) xs)"
| "matchstar c re text =
     (matchhere re text \<or> (case text of [] \<Rightarrow> False | x # xs \<Rightarrow> (x = c \<or> c = 46) \<and> matchstar c re xs))"
  by pat_completeness auto
termination
  by (relation "measures [\<lambda>z. case z of Inl (re, _) \<Rightarrow> 2 * length re | Inr (_, re, _) \<Rightarrow> 2 * length re + 1,
      \<lambda>z. case z of Inl (_, text) \<Rightarrow> length text | Inr (_, _, text) \<Rightarrow> length text]") auto

fun match_from :: "byte list \<Rightarrow> byte list \<Rightarrow> bool" where
  "match_from re text = (matchhere re text \<or> (case text of [] \<Rightarrow> False | _ # xs \<Rightarrow> match_from re xs))"

declare match_from.simps [simp del]

definition match :: "byte list \<Rightarrow> byte list \<Rightarrow> bool" where
  "match re text = (case re of c # re' \<Rightarrow> if c = 94 then matchhere re' text else match_from re text
     | [] \<Rightarrow> match_from re text)"

section \<open>The loop over the input\<close>

text \<open>The complete lines of the buffer: those that match are written out; what follows the last newline is left.\<close>

function grep_lines :: "byte list \<Rightarrow> byte list \<Rightarrow> byte list list \<times> byte list" where
  "grep_lines pat p = (case strchr p newline of
     None \<Rightarrow> ([], p)
   | Some i \<Rightarrow> let (ws, rest) = grep_lines pat (drop (Suc i) p)
       in (if match pat (take i p) then take (Suc i) p # ws else ws, rest))"
  by pat_completeness auto
termination
  by (relation "measure (\<lambda>(_, p). length p)") (auto dest: strchr_Some)

declare grep_lines.simps [simp del]

text \<open>\<open>have\<close> is what the buffer holds, \<open>buf[0..m)\<close>. When no newline was found \<open>m\<close> becomes 0.\<close>

function grep :: "byte list \<Rightarrow> byte list \<Rightarrow> chunks \<Rightarrow> byte list list" where
  "grep pat buf inp = (case read_chunk (1024 - length buf - 1) inp of (d, inp') \<Rightarrow>
     if d = [] then []
     else let buf = buf @ d; (ws, p) = grep_lines pat buf
       in ws @ grep pat (if length p = length buf then [] else p) inp')"
  by pat_completeness auto
termination
  by (relation "measure (\<lambda>(_, _, inp). length (concat inp))") (auto dest: read_chunk_shrinks [OF sym])

declare grep.simps [simp del]

section \<open>The language of a pattern\<close>

text \<open>A pattern is a sequence of atoms, each with or without a star, and an optional end anchor.\<close>

fun items :: "byte list \<Rightarrow> (byte \<times> bool) list \<times> bool" where
  "items [] = ([], False)"
| "items [c] = (if c = 36 then ([], True) else ([(c, False)], False))"
| "items (c # d # re) =
     (if d = 42 then apfst ((#) (c, True)) (items re) else apfst ((#) (c, False)) (items (d # re)))"

definition atom :: "byte \<Rightarrow> byte \<Rightarrow> bool" where
  "atom c x \<longleftrightarrow> c = 46 \<or> c = x"

fun lang :: "(byte \<times> bool) list \<Rightarrow> byte list set" where
  "lang [] = {[]}"
| "lang ((c, starred) # r) =
     (if starred then {u @ w |u w. (\<forall>x \<in> set u. atom c x) \<and> w \<in> lang r} else {x # w |x w. atom c x \<and> w \<in> lang r})"

lemma star_unfold:
  "(\<exists>u t. text = u @ t \<and> (\<forall>x \<in> set u. atom c x) \<and> P t) \<longleftrightarrow>
   P text \<or> (\<exists>x xs. text = x # xs \<and> atom c x \<and> (\<exists>u t. xs = u @ t \<and> (\<forall>x \<in> set u. atom c x) \<and> P t))" (is "?L \<longleftrightarrow> ?R")
proof
  assume ?L
  then obtain u t where u: "text = u @ t" "\<forall>x \<in> set u. atom c x" "P t" by blast
  then show ?R by (cases u) auto
next
  assume ?R
  then show ?L
  proof (elim disjE exE conjE)
    assume "P text" then show ?L by (intro exI [of _ "[]"] exI [of _ "text"]) simp
  next
    fix x xs u t assume "text = x # xs" "atom c x" "xs = u @ t" "\<forall>x \<in> set u. atom c x" "P t"
    then show ?L by (intro exI [of _ "x # u"] exI [of _ t]) simp
  qed
qed

definition starts :: "(byte \<times> bool) list \<times> bool \<Rightarrow> byte list \<Rightarrow> bool" where
  "starts p text \<longleftrightarrow> (\<exists>v w. text = v @ w \<and> v \<in> lang (fst p) \<and> (snd p \<longrightarrow> w = []))"

lemma starts_Nil [simp]: "starts ([], e) text \<longleftrightarrow> (e \<longrightarrow> text = [])"
  by (simp add: starts_def)

lemma starts_star: "starts ((c, True) # is, e) text \<longleftrightarrow>
   (\<exists>u t. text = u @ t \<and> (\<forall>x \<in> set u. atom c x) \<and> starts (is, e) t)" (is "?L \<longleftrightarrow> ?R")
proof
  assume ?L
  then obtain p w where w: "text = p @ w" "p \<in> lang ((c, True) # is)" "e \<longrightarrow> w = []"
    unfolding starts_def fst_conv snd_conv by blast
  then obtain u v where "p = u @ v" "\<forall>x \<in> set u. atom c x" "v \<in> lang is" by auto
  with w have "text = (u @ v) @ w" "\<forall>x \<in> set u. atom c x" "v \<in> lang is" "e \<longrightarrow> w = []" by simp_all
  then show ?R unfolding starts_def by (intro exI [of _ u] exI [of _ "v @ w"]) auto
next
  assume ?R
  then obtain u v w where "text = u @ v @ w" "\<forall>x \<in> set u. atom c x" "v \<in> lang is" "e \<longrightarrow> w = []"
    unfolding starts_def fst_conv snd_conv by blast
  then show ?L unfolding starts_def by (intro exI [of _ "u @ v"] exI [of _ w]) auto
qed

lemma starts_atom: "starts ((c, False) # is, e) text \<longleftrightarrow>
   (case text of [] \<Rightarrow> False | x # xs \<Rightarrow> atom c x \<and> starts (is, e) xs)" (is "?L \<longleftrightarrow> ?R")
proof
  assume ?L
  then obtain p w where w: "text = p @ w" "p \<in> lang ((c, False) # is)" "e \<longrightarrow> w = []"
    unfolding starts_def fst_conv snd_conv by blast
  then obtain x v where "p = x # v" "atom c x" "v \<in> lang is" by auto
  with w show ?R unfolding starts_def fst_conv snd_conv by (simp, blast)
next
  assume ?R
  then obtain x xs where x: "text = x # xs" "atom c x" "starts (is, e) xs" by (auto split: list.splits)
  then obtain v w where "xs = v @ w" "v \<in> lang is" "e \<longrightarrow> w = []" unfolding starts_def fst_conv snd_conv by blast
  with x have "text = x # v @ w" "atom c x" "v \<in> lang is" "e \<longrightarrow> w = []" by simp_all
  then show ?L unfolding starts_def by (intro exI [of _ "x # v"] exI [of _ w]) auto
qed

lemma matchhere_starts:
  "matchhere re text \<longleftrightarrow> starts (items re) text"
  "matchstar c re text \<longleftrightarrow> (\<exists>u t. text = u @ t \<and> (\<forall>x \<in> set u. atom c x) \<and> starts (items re) t)"
proof (induction re "text" and c re "text" rule: matchhere_matchstar.induct)
  case (2 c str)
  then show ?case by (auto simp: starts_atom atom_def split: list.splits)
next
  case (3 c d re str)
  obtain js e where "items re = (js, e)" by (cases "items re")
  moreover obtain ks f where "items (d # re) = (ks, f)" by (cases "items (d # re)")
  ultimately show ?case using 3 by (auto simp: starts_atom starts_star atom_def split: list.split)
next
  case (4 c re str)
  show ?case
    by (subst matchstar.simps, subst star_unfold) (use 4 in \<open>auto simp: atom_def split: list.split\<close>)
qed simp_all

lemma match_from_iff: "match_from re text \<longleftrightarrow> (\<exists>u t. text = u @ t \<and> matchhere re t)"
proof (induction re "text" rule: match_from.induct)
  case (1 re str)
  show ?case
  proof (cases str)
    case Nil
    then show ?thesis by (subst match_from.simps) simp
  next
    case (Cons x xs)
    with 1 have IH: "match_from re xs \<longleftrightarrow> (\<exists>u t. xs = u @ t \<and> matchhere re t)" by simp
    show ?thesis unfolding Cons by (subst match_from.simps) (auto simp: IH Cons_eq_append_conv)
  qed
qed

text \<open>C17. \<open>match\<close> decides exactly the language of its pattern: some part of the text is a sequence of what the pattern's
  atoms and starred atoms stand for, at the beginning of the text after \<open>^\<close> and at its end before a final \<open>$\<close>.\<close>

theorem match_decides_language:
  "match re text \<longleftrightarrow> (let anchored = (re \<noteq> [] \<and> hd re = 94); (is, at_end) = items (if anchored then tl re else re)
     in \<exists>u v w. text = u @ v @ w \<and> v \<in> lang is \<and> (anchored \<longrightarrow> u = []) \<and> (at_end \<longrightarrow> w = []))"
proof -
  have anchored: "match re text = starts (items re') text" if "re = 94 # re'" for re'
    using that by (simp add: match_def matchhere_starts)
  have "match re text = (\<exists>u t. text = u @ t \<and> starts (items re) t)" if "\<not> (re \<noteq> [] \<and> hd re = 94)"
    using that by (auto simp: match_def match_from_iff matchhere_starts split: list.split)
  with anchored show ?thesis
    by (cases "re \<noteq> [] \<and> hd re = 94") (cases re; auto simp: starts_def Let_def split: prod.split)+
qed

theorem match_decides_language_witness:
  "match (map of_char ''^a.*d$'') (map of_char ''abcd'') \<and> \<not> match (map of_char ''^b*$'') (map of_char ''bbc'') \<and>
   (\<exists>u v w. (map of_char ''abcd'' :: byte list) = u @ v @ w \<and> v \<in> lang [(97, False), (46, True), (100, False)] \<and> u = [] \<and> w = [])"
proof -
  have m: "match (map of_char ''^a.*d$'') (map of_char ''abcd'')" by code_simp
  have "\<not> match (map of_char ''^b*$'') (map of_char ''bbc'')" by code_simp
  moreover have "items (tl (map of_char ''^a.*d$'')) = ([(97, False), (46, True), (100, False)], True)" by code_simp
  ultimately show ?thesis using m m [unfolded match_decides_language] by (simp add: Let_def)
qed

section \<open>Lines\<close>

abbreviation unlines :: "byte list list \<Rightarrow> byte list" where
  "unlines ls \<equiv> concat (map (\<lambda>l. l @ [newline]) ls)"

text \<open>A line the buffer has room for.\<close>

definition line_ok :: "byte list \<Rightarrow> bool" where
  "line_ok l \<longleftrightarrow> length l < 1023 \<and> newline \<notin> set l \<and> 0 \<notin> set l"

lemma strchr_absent: "c \<notin> set xs \<Longrightarrow> strchr xs c = None"
  by (induction xs) auto

lemma grep_lines_unlines:
  assumes "\<forall>l \<in> set ls. line_ok l" and "newline \<notin> set r"
  shows "grep_lines pat (unlines ls @ r) = (map (\<lambda>l. l @ [newline]) (filter (match pat) ls), r)"
  using assms(1)
proof (induction ls)
  case Nil
  then show ?case using strchr_absent [OF assms(2)] by (subst grep_lines.simps) simp
next
  case (Cons l ls)
  have s: "strchr (l @ newline # unlines ls @ r) newline = Some (length l)"
    using Cons.prems by (intro strchr_append) (auto simp: line_ok_def)
  have "grep_lines pat (l @ newline # unlines ls @ r) =
      (if match pat l then (l @ [newline]) # map (\<lambda>l. l @ [newline]) (filter (match pat) ls)
       else map (\<lambda>l. l @ [newline]) (filter (match pat) ls), r)"
    by (subst grep_lines.simps) (simp add: s Cons)
  then show ?case by simp
qed

text \<open>A part of the file ends inside a line.\<close>

lemma unlines_prefix:
  assumes "p @ q = unlines ls" and "\<forall>l \<in> set ls. newline \<notin> set l"
  shows "\<exists>ls1 ls2 r. ls = ls1 @ ls2 \<and> p = unlines ls1 @ r \<and> newline \<notin> set r \<and> r @ q = unlines ls2"
  using assms
proof (induction ls arbitrary: p)
  case Nil
  then show ?case by simp
next
  case (Cons l ls)
  then have e: "p @ q = (l @ [newline]) @ unlines ls" by simp
  show ?case
  proof (cases "length p \<le> length l")
    case True
    then have "p = take (length p) l" using e append_eq_append_conv_if [of p q "l @ [newline]" "unlines ls"] by simp
    then have "newline \<notin> set p" using Cons.prems(2) by (metis in_set_takeD list.set_intros(1))
    then show ?thesis using Cons.prems(1) by (intro exI [of _ "[]"] exI [of _ "l # ls"] exI [of _ p]) simp
  next
    case False
    then have p: "p = (l @ [newline]) @ drop (Suc (length l)) p" and e': "drop (Suc (length l)) p @ q = unlines ls"
      using e append_eq_append_conv_if [of "l @ [newline]" "unlines ls" p q] append_take_drop_id [of "Suc (length l)" p]
      by simp_all
    define p' where "p' = drop (Suc (length l)) p"
    note p = p [folded p'_def] and e' = e' [folded p'_def]
    from Cons.IH [OF e'] Cons.prems(2) obtain ls1 ls2 r where
      "ls = ls1 @ ls2" "p' = unlines ls1 @ r" "newline \<notin> set r" "r @ q = unlines ls2" by auto
    then show ?thesis using p by (intro exI [of _ "l # ls1"] exI [of _ ls2] exI [of _ r]) simp
  qed
qed

lemma grep_file:
  assumes "buf @ concat inp = unlines ls" and "\<forall>l \<in> set ls. line_ok l" and "newline \<notin> set buf" and "length inp \<le> 1"
  shows "grep pat buf inp = map (\<lambda>l. l @ [newline]) (filter (match pat) ls)"
  using assms
proof (induction "length (concat inp)" arbitrary: buf inp ls rule: less_induct)
  case less
  show ?case
  proof (cases ls)
    case Nil
    then obtain inp' where "read_chunk (1024 - length buf - 1) inp = ([], inp')" using less.prems(1,4) by (cases inp) auto
    then show ?thesis using Nil by (subst grep.simps) simp
  next
    case (Cons l ls')
    have l: "length l < 1023" "newline \<notin> set l" using less.prems(2) Cons by (simp_all add: line_ok_def)
    have f: "buf @ concat inp = l @ newline # unlines ls'" using less.prems(1) Cons by simp
    have b: "(buf @ concat inp) ! length l = newline" unfolding f by simp
    have bl: "length buf \<le> length l"
    proof (rule ccontr)
      assume "\<not> length buf \<le> length l"
      then have "buf ! length l = newline" "length l < length buf" using b by (simp_all add: nth_append)
      then show False using less.prems(3) nth_mem [of "length l" buf] by simp
    qed
    obtain d inp' where r: "read_chunk (1024 - length buf - 1) inp = (d, inp')" by (cases "read_chunk (1024 - length buf - 1) inp")
    note c = read_chunk_concat [OF r]
    have ne: "inp \<noteq> []" using less.prems(1,3) Cons by auto
    then have d: "d = take (1023 - length buf) (concat inp)" and i: "length inp' \<le> 1"
      using r less.prems(4) by (cases inp; auto split: if_splits)+
    have "(buf @ d) @ concat inp' = unlines ls" using c less.prems(1) by simp
    moreover have "\<forall>l \<in> set ls. newline \<notin> set l" using less.prems(2) by (auto simp: line_ok_def)
    ultimately obtain ls1 ls2 p where p: "ls = ls1 @ ls2" "buf @ d = unlines ls1 @ p" "newline \<notin> set p" "p @ concat inp' = unlines ls2"
      using unlines_prefix by blast
    have "newline \<in> set (buf @ d)"
    proof -
      have "buf @ d = take 1023 (l @ newline # unlines ls')"
        unfolding f [symmetric] using bl l d by simp
      then show ?thesis using l by (simp add: take_Cons')
    qed
    then have "ls1 \<noteq> []" using p(2,3) by auto
    then have pl: "length p < length (buf @ d)" unfolding p(2) by (cases ls1) simp_all
    have dn: "d \<noteq> []" using \<open>newline \<in> set (buf @ d)\<close> less.prems(3) by auto
    have gl: "grep_lines pat (buf @ d) = (map (\<lambda>l. l @ [newline]) (filter (match pat) ls1), p)"
      unfolding p(2) using less.prems(2) p(1,3) by (intro grep_lines_unlines) simp_all
    have "grep pat p inp' = map (\<lambda>l. l @ [newline]) (filter (match pat) ls2)"
      using less.prems(2) p i read_chunk_shrinks [OF r dn] by (intro less.hyps) simp_all
    then show ?thesis using r dn gl pl p(1) by (subst grep.simps) simp
  qed
qed

text \<open>C18. On a file whose lines all end in a newline, contain no NUL and fit the buffer, \<open>grep\<close> writes exactly the lines that
  match, whole and in order, however the buffer cuts the file.\<close>

theorem grep_selects_lines:
  assumes "\<forall>l \<in> set ls. line_ok l"
  shows "grep pat [] [unlines ls] = map (\<lambda>l. l @ [newline]) (filter (match pat) ls)"
  using assms by (intro grep_file) simp_all

theorem grep_selects_lines_witness:
  "grep [97] [] [[97, 98, newline, 99, newline, 97, newline]] = [[97, 98, newline], [97, newline]]"
proof -
  have "\<forall>l \<in> set [[97, 98], [99], [97]]. line_ok l" by (simp add: line_ok_def)
  moreover have "filter (match [97]) [[97, 98], [99], [97]] = [[97, 98], [97]]" by code_simp
  ultimately show ?thesis using grep_selects_lines [of "[[97, 98], [99], [97]]" "[97]"] by simp
qed

text \<open>When a \<open>read\<close> ends inside the first line of the buffer, as one from a pipe or the console may, \<open>grep\<close> forgets that
  part of the line: here no line \<open>ab\<close> is found although the input is \<open>ab\<close>.\<close>

theorem grep_loses_split_line:
  "grep (map of_char ''^ab'') [] [map of_char ''a'', map of_char ''b'' @ [newline]] = [] \<and>
   grep (map of_char ''^ab'') [] [map of_char ''ab'' @ [newline]] = [map of_char ''ab'' @ [newline]]"
  by code_simp

end
