(* ===== verification/Sh.thy ===== *)
theory Sh
  imports Ulib
begin

text \<open>
  The shell's command parser (\<open>sh.c\<close>, from \<open>execcmd\<close> on). A pointer into the command line is an offset; the line is the
  bytes before its NUL, and \<open>es\<close> is its length. A panic of the parser ends the shell's child and is a value here. Commands are
  a datatype with one constructor per \<open>struct\<close>: \<open>malloc\<close> is taken to succeed (the code does not check it).

  \<open>parseline\<close>, \<open>parsepipe\<close>, \<open>parseexec\<close> and \<open>parseblock\<close> call each other; they carry a bound on the depth of calls, and
  \<open>parsecmd\<close> starts with one that is always enough.
\<close>

section \<open>Commands\<close>

definition MAXARGS :: nat where "MAXARGS = 10"

text \<open>The modes the shell opens files with, \<open>O_RDONLY\<close> and \<open>O_WRONLY|O_CREATE\<close>.\<close>

abbreviation (input) mode_in :: nat where "mode_in \<equiv> 0x000"
abbreviation (input) mode_out :: nat where "mode_out \<equiv> 0x201"

text \<open>A word of the line: the offsets \<open>q\<close> and \<open>eq\<close> of its first byte and of the byte after its last.\<close>

type_synonym word_at = "nat \<times> nat"

datatype cmd =
    EXEC "word_at list"
  | REDIR cmd word_at nat nat
  | PIPE cmd cmd
  | LIST cmd cmd
  | BACK cmd

definition redircmd :: "cmd \<Rightarrow> word_at \<times> nat \<times> nat \<Rightarrow> cmd" where
  "redircmd subcmd = (\<lambda>(file, mode, fd). REDIR subcmd file mode fd)"

section \<open>Tokens\<close>

text \<open>\<open>at_pos\<close> reads a byte of the line; at its end there is the NUL.\<close>

definition at_pos :: "byte list \<Rightarrow> nat \<Rightarrow> byte" where
  "at_pos l s = (if s < length l then l ! s else 0)"

definition whitespace :: "byte list" where "whitespace = [32, 9, 13, 10, 11]"
definition symbols :: "byte list" where "symbols = [60, 124, 62, 38, 59, 40, 41]"

definition is_white :: "byte \<Rightarrow> bool" where "is_white c \<longleftrightarrow> strchr whitespace c \<noteq> None"
definition is_symbol :: "byte \<Rightarrow> bool" where "is_symbol c \<longleftrightarrow> strchr symbols c \<noteq> None"

text \<open>The loops of \<open>gettoken\<close>: over white space, and to the end of a word.\<close>

definition skip_white :: "byte list \<Rightarrow> nat \<Rightarrow> nat" where
  "skip_white l s = s + length (takeWhile is_white (drop s l))"

definition word_end :: "byte list \<Rightarrow> nat \<Rightarrow> nat" where
  "word_end l s = s + length (takeWhile (\<lambda>c. \<not> is_white c \<and> \<not> is_symbol c) (drop s l))"

text \<open>The token, its first and last offsets, and where to go on. The code of a token is its byte, 43 (\<open>+\<close>) for \<open>>>\<close>, 97 (\<open>a\<close>) for
  a word, 0 at the end.\<close>

definition gettoken :: "byte list \<Rightarrow> nat \<Rightarrow> byte \<times> word_at \<times> nat" where
  "gettoken l s = (let q = skip_white l s; c = at_pos l q;
     (ret, eq) =
       (if c = 0 then (0, q)
        else if c \<in> {124, 40, 41, 59, 38, 60} then (c, q + 1)
        else if c = 62 then (if at_pos l (q + 1) = 62 then (43, q + 2) else (c, q + 1))
        else (97, word_end l q))
     in (ret, (q, eq), skip_white l eq))"

definition peek :: "byte list \<Rightarrow> nat \<Rightarrow> byte list \<Rightarrow> nat \<times> bool" where
  "peek l s toks = (let s = skip_white l s; c = at_pos l s in (s, c \<noteq> 0 \<and> strchr toks c \<noteq> None))"

lemma whitespace_iff: "is_white c \<longleftrightarrow> c \<in> {32, 9, 13, 10, 11}"
  by (auto simp: is_white_def whitespace_def)

lemma symbols_iff: "is_symbol c \<longleftrightarrow> c \<in> {60, 124, 62, 38, 59, 40, 41}"
  by (auto simp: is_symbol_def symbols_def)

lemma strchr_iff: "0 \<notin> set xs \<Longrightarrow> strchr xs c \<noteq> None \<longleftrightarrow> c \<in> set xs"
  by (induction xs) auto

lemma skip_white_le: "s \<le> skip_white l s" "s \<le> length l \<Longrightarrow> skip_white l s \<le> length l"
proof -
  show "s \<le> skip_white l s" by (simp add: skip_white_def)
  have "length (takeWhile is_white (drop s l)) \<le> length (drop s l)" by (rule length_takeWhile_le)
  then show "s \<le> length l \<Longrightarrow> skip_white l s \<le> length l" by (simp add: skip_white_def)
qed

lemma word_end_le: "s \<le> word_end l s" "s \<le> length l \<Longrightarrow> word_end l s \<le> length l"
proof -
  show "s \<le> word_end l s" by (simp add: word_end_def)
  have "length (takeWhile (\<lambda>c. \<not> is_white c \<and> \<not> is_symbol c) (drop s l)) \<le> length (drop s l)" by (rule length_takeWhile_le)
  then show "s \<le> length l \<Longrightarrow> word_end l s \<le> length l" by (simp add: word_end_def)
qed

lemma at_pos_lt: "at_pos l s \<noteq> 0 \<Longrightarrow> s < length l"
  by (simp add: at_pos_def split: if_splits)

lemma peek_True:
  assumes "peek l s toks = (s', True)"
  shows "s' = skip_white l s" and "s' < length l" and "at_pos l s' \<noteq> 0" and "strchr toks (at_pos l s') \<noteq> None" and "s \<le> s'"
  using assms at_pos_lt skip_white_le(1) [of s l] by (auto simp: peek_def Let_def)

lemma peek_pos: "peek l s toks = (s', b) \<Longrightarrow> s' = skip_white l s"
  by (simp add: peek_def Let_def)

text \<open>A token that is not the end of the line takes at least one byte.\<close>

lemma gettoken_pos:
  assumes "gettoken l s = (tok, (q, eq), s')"
  shows "s \<le> s'" and "s \<le> length l \<Longrightarrow> s' \<le> length l" and "tok \<noteq> 0 \<Longrightarrow> s < s'"
proof -
  let ?q = "skip_white l s"
  note w = skip_white_le [of s l] skip_white_le [of eq l]
  have eq: "?q \<le> eq" and le: "s \<le> length l \<Longrightarrow> eq \<le> length l" and nz: "tok \<noteq> 0 \<Longrightarrow> ?q < eq"
  proof -
    let ?c = "at_pos l ?q"
    have c: "?c \<noteq> 0 \<Longrightarrow> ?q < length l" by (rule at_pos_lt)
    have word: "?q < word_end l ?q" if "?c \<noteq> 0" "?c \<notin> {124, 40, 41, 59, 38, 60, 62}"
    proof -
      have "drop ?q l = ?c # drop (Suc ?q) l" using c [OF that(1)] by (simp add: at_pos_def Cons_nth_drop_Suc)
      moreover have "\<not> is_white ?c"
        using c [OF that(1)] nth_length_takeWhile [of is_white "drop s l"] by (auto simp: skip_white_def at_pos_def)
      moreover have "\<not> is_symbol ?c" using that(2) by (simp add: symbols_iff)
      ultimately show ?thesis by (simp add: word_end_def)
    qed
    show "?q \<le> eq" using assms word_end_le(1) [of ?q l] by (auto simp: gettoken_def Let_def split: if_splits)
    show "tok \<noteq> 0 \<Longrightarrow> ?q < eq" using assms word by (auto simp: gettoken_def Let_def split: if_splits)
    show "s \<le> length l \<Longrightarrow> eq \<le> length l"
      using assms word_end_le(2) [of ?q l] w(2) c at_pos_lt [of l "?q + 1"] by (auto simp: gettoken_def Let_def split: if_splits)
  qed
  have s': "s' = skip_white l eq" using assms by (auto simp: gettoken_def Let_def split: if_splits)
  show "s \<le> s'" "tok \<noteq> 0 \<Longrightarrow> s < s'" using w(1,3) eq nz s' by auto
  show "s \<le> length l \<Longrightarrow> s' \<le> length l" using w(4) le s' by simp
qed

lemma gettoken_symbol: "at_pos l (skip_white l s) \<noteq> 0 \<Longrightarrow> fst (gettoken l s) \<noteq> 0"
  by (auto simp: gettoken_def Let_def)

lemma skip_white_idem [simp]: "skip_white l (skip_white l s) = skip_white l s"
proof -
  have "takeWhile P (drop (length (takeWhile P xs)) xs) = []" for P :: "byte \<Rightarrow> bool" and xs
    by (metis dropWhile_eq_drop hd_dropWhile takeWhile_eq_Nil_iff)
  from this [of is_white "drop s l"] show ?thesis by (simp add: skip_white_def ac_simps)
qed

section \<open>The parser\<close>

text \<open>What a parsing function leaves: its value and the offset it has come to; the message it panics with; or a call depth
  that was used up.\<close>

datatype 'a parse = Done 'a nat | Syntax string | Deep

fun andthen :: "'a parse \<Rightarrow> ('a \<Rightarrow> nat \<Rightarrow> 'b parse) \<Rightarrow> 'b parse" where
  "andthen (Done x s) f = f x s"
| "andthen (Syntax e) f = Syntax e"
| "andthen Deep f = Deep"

lemma redir_progress:
  assumes "peek l s toks = (s1, True)" and "gettoken l s1 = (tok, w, s2)" and "gettoken l s2 = (97, q, s3)"
  shows "length l - s3 < length l - s"
proof -
  obtain w1 w2 q1 q2 where wq: "w = (w1, w2)" "q = (q1, q2)" by (cases w, cases q) blast
  have "s1 < length l" "s \<le> s1" by (rule peek_True [OF assms(1)])+
  moreover have "s1 \<le> s2" by (rule gettoken_pos(1) [OF assms(2) [unfolded wq]])
  moreover have "s2 < s3" using gettoken_pos(3) [OF assms(3) [unfolded wq]] by simp
  ultimately show ?thesis by simp
qed

text \<open>The redirections at \<open>s\<close>, in order. The code wraps each of them around the command so far. In \<open>parseexec\<close> the innermost
  command is an \<open>execcmd\<close> that still gets arguments afterwards, so they are wrapped around it at the end.\<close>

function parseredirs :: "byte list \<Rightarrow> nat \<Rightarrow> (word_at \<times> nat \<times> nat) list parse" where
  "parseredirs l s = (case peek l s [60, 62] of (s, more) \<Rightarrow>
     if \<not> more then Done [] s
     else case gettoken l s of (tok, _, s) \<Rightarrow> (case gettoken l s of (tok2, file, s) \<Rightarrow>
       if tok2 \<noteq> 97 then Syntax ''missing file for redirection''
       else case parseredirs l s of
         Done rs s \<Rightarrow> Done ((file, if tok = 60 then (mode_in, 0) else (mode_out, 1)) # rs) s
       | Syntax e \<Rightarrow> Syntax e
       | Deep \<Rightarrow> Deep))"
  by pat_completeness auto
termination
  by (relation "measure (\<lambda>(l, s). length l - s)") (auto intro!: redir_progress [OF sym sym sym])

declare parseredirs.simps [simp del]

lemma parseredirs_pos:
  "parseredirs l s = Done rs s' \<Longrightarrow> s \<le> s' \<and> (s \<le> length l \<longrightarrow> s' \<le> length l)"
proof (induction l s arbitrary: rs s' rule: parseredirs.induct)
  case (1 l s)
  obtain s1 more where p: "peek l s [60, 62] = (s1, more)" by (cases "peek l s [60, 62]")
  have s1: "s \<le> s1" "s \<le> length l \<Longrightarrow> s1 \<le> length l" using peek_pos [OF p] skip_white_le [of s l] by simp_all
  show ?case
  proof (cases more)
    case False
    then show ?thesis using "1.prems" p s1 by (simp add: parseredirs.simps)
  next
    case True
    obtain tok q2 e2 s2 where g: "gettoken l s1 = (tok, (q2, e2), s2)" by (cases "gettoken l s1") auto
    obtain tok2 q3 e3 s3 where g2: "gettoken l s2 = (tok2, (q3, e3), s3)" by (cases "gettoken l s2") auto
    obtain rs1 where "tok2 = 97" and r: "parseredirs l s3 = Done rs1 s'"
      using "1.prems" p True g g2 by (subst (asm) parseredirs.simps) (auto split: parse.splits if_splits)
    then have "s3 \<le> s' \<and> (s3 \<le> length l \<longrightarrow> s' \<le> length l)" using "1.IH" [OF p [symmetric] _ g [symmetric] _ g2 [symmetric]] True by simp
    then show ?thesis using s1 gettoken_pos(1,2) [OF g] gettoken_pos(1,2) [OF g2] by auto
  qed
qed

function parseargs :: "byte list \<Rightarrow> word_at list \<Rightarrow> (word_at \<times> nat \<times> nat) list \<Rightarrow> nat \<Rightarrow>
    (word_at list \<times> (word_at \<times> nat \<times> nat) list) parse" where
  "parseargs l args rs s = (case peek l s [124, 41, 38, 59] of (s, stop) \<Rightarrow>
     if stop then Done (args, rs) s
     else case gettoken l s of (tok, word, s) \<Rightarrow>
       if tok = 0 then Done (args, rs) s
       else if tok \<noteq> 97 then Syntax ''syntax''
       else if length args + 1 \<ge> MAXARGS then Syntax ''too many args''
       else case parseredirs l s of
         Done rs' s \<Rightarrow> parseargs l (args @ [word]) (rs @ rs') s
       | Syntax e \<Rightarrow> Syntax e
       | Deep \<Rightarrow> Deep)"
  by pat_completeness auto
termination
  by (relation "measure (\<lambda>(l, args, rs, s). MAXARGS - length args)") auto

declare parseargs.simps [simp del]

text \<open>Taking a token that was seen.\<close>

lemma symbol_progress:
  assumes "peek l s toks = (s1, True)" and "gettoken l s1 = (tok, w, s2)"
  shows "s < s2 \<and> s < length l \<and> s2 \<le> length l"
proof -
  obtain q e where w: "w = (q, e)" by (cases w)
  note p = peek_True [OF assms(1)] and g = gettoken_pos [OF assms(2) [unfolded w]]
  have "tok \<noteq> 0" using gettoken_symbol [of l s1] p(1,3) assms(2) by simp
  then show ?thesis using p(2,5) g by simp
qed

text \<open>The loop of \<open>parseline\<close> over trailing \<open>&\<close>.\<close>

function parsebacks :: "byte list \<Rightarrow> cmd \<Rightarrow> nat \<Rightarrow> cmd \<times> nat" where
  "parsebacks l cmd s = (case peek l s [38] of (s, more) \<Rightarrow>
     if more then (case gettoken l s of (_, _, s) \<Rightarrow> parsebacks l (BACK cmd) s) else (cmd, s))"
  by pat_completeness auto
termination
  by (relation "measure (\<lambda>(l, cmd, s). length l - s)") (auto dest!: symbol_progress [OF sym sym])

declare parsebacks.simps [simp del]

fun parseline :: "nat \<Rightarrow> byte list \<Rightarrow> nat \<Rightarrow> cmd parse"
  and parsepipe :: "nat \<Rightarrow> byte list \<Rightarrow> nat \<Rightarrow> cmd parse"
  and parseblock :: "nat \<Rightarrow> byte list \<Rightarrow> nat \<Rightarrow> cmd parse"
  and parseexec :: "nat \<Rightarrow> byte list \<Rightarrow> nat \<Rightarrow> cmd parse" where
  "parseline 0 l s = Deep"
| "parseline (Suc n) l s =
     andthen (parsepipe n l s) (\<lambda>cmd s.
     case parsebacks l cmd s of (cmd, s) \<Rightarrow>
     case peek l s [59] of (s, more) \<Rightarrow>
     if more then case gettoken l s of (_, _, s) \<Rightarrow> andthen (parseline n l s) (\<lambda>right s. Done (LIST cmd right) s)
     else Done cmd s)"
| "parsepipe 0 l s = Deep"
| "parsepipe (Suc n) l s =
     andthen (parseexec n l s) (\<lambda>cmd s.
     case peek l s [124] of (s, more) \<Rightarrow>
     if more then case gettoken l s of (_, _, s) \<Rightarrow> andthen (parsepipe n l s) (\<lambda>right s. Done (PIPE cmd right) s)
     else Done cmd s)"
| "parseblock 0 l s = Deep"
| "parseblock (Suc n) l s = (case peek l s [40] of (s, opened) \<Rightarrow>
     if \<not> opened then Syntax ''parseblock''
     else case gettoken l s of (_, _, s) \<Rightarrow>
       andthen (parseline n l s) (\<lambda>cmd s.
       case peek l s [41] of (s, closed) \<Rightarrow>
       if \<not> closed then Syntax ''syntax - missing )''
       else case gettoken l s of (_, _, s) \<Rightarrow>
         andthen (parseredirs l s) (\<lambda>rs s. Done (foldl redircmd cmd rs) s)))"
| "parseexec 0 l s = Deep"
| "parseexec (Suc n) l s = (case peek l s [40] of (s, opened) \<Rightarrow>
     if opened then parseblock n l s
     else andthen (parseredirs l s) (\<lambda>rs s.
       andthen (parseargs l [] rs s) (\<lambda>(args, rs) s. Done (foldl redircmd (EXEC args) rs) s)))"

text \<open>\<open>nulterminate\<close> writes a NUL after every word of the command. The line with its NUL is an array.\<close>

fun nulterminate :: "cmd \<Rightarrow> byte list \<Rightarrow> byte list" where
  "nulterminate (EXEC args) b = foldl (\<lambda>b (q, eq). b[eq := 0]) b args"
| "nulterminate (REDIR c (q, eq) mode fd) b = (nulterminate c b)[eq := 0]"
| "nulterminate (PIPE c d) b = nulterminate d (nulterminate c b)"
| "nulterminate (LIST c d) b = nulterminate d (nulterminate c b)"
| "nulterminate (BACK c) b = nulterminate c b"

text \<open>The command, and the line as \<open>nulterminate\<close> leaves it; on what is left over the child panics.\<close>

definition parsecmd :: "byte list \<Rightarrow> (cmd \<times> byte list) parse" where
  "parsecmd l =
     andthen (parseline (4 * length l + 4) l 0) (\<lambda>cmd s.
     case peek l s [] of (s, _) \<Rightarrow>
     if s \<noteq> length l then Syntax ''syntax'' else Done (cmd, nulterminate cmd (l @ [0])) s)"

section \<open>Words\<close>

text \<open>A word of the line: its bytes are neither white space nor symbols, and what follows it is one of these or the end.\<close>

definition wordc :: "byte \<Rightarrow> bool" where
  "wordc c \<longleftrightarrow> \<not> is_white c \<and> \<not> is_symbol c"

definition word_ok :: "byte list \<Rightarrow> word_at \<Rightarrow> bool" where
  "word_ok l = (\<lambda>(q, e). q < e \<and> e \<le> length l \<and> (\<forall>i. q \<le> i \<and> i < e \<longrightarrow> wordc (l ! i)) \<and>
     (e < length l \<longrightarrow> \<not> wordc (l ! e)))"

fun cmd_ok :: "byte list \<Rightarrow> cmd \<Rightarrow> bool" where
  "cmd_ok l (EXEC args) \<longleftrightarrow> length args < MAXARGS \<and> (\<forall>w \<in> set args. word_ok l w)"
| "cmd_ok l (REDIR c w mode fd) \<longleftrightarrow> cmd_ok l c \<and> word_ok l w \<and> (mode, fd) \<in> {(mode_in, 0), (mode_out, 1)}"
| "cmd_ok l (PIPE c d) \<longleftrightarrow> cmd_ok l c \<and> cmd_ok l d"
| "cmd_ok l (LIST c d) \<longleftrightarrow> cmd_ok l c \<and> cmd_ok l d"
| "cmd_ok l (BACK c) \<longleftrightarrow> cmd_ok l c"

lemma gettoken_word:
  assumes "gettoken l s = (97, w, s')" and "s \<le> length l"
  shows "word_ok l w"
proof -
  let ?q = "skip_white l s" and ?P = "\<lambda>c. \<not> is_white c \<and> \<not> is_symbol c"
  have w: "w = (?q, word_end l ?q)" and c: "at_pos l ?q \<noteq> 0" using assms(1) by (auto simp: gettoken_def Let_def split: if_splits)
  obtain q e where qe: "w = (q, e)" by (cases w)
  have "?q < word_end l ?q"
  proof -
    have "at_pos l ?q \<notin> {124, 40, 41, 59, 38, 60, 62}" using assms(1) by (auto simp: gettoken_def Let_def split: if_splits)
    moreover have "\<not> is_white (at_pos l ?q)"
      using at_pos_lt [OF c] nth_length_takeWhile [of is_white "drop s l"] by (auto simp: skip_white_def at_pos_def)
    moreover have "drop ?q l = at_pos l ?q # drop (Suc ?q) l" using at_pos_lt [OF c] by (simp add: at_pos_def Cons_nth_drop_Suc)
    ultimately show ?thesis by (simp add: word_end_def symbols_iff)
  qed
  moreover have "word_end l ?q \<le> length l" using word_end_le(2) [of ?q l] at_pos_lt [OF c] by simp
  moreover have "wordc (l ! i)" if "?q \<le> i" "i < word_end l ?q" for i
  proof -
    have "i - ?q < length (takeWhile ?P (drop ?q l))" using that by (simp add: word_end_def)
    then have "takeWhile ?P (drop ?q l) ! (i - ?q) \<in> set (takeWhile ?P (drop ?q l))" by simp
    then have "?P (takeWhile ?P (drop ?q l) ! (i - ?q))" by (metis (mono_tags, lifting) set_takeWhileD)
    moreover have "takeWhile ?P (drop ?q l) ! (i - ?q) = l ! i"
      using that takeWhile_nth [of "i - ?q" ?P "drop ?q l"] at_pos_lt [OF c] by (simp add: word_end_def)
    ultimately show ?thesis by (simp add: wordc_def)
  qed
  moreover have "\<not> wordc (l ! word_end l ?q)" if "word_end l ?q < length l"
    using that nth_length_takeWhile [of ?P "drop ?q l"] by (auto simp: word_end_def wordc_def)
  ultimately show ?thesis by (auto simp: w word_ok_def)
qed

abbreviation redirs_ok :: "byte list \<Rightarrow> (word_at \<times> nat \<times> nat) list \<Rightarrow> bool" where
  "redirs_ok l rs \<equiv> \<forall>(w, m) \<in> set rs. word_ok l w \<and> m \<in> {(mode_in, 0), (mode_out, 1)}"

lemma cmd_ok_redirs: "cmd_ok l c \<Longrightarrow> redirs_ok l rs \<Longrightarrow> cmd_ok l (foldl redircmd c rs)"
  by (induction rs arbitrary: c) (auto simp: redircmd_def)

text \<open>What the parser promises of a result, when it started at \<open>s\<close>.\<close>

definition parsed :: "byte list \<Rightarrow> nat \<Rightarrow> ('a \<Rightarrow> bool) \<Rightarrow> 'a parse \<Rightarrow> bool" where
  "parsed l s P r \<longleftrightarrow> (case r of Done x s' \<Rightarrow> s \<le> s' \<and> s' \<le> length l \<and> P x | Syntax _ \<Rightarrow> True | Deep \<Rightarrow> False)"

lemma parsed_simps [simp]: "parsed l s P (Done x s') \<longleftrightarrow> s \<le> s' \<and> s' \<le> length l \<and> P x" "parsed l s P (Syntax e)" "\<not> parsed l s P Deep"
  by (simp_all add: parsed_def)

lemma parsed_andthen:
  assumes "parsed l s P r" and "\<And>x s'. s \<le> s' \<Longrightarrow> s' \<le> length l \<Longrightarrow> P x \<Longrightarrow> parsed l s Q (f x s')"
  shows "parsed l s Q (andthen r f)"
  using assms by (cases r) auto

lemma parsed_mono: "parsed l s' P r \<Longrightarrow> s \<le> s' \<Longrightarrow> parsed l s P r"
  by (cases r) auto

lemma peek_le: "peek l s toks = (s1, b) \<Longrightarrow> s \<le> length l \<Longrightarrow> s \<le> s1 \<and> s1 \<le> length l"
  using peek_pos [of l s toks s1 b] skip_white_le [of s l] by simp

lemma parseredirs_parsed: "s \<le> length l \<Longrightarrow> parsed l s (redirs_ok l) (parseredirs l s)"
proof (induction l s rule: parseredirs.induct)
  case (1 l s)
  obtain s1 more where p: "peek l s [60, 62] = (s1, more)" by (cases "peek l s [60, 62]")
  note s1 = peek_le [OF p "1.prems"]
  show ?case
  proof (cases more)
    case False
    then show ?thesis using p s1 by (simp add: parseredirs.simps)
  next
    case True
    obtain tok w s2 where g: "gettoken l s1 = (tok, w, s2)" by (cases "gettoken l s1") auto
    obtain tok2 w2 s3 where g2: "gettoken l s2 = (tok2, w2, s3)" by (cases "gettoken l s2") auto
    show ?thesis
    proof (cases "tok2 = 97")
      case False
      then show ?thesis using p True g g2 by (subst parseredirs.simps) simp
    next
      case t: True
      have s2: "s1 \<le> s2" "s2 \<le> length l" using gettoken_pos(1,2) [of l s1 tok "fst w" "snd w" s2] g s1 by simp_all
      have s3: "s2 \<le> s3" "s3 \<le> length l" using gettoken_pos(1,2) [of l s2 tok2 "fst w2" "snd w2" s3] g2 s2 by simp_all
      have "parsed l s3 (redirs_ok l) (parseredirs l s3)"
        using "1.IH" [OF p [symmetric] _ g [symmetric] _ g2 [symmetric]] True t s3 by simp
      moreover have "word_ok l w2" using gettoken_word [of l s2 w2 s3] g2 t s2 by simp
      ultimately show ?thesis using p True g g2 t s1 s2 s3 by (subst parseredirs.simps) (auto split: parse.split)
    qed
  qed
qed

lemma parseargs_parsed:
  "s \<le> length l \<Longrightarrow> length args < MAXARGS \<Longrightarrow> \<forall>w \<in> set args. word_ok l w \<Longrightarrow> redirs_ok l rs \<Longrightarrow>
   parsed l s (\<lambda>(args, rs). length args < MAXARGS \<and> (\<forall>w \<in> set args. word_ok l w) \<and> redirs_ok l rs) (parseargs l args rs s)"
proof (induction l args rs s rule: parseargs.induct)
  case (1 l args rs s)
  obtain s1 stop where p: "peek l s [124, 41, 38, 59] = (s1, stop)" by (cases "peek l s [124, 41, 38, 59]")
  note s1 = peek_le [OF p "1.prems"(1)]
  obtain tok w s2 where g: "gettoken l s1 = (tok, w, s2)" by (cases "gettoken l s1") auto
  have s2: "s1 \<le> s2" "s2 \<le> length l" using gettoken_pos(1,2) [of l s1 tok "fst w" "snd w" s2] g s1 by simp_all
  show ?case
  proof (cases "\<not> stop \<and> tok = 97 \<and> length args + 1 < MAXARGS")
    case False
    then show ?thesis using p g "1.prems" s1 s2 by (subst parseargs.simps) auto
  next
    case True
    have w: "word_ok l w" using gettoken_word [of l s1 w s2] g True s1 by simp
    note r = parseredirs_parsed [OF s2(2)]
    show ?thesis
    proof (cases "parseredirs l s2")
      case (Done rs' s3)
      then have "s2 \<le> s3" "s3 \<le> length l" "redirs_ok l rs'" using r by simp_all
      then have "parsed l s3 (\<lambda>(args, rs). length args < MAXARGS \<and> (\<forall>w \<in> set args. word_ok l w) \<and> redirs_ok l rs)
          (parseargs l (args @ [w]) (rs @ rs') s3)"
        using "1.IH" [OF p [symmetric] _ g [symmetric] _ _ _ _ Done] True w "1.prems" by (simp add: ball_Un)
      then have "parsed l s (\<lambda>(args, rs). length args < MAXARGS \<and> (\<forall>w \<in> set args. word_ok l w) \<and> redirs_ok l rs)
          (parseargs l (args @ [w]) (rs @ rs') s3)" by (rule parsed_mono) (use s1 s2 \<open>s2 \<le> s3\<close> in simp)
      then show ?thesis using p g True Done by (subst parseargs.simps) simp
    qed (use r p g True in \<open>simp_all add: parseargs.simps\<close>)
  qed
qed

lemma parsebacks_parsed:
  "parsebacks l c s = (c', s') \<Longrightarrow> s \<le> length l \<Longrightarrow> cmd_ok l c \<Longrightarrow> s \<le> s' \<and> s' \<le> length l \<and> cmd_ok l c'"
proof (induction l c s rule: parsebacks.induct)
  case (1 l c s)
  obtain s1 more where p: "peek l s [38] = (s1, more)" by (cases "peek l s [38]")
  obtain tok w s2 where g: "gettoken l s1 = (tok, w, s2)" by (cases "gettoken l s1") auto
  show ?case
  proof (cases more)
    case True
    then have "s < s2" "s2 \<le> length l" using symbol_progress [of l s "[38]" s1 tok w s2] p g by simp_all
    moreover have "parsebacks l (BACK c) s2 = (c', s')" using "1.prems"(1) p g True by (simp add: parsebacks.simps [of l c s])
    ultimately show ?thesis using "1.IH" [OF p [symmetric] _ g [symmetric]] True "1.prems" by fastforce
  next
    case False
    then show ?thesis using "1.prems" p peek_le [OF p "1.prems"(2)] by (simp add: parsebacks.simps)
  qed
qed

text \<open>The depth that a call at offset \<open>s\<close> may need: every fourth call takes a byte of the line.\<close>

lemma parser_parsed:
  "s \<le> length l \<Longrightarrow> 4 * (length l - s) + 4 \<le> n \<Longrightarrow> parsed l s (cmd_ok l) (parseline n l s)"
  "s \<le> length l \<Longrightarrow> 4 * (length l - s) + 3 \<le> n \<Longrightarrow> parsed l s (cmd_ok l) (parsepipe n l s)"
  "s \<le> length l \<Longrightarrow> 4 * (length l - s) + 1 \<le> n \<Longrightarrow> parsed l s (cmd_ok l) (parseblock n l s)"
  "s \<le> length l \<Longrightarrow> 4 * (length l - s) + 2 \<le> n \<Longrightarrow> parsed l s (cmd_ok l) (parseexec n l s)"
proof (induction n l s and n l s and n l s and n l s rule: parseline_parsepipe_parseblock_parseexec.induct)
  case (2 n l s)
  show ?case unfolding parseline.simps
  proof (rule parsed_andthen [OF "2.IH"(1)])
    fix c s' assume c: "s \<le> s'" "s' \<le> length l" "cmd_ok l c"
    obtain c1 s1 where b: "parsebacks l c s' = (c1, s1)" by (cases "parsebacks l c s'")
    note b' = parsebacks_parsed [OF b c(2,3)]
    obtain s2 more where p: "peek l s1 [59] = (s2, more)" by (cases "peek l s1 [59]")
    obtain tok w s3 where g: "gettoken l s2 = (tok, w, s3)" by (cases "gettoken l s2") auto
    have "parsed l s (cmd_ok l) (andthen (parseline n l s3) (\<lambda>right s. Done (LIST c1 right) s))" if more
    proof -
      have s3: "s1 < s3" "s3 \<le> length l" using symbol_progress [of l s1 "[59]" s2 tok w s3] p g that by simp_all
      then have "4 * (length l - s3) + 4 \<le> n" using "2.prems" c b' by arith
      with s3 have "parsed l s3 (cmd_ok l) (parseline n l s3)"
        using "2.IH"(2) [OF b [symmetric] p [symmetric] that g [symmetric]] "2.prems" c b' by simp
      then have "parsed l s (cmd_ok l) (parseline n l s3)" by (rule parsed_mono) (use s3 c b' in simp)
      then show ?thesis by (rule parsed_andthen) (use b' in simp)
    qed
    then show "parsed l s (cmd_ok l) (case parsebacks l c s' of (cmd, s) \<Rightarrow> case peek l s [59] of (s, more) \<Rightarrow>
        if more then case gettoken l s of (_, _, s) \<Rightarrow> andthen (parseline n l s) (\<lambda>right s. Done (LIST cmd right) s)
        else Done cmd s)" using b b' c p g peek_le [OF p] by simp
  qed (use "2.prems" in simp_all)
next
  case (4 n l s)
  show ?case unfolding parsepipe.simps
  proof (rule parsed_andthen [OF "4.IH"(1)])
    fix c s' assume c: "s \<le> s'" "s' \<le> length l" "cmd_ok l c"
    obtain s2 more where p: "peek l s' [124] = (s2, more)" by (cases "peek l s' [124]")
    obtain tok w s3 where g: "gettoken l s2 = (tok, w, s3)" by (cases "gettoken l s2") auto
    have "parsed l s (cmd_ok l) (andthen (parsepipe n l s3) (\<lambda>right s. Done (PIPE c right) s))" if more
    proof -
      have s3: "s' < s3" "s3 \<le> length l" using symbol_progress [of l s' "[124]" s2 tok w s3] p g that by simp_all
      then have "4 * (length l - s3) + 3 \<le> n" using "4.prems" c by arith
      with s3 have "parsed l s3 (cmd_ok l) (parsepipe n l s3)"
        using "4.IH"(2) [OF p [symmetric] that g [symmetric]] "4.prems" c by simp
      then have "parsed l s (cmd_ok l) (parsepipe n l s3)" by (rule parsed_mono) (use s3 c in simp)
      then show ?thesis by (rule parsed_andthen) (use c in simp)
    qed
    then show "parsed l s (cmd_ok l) (case peek l s' [124] of (s, more) \<Rightarrow>
        if more then case gettoken l s of (_, _, s) \<Rightarrow> andthen (parsepipe n l s) (\<lambda>right s. Done (PIPE c right) s)
        else Done c s)" using c p g peek_le [OF p c(2)] by simp
  qed (use "4.prems" in simp_all)
next
  case (6 n l s)
  obtain s1 opened where p: "peek l s [40] = (s1, opened)" by (cases "peek l s [40]")
  obtain tok w s2 where g: "gettoken l s1 = (tok, w, s2)" by (cases "gettoken l s1") auto
  have "parsed l s (cmd_ok l) (andthen (parseline n l s2) (\<lambda>cmd s. case peek l s [41] of (s, closed) \<Rightarrow>
       if \<not> closed then Syntax ''syntax - missing )''
       else case gettoken l s of (_, _, s) \<Rightarrow> andthen (parseredirs l s) (\<lambda>rs s. Done (foldl redircmd cmd rs) s)))" if opened
  proof (rule parsed_andthen)
    have s2: "s < s2" "s < length l" "s2 \<le> length l" using symbol_progress [of l s "[40]" s1 tok w s2] p g that by simp_all
    then have "4 * (length l - s2) + 4 \<le> n" using "6.prems" by arith
    with s2 have "parsed l s2 (cmd_ok l) (parseline n l s2)"
      using "6.IH" [OF p [symmetric] _ g [symmetric]] that "6.prems" by simp
    then show "parsed l s (cmd_ok l) (parseline n l s2)" by (rule parsed_mono) (use s2 in simp)
    fix c s' assume c: "s \<le> s'" "s' \<le> length l" "cmd_ok l c"
    obtain s3 closed where q: "peek l s' [41] = (s3, closed)" by (cases "peek l s' [41]")
    obtain tok2 w2 s4 where h: "gettoken l s3 = (tok2, w2, s4)" by (cases "gettoken l s3") auto
    have "parsed l s (cmd_ok l) (andthen (parseredirs l s4) (\<lambda>rs s. Done (foldl redircmd c rs) s))" if closed
    proof (rule parsed_andthen)
      have s4: "s' < s4" "s4 \<le> length l" using symbol_progress [of l s' "[41]" s3 tok2 w2 s4] q h that by simp_all
      show "parsed l s (redirs_ok l) (parseredirs l s4)" by (rule parsed_mono [OF parseredirs_parsed]) (use s4 c in simp_all)
    qed (simp add: cmd_ok_redirs [OF c(3)])
    then show "parsed l s (cmd_ok l) (case peek l s' [41] of (s, closed) \<Rightarrow> if \<not> closed then Syntax ''syntax - missing )''
       else case gettoken l s of (_, _, s) \<Rightarrow> andthen (parseredirs l s) (\<lambda>rs s. Done (foldl redircmd c rs) s))"
      using q h by simp
  qed
  then show ?case using p g by simp
next
  case (8 n l s)
  obtain s1 opened where p: "peek l s [40] = (s1, opened)" by (cases "peek l s [40]")
  note s1 = peek_le [OF p "8.prems"(1)]
  have "parsed l s (cmd_ok l) (parseblock n l s1)" if opened
  proof -
    have "4 * (length l - s1) + 1 \<le> n" using s1 "8.prems" by arith
    then have "parsed l s1 (cmd_ok l) (parseblock n l s1)" using "8.IH" [OF p [symmetric] that] s1 "8.prems" by simp
    then show ?thesis by (rule parsed_mono) (use s1 in simp)
  qed
  moreover have "parsed l s (cmd_ok l) (andthen (parseredirs l s1) (\<lambda>rs s.
       andthen (parseargs l [] rs s) (\<lambda>(args, rs) s. Done (foldl redircmd (EXEC args) rs) s)))"
  proof (rule parsed_andthen)
    show "parsed l s (redirs_ok l) (parseredirs l s1)" by (rule parsed_mono [OF parseredirs_parsed]) (use s1 in simp_all)
    fix rs s' assume r: "s \<le> s'" "s' \<le> length l" "redirs_ok l rs"
    have "parsed l s (\<lambda>(args, rs). length args < MAXARGS \<and> (\<forall>w \<in> set args. word_ok l w) \<and> redirs_ok l rs) (parseargs l [] rs s')"
      by (rule parsed_mono [OF parseargs_parsed]) (use r in \<open>simp_all add: MAXARGS_def\<close>)
    then show "parsed l s (cmd_ok l) (andthen (parseargs l [] rs s') (\<lambda>(args, rs) s. Done (foldl redircmd (EXEC args) rs) s))"
      by (rule parsed_andthen) (clarsimp, rule cmd_ok_redirs, simp_all)
  qed
  ultimately show ?case using p by simp
qed simp_all

section \<open>The words of a command as strings\<close>

fun words :: "cmd \<Rightarrow> word_at list" where
  "words (EXEC args) = args"
| "words (REDIR c w mode fd) = words c @ [w]"
| "words (PIPE c d) = words c @ words d"
| "words (LIST c d) = words c @ words d"
| "words (BACK c) = words c"

text \<open>The C string at offset \<open>q\<close> of a buffer.\<close>

definition cstring_at :: "byte list \<Rightarrow> nat \<Rightarrow> byte list" where
  "cstring_at b q = takeWhile (\<lambda>c. c \<noteq> 0) (drop q b)"

lemma nulterminate_length [simp]: "length (nulterminate c b) = length b"
proof (induction c arbitrary: b)
  case (EXEC args)
  then show ?case by (induction args arbitrary: b) auto
next
  case (REDIR c w mode fd)
  then show ?case by (cases w) simp
qed simp_all

lemma nulterminate_nth:
  "i < length b \<Longrightarrow> nulterminate c b ! i = (if i \<in> snd ` set (words c) then 0 else b ! i)"
proof (induction c arbitrary: b)
  case (EXEC args)
  then show ?case by (induction args arbitrary: b) (auto simp: nth_list_update image_iff split: prod.splits)
next
  case (REDIR c w mode fd)
  obtain q e where "w = (q, e)" by (cases w)
  then show ?case using REDIR.prems REDIR.IH [OF REDIR.prems] by (cases "e = i") simp_all
qed auto

lemma cmd_ok_words: "cmd_ok l c \<Longrightarrow> w \<in> set (words c) \<Longrightarrow> word_ok l w"
  by (induction c) auto

text \<open>No NUL lands inside a word, and every word gets one after it.\<close>

lemma nulterminate_word:
  assumes "cmd_ok l c" and "(q, e) \<in> set (words c)" and "0 \<notin> set l"
  shows "cstring_at (nulterminate c (l @ [0])) q = take (e - q) (drop q l)"
proof -
  let ?b = "nulterminate c (l @ [0])"
  have w: "q < e" "e \<le> length l" "\<And>i. q \<le> i \<Longrightarrow> i < e \<Longrightarrow> wordc (l ! i)" using cmd_ok_words [OF assms(1,2)] by (auto simp: word_ok_def)
  have in_word: "?b ! i = l ! i" if "q \<le> i" "i < e" for i
  proof -
    have "i \<notin> snd ` set (words c)"
    proof
      assume "i \<in> snd ` set (words c)"
      then obtain q' where "(q', i) \<in> set (words c)" by auto
      then show False using cmd_ok_words [OF assms(1)] w that by (fastforce simp: word_ok_def)
    qed
    then show ?thesis using that w by (simp add: nulterminate_nth nth_append)
  qed
  have "?b ! e = 0" using assms(2) w by (simp add: nulterminate_nth rev_image_eqI)
  then have "drop q ?b = take (e - q) (drop q l) @ 0 # drop (Suc e) ?b"
  proof -
    have "drop q ?b = take (e - q) (drop q ?b) @ drop e ?b"
      using w append_take_drop_id [of "e - q" "drop q ?b"] by simp
    moreover have "take (e - q) (drop q ?b) = take (e - q) (drop q l)"
      using w in_word by (intro nth_equalityI) simp_all
    moreover have "drop e ?b = 0 # drop (Suc e) ?b" using w \<open>?b ! e = 0\<close> by (metis Cons_nth_drop_Suc length_append_singleton less_Suc_eq_le nulterminate_length)
    ultimately show ?thesis by simp
  qed
  moreover have "\<forall>x \<in> set (take (e - q) (drop q l)). x \<noteq> 0" using assms(3) by (metis in_set_dropD in_set_takeD)
  ultimately show ?thesis by (simp add: cstring_at_def)
qed

lemma parsecmd_ok:
  assumes "parsecmd l = Done (c, b) s"
  shows "cmd_ok l c" and "b = nulterminate c (l @ [0])"
proof -
  have "parsed l 0 (cmd_ok l) (parseline (4 * length l + 4) l 0)" by (rule parser_parsed) simp_all
  then show "cmd_ok l c" "b = nulterminate c (l @ [0])"
    using assms by (cases "parseline (4 * length l + 4) l 0"; auto simp: parsecmd_def split: prod.splits if_splits)+
qed

text \<open>C19. Parsing ends for every command line: the parser returns a command or panics with a message, and never uses up the
  depth it starts with.\<close>

theorem parsecmd_terminates: "parsecmd l \<noteq> Deep"
proof -
  have "parsed l 0 (cmd_ok l) (parseline (4 * length l + 4) l 0)" by (rule parser_parsed) simp_all
  then show ?thesis by (cases "parseline (4 * length l + 4) l 0") (auto simp: parsecmd_def split: prod.split)
qed



end
