(* ===== verification/Sh_Run.thy ===== *)
theory Sh_Run
  imports Sh
begin

text \<open>
  Running commands (\<open>sh.c\<close>, \<open>runcmd\<close> to \<open>fork1\<close>). A process is what it does next: exit, or a system call and what follows each
  answer to it. After \<open>Fork\<close> the child goes on with the answer 0 and the parent with the child's pid. The second part runs such a
  process against descriptor tables and shows how the shell wires up the programs it starts.
\<close>

section \<open>The shell as a process\<close>

datatype call =
    Close nat
  | Dup nat
  | Open word_at nat
  | Fork
  | Wait
  | Exec "word_at list"
  | Chdir "byte list"
  | Print string

datatype prog =
    Exit
  | Call call "int \<Rightarrow> prog"
  | MkPipe "int \<Rightarrow> nat \<Rightarrow> nat \<Rightarrow> prog"

abbreviation next_call :: "call \<Rightarrow> prog \<Rightarrow> prog" where
  "next_call c p \<equiv> Call c (\<lambda>_. p)"

definition sh_panic :: "string \<Rightarrow> prog" where
  "sh_panic e = next_call (Print e) Exit"

definition fork1 :: "(int \<Rightarrow> prog) \<Rightarrow> prog" where
  "fork1 k = Call Fork (\<lambda>pid. if pid = -1 then sh_panic ''fork'' else k pid)"

text \<open>\<open>runcmd\<close> never returns: every path ends in \<open>exit\<close>.\<close>

fun runcmd :: "cmd \<Rightarrow> prog" where
  "runcmd (EXEC argv) =
     (if argv = [] then Exit
      else next_call (Exec argv) (next_call (Print ''exec failed'') Exit))"
| "runcmd (REDIR cmd file mode fd) =
     next_call (Close fd) (
     Call (Open file mode) (\<lambda>r. if r < 0 then next_call (Print ''open failed'') Exit else runcmd cmd))"
| "runcmd (LIST left right) =
     fork1 (\<lambda>pid. if pid = 0 then runcmd left
       else next_call Wait (runcmd right))"
| "runcmd (PIPE left right) =
     MkPipe (\<lambda>r p0 p1. if r < 0 then sh_panic ''pipe''
       else fork1 (\<lambda>pid.
         if pid = 0 then
           next_call (Close 1) (next_call (Dup p1) (next_call (Close p0) (next_call (Close p1) (runcmd left))))
         else fork1 (\<lambda>pid.
           if pid = 0 then
             next_call (Close 0) (next_call (Dup p0) (next_call (Close p0) (next_call (Close p1) (runcmd right))))
           else
             next_call (Close p0) (next_call (Close p1) (next_call Wait (next_call Wait Exit))))))"
| "runcmd (BACK cmd) = fork1 (\<lambda>pid. if pid = 0 then runcmd cmd else Exit)"

text \<open>\<open>getcmd\<close>: a line of at most 99 bytes, as the C string left in the zeroed buffer; \<open>None\<close> at the end of the input.\<close>

definition getcmd :: "chunks \<Rightarrow> byte list option \<times> chunks" where
  "getcmd inp = (case gets_line 100 inp of (s, inp') \<Rightarrow>
     let line = takeWhile (\<lambda>c. c \<noteq> 0) s in (if line = [] then None else Some line, inp'))"

text \<open>The loop of \<open>main\<close>. The child parses the line, so that a syntax error ends the child only.\<close>

lemma gets_loop_shrinks: "gets_loop n inp = (s, inp') \<Longrightarrow> s \<noteq> [] \<Longrightarrow> length (concat inp') < length (concat inp)"
proof (induction n arbitrary: inp s inp')
  case (Suc n)
  obtain d inp1 where r: "read_chunk 1 inp = (d, inp1)" by (cases "read_chunk 1 inp")
  show ?case
  proof (cases d)
    case Nil
    then show ?thesis using Suc.prems r by simp
  next
    case (Cons c cs)
    then have lt: "length (concat inp1) < length (concat inp)" using read_chunk_shrinks [OF r] by simp
    obtain s2 inp2 where g: "gets_loop n inp1 = (s2, inp2)" by (cases "gets_loop n inp1")
    have "length (concat inp2) \<le> length (concat inp1)"
    proof (cases s2)
      case Nil
      then have "concat inp1 = concat inp2 \<or> length (concat inp2) \<le> length (concat inp1)"
        using g read_chunk_concat by (cases n) (auto split: prod.splits list.splits if_splits)
      then show ?thesis by auto
    qed (use Suc.IH [OF g] in simp)
    then show ?thesis using Suc.prems(1) r Cons lt g by (auto split: if_splits)
  qed
qed simp

lemma getcmd_shrinks: "getcmd inp = (Some line, inp') \<Longrightarrow> length (concat inp') < length (concat inp)"
  by (auto simp: getcmd_def gets_line_def Let_def split: prod.splits if_splits intro!: gets_loop_shrinks)

function sh_main :: "chunks \<Rightarrow> prog" where
  "sh_main inp = (case getcmd inp of
     (None, _) \<Rightarrow> Exit
   | (Some line, inp') \<Rightarrow>
       if take 3 line = [99, 100, 32] then
         Call (Chdir (drop 3 (butlast line))) (\<lambda>r.
           if r < 0 then next_call (Print ''cannot cd'') (sh_main inp') else sh_main inp')
       else
         fork1 (\<lambda>pid. if pid = 0 then
             (case parsecmd line of Done (cmd, _) _ \<Rightarrow> runcmd cmd | Syntax e \<Rightarrow> sh_panic e | Deep \<Rightarrow> Exit)
           else next_call Wait (sh_main inp')))"
  by pat_completeness auto
termination
  by (relation "measure (\<lambda>inp. length (concat inp))") (auto intro!: getcmd_shrinks [OF sym])

declare sh_main.simps [simp del]

section \<open>Descriptors\<close>

text \<open>What a descriptor refers to. A pipe is named by the branches taken at the forks before it was made.\<close>

datatype obj = Console | File word_at nat | Read_end "nat list" | Write_end "nat list"

type_synonym fdtab = "nat \<Rightarrow> obj option"

definition lowest :: "fdtab \<Rightarrow> nat" where
  "lowest t = (case find (\<lambda>i. t i = None) [0..<16] of Some i \<Rightarrow> i | None \<Rightarrow> 16)"

text \<open>The programs a process and its children start with \<open>exec\<close>, with their descriptors, when every call succeeds: a new
  descriptor is the lowest free one, a child starts with its parent's table.\<close>

primrec run :: "prog \<Rightarrow> nat list \<Rightarrow> fdtab \<Rightarrow> (word_at list \<times> fdtab) list" where
  "run Exit path t = []"
| "run (Call c k) path t = (case c of
     Close fd \<Rightarrow> run (k 0) path (t(fd := None))
   | Dup fd \<Rightarrow> run (k (int (lowest t))) path (t(lowest t := t fd))
   | Open file mode \<Rightarrow> run (k (int (lowest t))) path (t(lowest t \<mapsto> File file mode))
   | Fork \<Rightarrow> run (k 0) (path @ [0]) t @ run (k 1) (path @ [1]) t
   | Wait \<Rightarrow> run (k 1) path t
   | Exec argv \<Rightarrow> [(argv, t)]
   | Chdir d \<Rightarrow> run (k 0) path t
   | Print e \<Rightarrow> run (k 0) path t)"
| "run (MkPipe k) path t =
     (let p0 = lowest t; t1 = t(p0 \<mapsto> Read_end path); p1 = lowest t1
      in run (k 0 p0 p1) path (t1(p1 \<mapsto> Write_end path)))"

text \<open>What a command line means.\<close>

fun wired :: "cmd \<Rightarrow> nat list \<Rightarrow> fdtab \<Rightarrow> (word_at list \<times> fdtab) list" where
  "wired (EXEC argv) path t = (if argv = [] then [] else [(argv, t)])"
| "wired (REDIR c file mode fd) path t = wired c path (t(fd \<mapsto> File file mode))"
| "wired (LIST c d) path t = wired c (path @ [0]) t @ wired d (path @ [1]) t"
| "wired (PIPE c d) path t =
     wired c (path @ [0]) (t(1 \<mapsto> Write_end path)) @ wired d (path @ [1, 0]) (t(0 \<mapsto> Read_end path))"
| "wired (BACK c) path t = wired c (path @ [0]) t"

lemma upt16: "[0..<16] = [0, 1, 2, 3, 4, 5, 6, 7, 8, 9, 10, 11, 12, 13, 14, 15 :: nat]"
  by code_simp

lemma lowest_eqs:
  "t 0 = None \<Longrightarrow> lowest t = 0"
  "t 0 \<noteq> None \<Longrightarrow> t 1 = None \<Longrightarrow> lowest t = 1"
  "t 0 \<noteq> None \<Longrightarrow> t 1 \<noteq> None \<Longrightarrow> t 2 \<noteq> None \<Longrightarrow> t 3 = None \<Longrightarrow> lowest t = 3"
  "t 0 \<noteq> None \<Longrightarrow> t 1 \<noteq> None \<Longrightarrow> t 2 \<noteq> None \<Longrightarrow> t 3 \<noteq> None \<Longrightarrow> t 4 = None \<Longrightarrow> lowest t = 4"
  by (simp_all add: lowest_def upt16)

text \<open>Just the standard descriptors are open.\<close>

definition std :: "fdtab \<Rightarrow> bool" where
  "std t \<longleftrightarrow> dom t = {0, 1, 2}"

lemma std_upd: "std t \<Longrightarrow> fd = 0 \<or> fd = 1 \<Longrightarrow> std (t(fd \<mapsto> x))"
  by (auto simp: std_def)

lemma std_iff: "std t \<longleftrightarrow> t 0 \<noteq> None \<and> t 1 \<noteq> None \<and> t 2 \<noteq> None \<and> (\<forall>i. 2 < i \<longrightarrow> t i = None)"
proof
  assume "std t"
  then have d: "dom t = {0, 1, 2}" by (simp add: std_def)
  have "t i = None" if "2 < i" for i
  proof -
    have "i \<notin> dom t" using that d by simp
    then show ?thesis by (simp add: domIff)
  qed
  moreover have "0 \<in> dom t" "1 \<in> dom t" "2 \<in> dom t" using d by simp_all
  ultimately show "t 0 \<noteq> None \<and> t 1 \<noteq> None \<and> t 2 \<noteq> None \<and> (\<forall>i. 2 < i \<longrightarrow> t i = None)" by (auto simp: domIff)
next
  assume t: "t 0 \<noteq> None \<and> t 1 \<noteq> None \<and> t 2 \<noteq> None \<and> (\<forall>i. 2 < i \<longrightarrow> t i = None)"
  have "i \<in> {0, 1, 2}" if "t i \<noteq> None" for i
  proof (rule ccontr)
    assume "i \<notin> {0, 1, 2}"
    then have "2 < i" by auto
    then show False using t that by simp
  qed
  then show "std t" using t by (auto simp: std_def dom_def)
qed

lemma run_wired:
  assumes "std t" and "cmd_ok l c"
  shows "run (runcmd c) path t = wired c path t \<and> (\<forall>(argv, t') \<in> set (wired c path t). std t')"
  using assms
proof (induction c arbitrary: path t)
  case (EXEC argv)
  then show ?case by simp
next
  case (REDIR c f mode fd)
  have fd: "fd = 0 \<or> fd = 1" using REDIR.prems(2) by auto
  have t: "t 0 \<noteq> None" "t 1 \<noteq> None" using REDIR.prems(1) [unfolded std_iff] by simp_all
  have "lowest (t(fd := None)) = fd" using fd t by (auto simp del: One_nat_def intro!: lowest_eqs)
  then have r: "run (runcmd (REDIR c f mode fd)) path t = run (runcmd c) path (t(fd \<mapsto> File f mode))" by simp
  have "std (t(fd \<mapsto> File f mode))" by (rule std_upd [OF REDIR.prems(1) fd])
  moreover have "cmd_ok l c" using REDIR.prems(2) by simp
  ultimately show ?case unfolding r wired.simps by (rule REDIR.IH)
next
  case (PIPE c d)
  have t: "t 0 \<noteq> None" "t 1 \<noteq> None" "t 2 \<noteq> None" "t 3 = None" "t 4 = None" "\<And>i. 2 < i \<Longrightarrow> t i = None"
    using PIPE.prems(1) [unfolded std_iff] by simp_all
  let ?u = "t(3 \<mapsto> Read_end path, 4 \<mapsto> Write_end path)"
  have l: "lowest t = 3" "lowest (t(3 \<mapsto> Read_end path)) = 4" "lowest (?u(1 := None)) = 1" "lowest (?u(0 := None)) = 0"
    using t by (auto simp del: One_nat_def intro!: lowest_eqs)
  have w: "t(1 \<mapsto> Write_end path, 3 := None, 4 := None) = t(1 \<mapsto> Write_end path)"
      "t(0 \<mapsto> Read_end path, 3 := None, 4 := None) = t(0 \<mapsto> Read_end path)"
    using t by (auto simp: fun_eq_iff)
  have ok: "cmd_ok l c" "cmd_ok l d" and s: "std (t(1 \<mapsto> Write_end path))" "std (t(0 \<mapsto> Read_end path))"
    using PIPE.prems std_upd [OF PIPE.prems(1)] by simp_all
  note IH = PIPE.IH(1) [OF s(1) ok(1), of "path @ [0]"] PIPE.IH(2) [OF s(2) ok(2), of "path @ [1, 0]"]
  have "run (runcmd (PIPE c d)) path t = run (runcmd c) (path @ [0]) (t(1 \<mapsto> Write_end path)) @
      run (runcmd d) (path @ [1, 0]) (t(0 \<mapsto> Read_end path))"
    by (simp add: fork1_def Let_def l w del: One_nat_def)
  then show ?case using IH by (simp add: ball_Un del: fun_upd_apply)
next
  case (LIST c d)
  then show ?case by (simp add: fork1_def ball_Un)
next
  case (BACK c)
  then show ?case by (simp add: fork1_def)
qed

text \<open>C21. The shell wires up a command line as it reads: when it starts with the three standard descriptors and the calls succeed,
  every program of a parsed line is started with exactly the descriptors 0, 1 and 2 open (no end of a pipe is left over), each
  referring to the inherited one, the file of the redirection, or the end of the pipe that the line says.\<close>

theorem shell_wiring:
  assumes "parsecmd l = Done (c, b) s" and "std t"
  shows "run (runcmd c) path t = wired c path t \<and> (\<forall>(argv, t') \<in> set (wired c path t). std t')"
  using run_wired [OF assms(2)] parsecmd_ok(1) [OF assms(1)] by blast

theorem shell_wiring_witness:
  "\<exists>c b s. parsecmd (map of_char ''cat <f|wc'') = Done (c, b) s \<and>
     run (runcmd c) [] (\<lambda>i. if i < 3 then Some Console else None) =
       [([(0, 3)], [0 \<mapsto> File (5, 6) 0, 1 \<mapsto> Write_end [], 2 \<mapsto> Console]),
        ([(7, 9)], [0 \<mapsto> Read_end [], 1 \<mapsto> Console, 2 \<mapsto> Console])]"
proof -
  let ?c = "PIPE (REDIR (EXEC [(0, 3)]) (5, 6) 0 0) (EXEC [(7, 9)])" and ?t = "\<lambda>i :: nat. if i < 3 then Some Console else None"
  obtain b s where p: "parsecmd (map of_char ''cat <f|wc'') = Done (?c, b) s"
    by (rule that [of "[99, 97, 116, 0, 60, 102, 0, 119, 99, 0]" 9]) code_simp
  have "std ?t" unfolding std_iff by simp
  note w = shell_wiring [OF p this, of "[]", THEN conjunct1]
  have "?t(0 \<mapsto> File (5, 6) 0, 1 \<mapsto> Write_end []) = [0 \<mapsto> File (5, 6) 0, 1 \<mapsto> Write_end [], 2 \<mapsto> Console]"
      "?t(0 \<mapsto> Read_end []) = [0 \<mapsto> Read_end [], 1 \<mapsto> Console, 2 \<mapsto> Console]"
    by (auto simp: fun_eq_iff)
  then have "wired ?c [] ?t = [([(0, 3)], [0 \<mapsto> File (5, 6) 0, 1 \<mapsto> Write_end [], 2 \<mapsto> Console]),
        ([(7, 9)], [0 \<mapsto> Read_end [], 1 \<mapsto> Console, 2 \<mapsto> Console])]"
    by (simp add: fun_upd_twist)
  then show ?thesis using p w by (intro exI [of _ ?c] exI [of _ b] exI [of _ s]) simp
qed

end
