(* ===== verification/Uprogs.thy ===== *)
theory Uprogs
  imports Ulib
begin

text \<open>
  Formatted output (\<open>printf.c\<close>) and small programs: \<open>wc.c\<close>, \<open>cat.c\<close>, \<open>echo.c\<close> and the file names of \<open>ls.c\<close>.
\<close>

section \<open>printf\<close>

definition UDIGITS :: string where "UDIGITS = ''0123456789ABCDEF''"

definition uprintint :: "uint \<Rightarrow> nat \<Rightarrow> bool \<Rightarrow> byte list" where
  "uprintint xx base signd = (let neg = (signd \<and> sint xx < 0); x = (if neg then - xx else xx) in
     (if neg then [45] else []) @ rev (map (\<lambda>d. of_char (UDIGITS ! d)) (digits_rev base (unat x))))"

text \<open>The bytes of the C string at \<open>s\<close>; \<open>None\<close> when it has no end.\<close>

partial_function (option) mem_string :: "memory \<Rightarrow> uint \<Rightarrow> byte list option" where
  "mem_string m s = (if m s = 0 then Some []
     else Option.bind (mem_string m (s + 1)) (\<lambda>cs. Some (m s # cs)))"

text \<open>The argument of \<open>%s\<close>: a null pointer prints as \<open>(null)\<close>.\<close>

definition string_arg :: "memory \<Rightarrow> uint \<Rightarrow> byte list option" where
  "string_arg m s = (if s = 0 then Some (map of_char ''(null)'') else mem_string m s)"

definition emit :: "byte list \<Rightarrow> byte list option \<Rightarrow> byte list option" where
  "emit cs r = map_option ((@) cs) r"

text \<open>\<open>printf\<close> writes one byte at a time; the result is all of them in order. \<open>ap\<close> are the words on the stack after \<open>fmt\<close>, \<open>state\<close>
  is whether a \<open>%\<close> came before.\<close>

fun printf_loop :: "memory \<Rightarrow> bool \<Rightarrow> byte list \<Rightarrow> (nat \<Rightarrow> uint) \<Rightarrow> byte list option" where
  "printf_loop m state [] ap = Some []"
| "printf_loop m False (c # fmt) ap =
     (if c = 37 then printf_loop m True fmt ap else emit [c] (printf_loop m False fmt ap))"
| "printf_loop m True (c # fmt) ap =
     (if c = 100 then emit (uprintint (ap 0) 10 True) (printf_loop m False fmt (\<lambda>i. ap (Suc i)))
      else if c = 120 \<or> c = 112 then emit (uprintint (ap 0) 16 False) (printf_loop m False fmt (\<lambda>i. ap (Suc i)))
      else if c = 115 then
        (case string_arg m (ap 0) of None \<Rightarrow> None | Some cs \<Rightarrow> emit cs (printf_loop m False fmt (\<lambda>i. ap (Suc i))))
      else if c = 99 then emit [ucast (ap 0)] (printf_loop m False fmt (\<lambda>i. ap (Suc i)))
      else if c = 37 then emit [c] (printf_loop m False fmt ap)
      else emit [37, c] (printf_loop m False fmt ap))"

definition printf :: "memory \<Rightarrow> byte list \<Rightarrow> (nat \<Rightarrow> uint) \<Rightarrow> byte list option" where
  "printf m fmt ap = printf_loop m False fmt ap"

section \<open>wc\<close>

text \<open>The counters \<open>l\<close>, \<open>w\<close>, \<open>c\<close> and \<open>inword\<close> of \<open>wc\<close>.\<close>

record wc_state =
  wc_l :: uint
  wc_w :: uint
  wc_c :: uint
  inword :: bool

definition blank :: "byte \<Rightarrow> bool" where
  "blank b \<longleftrightarrow> strchr [32, 13, 9, 10, 11] b \<noteq> None"

definition wc_byte :: "byte \<Rightarrow> wc_state \<Rightarrow> wc_state" where
  "wc_byte b s = (
     let s = s\<lparr>wc_c := wc_c s + 1\<rparr>;
         s = (if b = newline then s\<lparr>wc_l := wc_l s + 1\<rparr> else s)
     in if blank b then s\<lparr>inword := False\<rparr>
        else if \<not> inword s then s\<lparr>wc_w := wc_w s + 1, inword := True\<rparr>
        else s)"

function wc_loop :: "chunks \<Rightarrow> wc_state \<Rightarrow> wc_state" where
  "wc_loop inp s = (case read_chunk 512 inp of (buf, inp') \<Rightarrow>
     if buf = [] then s else wc_loop inp' (fold wc_byte buf s))"
  by pat_completeness auto
termination
  by (relation "measure (\<lambda>(inp, s). length (concat inp))") (auto dest: read_chunk_shrinks [OF sym])

declare wc_loop.simps [simp del]

definition wc :: "chunks \<Rightarrow> uint \<times> uint \<times> uint" where
  "wc inp = (let s = wc_loop inp \<lparr>wc_l = 0, wc_w = 0, wc_c = 0, inword = False\<rparr> in (wc_l s, wc_w s, wc_c s))"

section \<open>cat and echo\<close>

text \<open>The buffers \<open>cat\<close> writes.\<close>

function cat :: "chunks \<Rightarrow> byte list list" where
  "cat inp = (case read_chunk 512 inp of (buf, inp') \<Rightarrow> if buf = [] then [] else buf # cat inp')"
  by pat_completeness auto
termination
  by (relation "measure (\<lambda>inp. length (concat inp))") (auto dest: read_chunk_shrinks [OF sym])

declare cat.simps [simp del]

fun echo :: "byte list list \<Rightarrow> byte list" where
  "echo [] = []"
| "echo [a] = a @ [newline]"
| "echo (a # as) = a @ 32 # echo as"

section \<open>ls\<close>

text \<open>\<open>fmtname\<close>: what follows the last slash, padded with blanks to \<open>DIRSIZ\<close>.\<close>

definition fmtname :: "byte list \<Rightarrow> byte list" where
  "fmtname path = (let p = rev (takeWhile (\<lambda>c. c \<noteq> 47) (rev path))
     in if length p \<ge> 14 then p else p @ replicate (14 - length p) 32)"

section \<open>Counting\<close>

text \<open>The positions where a word starts.\<close>

definition word_starts :: "byte list \<Rightarrow> nat set" where
  "word_starts s = {i. i < length s \<and> \<not> blank (s ! i) \<and> (i = 0 \<or> blank (s ! (i - 1)))}"

lemma wc_loop_fold: "[] \<notin> set inp \<Longrightarrow> wc_loop inp s = fold wc_byte (concat inp) s"
proof (induction inp s rule: wc_loop.induct)
  case (1 inp s)
  obtain buf inp' where r: "read_chunk 512 inp = (buf, inp')" by (cases "read_chunk 512 inp")
  show ?case
  proof (cases "buf = []")
    case True
    then have "inp = []" using r "1.prems" by (cases inp) auto
    then show ?thesis by (simp add: wc_loop.simps)
  next
    case False
    have "[] \<notin> set inp'" using r "1.prems" by (cases inp) (auto split: if_splits)
    then have "wc_loop inp' (fold wc_byte buf s) = fold wc_byte (concat inp') (fold wc_byte buf s)"
      using "1.IH" [OF r [symmetric]] False by simp
    then show ?thesis using r False read_chunk_concat [OF r] by (simp add: wc_loop.simps [of inp])
  qed
qed

lemma word_starts_snoc:
  "word_starts (s @ [b]) = (if \<not> blank b \<and> (s = [] \<or> blank (last s)) then insert (length s) (word_starts s) else word_starts s)"
proof -
  have "i \<in> word_starts (s @ [b]) \<longleftrightarrow> i \<in> word_starts s \<or> i = length s \<and> \<not> blank b \<and> (s = [] \<or> blank (last s))" for i
  proof (cases "i < length s")
    case True
    then show ?thesis by (auto simp: word_starts_def nth_append)
  next
    case False
    show ?thesis
    proof (cases "i = length s")
      case True
      then show ?thesis by (cases "s = []") (auto simp: word_starts_def nth_append last_conv_nth)
    qed (use False in \<open>auto simp: word_starts_def\<close>)
  qed
  then show ?thesis by (auto simp: set_eq_iff)
qed

lemma wc_fold:
  "fold wc_byte s \<lparr>wc_l = 0, wc_w = 0, wc_c = 0, inword = False\<rparr> =
   \<lparr>wc_l = of_nat (count_list s newline), wc_w = of_nat (card (word_starts s)), wc_c = of_nat (length s),
    inword = (s \<noteq> [] \<and> \<not> blank (last s))\<rparr>"
proof (induction s rule: rev_induct)
  case Nil
  then show ?case by (simp add: word_starts_def)
next
  case (snoc b s)
  have "finite (word_starts s)" "length s \<notin> word_starts s" by (simp_all add: word_starts_def)
  then show ?case using snoc by (auto simp: wc_byte_def Let_def word_starts_snoc)
qed

text \<open>C24. However the reads cut up the input, \<open>wc\<close> counts the newlines, the words and the bytes of the whole of it (modulo
  \<open>2 ^ 32\<close>); a word starts at a byte that is not blank and is the first or follows a blank.\<close>

theorem wc_counts:
  assumes "[] \<notin> set inp"
  shows "wc inp = (of_nat (count_list (concat inp) newline), of_nat (card (word_starts (concat inp))), of_nat (length (concat inp)))"
  by (simp add: wc_def wc_loop_fold [OF assms] wc_fold Let_def)

theorem wc_counts_witness: "wc [map of_char ''ab '', map of_char ''cd'', [newline, 101]] = (1, 3, 7)"
proof -
  have "word_starts [97, 98, 32, 99, 100, 10, 101] = {0, 3, 6}"
    unfolding word_starts_def blank_def by (auto simp: nth_Cons' split: if_splits)
  then have "card (word_starts [97, 98, 32, 99, 100, 10, 101]) = 3" by simp
  moreover have "concat [map of_char ''ab '', map of_char ''cd'', [newline, 101]] = [97, 98, 32, 99, 100, 10, 101 :: byte]" by code_simp
  ultimately show ?thesis
    using wc_counts [of "[map of_char ''ab '', map of_char ''cd'', [newline, 101]]"] by simp
qed

lemma cat_copies: "[] \<notin> set inp \<Longrightarrow> concat (cat inp) = concat inp"
proof (induction inp rule: cat.induct)
  case (1 inp)
  obtain buf inp' where r: "read_chunk 512 inp = (buf, inp')" by (cases "read_chunk 512 inp")
  show ?case
  proof (cases "buf = []")
    case True
    then have "inp = []" using r "1.prems" by (cases inp) auto
    then show ?thesis by (simp add: cat.simps)
  next
    case False
    have "[] \<notin> set inp'" using r "1.prems" by (cases inp) (auto split: if_splits)
    then show ?thesis using "1.IH" [OF r [symmetric]] False r read_chunk_concat [OF r] by (simp add: cat.simps [of inp])
  qed
qed

end
