(* ===== verification/Umalloc.thy ===== *)
theory Umalloc
  imports Mmu Xv6_Prelude
begin

text \<open>
  The memory allocator of user programs, \<open>umalloc.c\<close>: a ring of free blocks, sorted by address, threaded through the blocks
  in byte-addressed memory. A call runs on the memory of the process; touching memory beyond it is a page fault, which ends
  the process (\<open>Panic\<close>). Bytes beyond the process's size are those it will find there when it grows. \<open>heap_inv\<close> is the allocator's invariant, over the lists of free and of allocated blocks.
\<close>

section \<open>State and operations\<close>

text \<open>The memory of the process and its size \<open>usz\<close>, the static variables \<open>base\<close> (its address) and \<open>freep\<close>, and, for each
  coming request for more memory, whether the kernel has the pages.\<close>

record umem_state =
  umem :: memory
  usz :: uint
  ubase :: uint
  freep :: uint
  grants :: "bool list"

definition accessible :: "umem_state \<Rightarrow> uint \<Rightarrow> bool" where
  "accessible s a \<longleftrightarrow> unat a + 4 \<le> unat (PGROUNDUP (usz s))"

definition uload :: "uint \<Rightarrow> (umem_state, uint) kern" where
  "uload a s = (if accessible s a then Ret (load32 (umem s) a) s else Panic ''page fault'')"

definition ustore :: "uint \<Rightarrow> uint \<Rightarrow> (umem_state, unit) kern" where
  "ustore a w s = (if accessible s a then Ret () (s\<lparr>umem := store32 (umem s) a w\<rparr>) else Panic ''page fault'')"

text \<open>The fields \<open>s.ptr\<close> and \<open>s.size\<close> of a \<open>Header\<close>, which takes eight bytes.\<close>

definition get_ptr :: "uint \<Rightarrow> (umem_state, uint) kern" where
  "get_ptr p = uload p"

definition set_ptr :: "uint \<Rightarrow> uint \<Rightarrow> (umem_state, unit) kern" where
  "set_ptr p v = ustore p v"

definition get_size :: "uint \<Rightarrow> (umem_state, uint) kern" where
  "get_size p = uload (p + 4)"

definition set_size :: "uint \<Rightarrow> uint \<Rightarrow> (umem_state, unit) kern" where
  "set_size p v = ustore (p + 4) v"

text \<open>The system call \<open>sbrk\<close>: it returns the old size, or -1. The argument is signed; growing fails at \<open>KERNBASE\<close> or when the
  kernel is out of pages, and shrinking below nothing leaves the size as it is.\<close>

definition sbrk :: "uint \<Rightarrow> (umem_state, uint) kern" where
  "sbrk n s =
     (let addr = usz s; new = addr + n in
      if sint n > 0 then
        if new \<ge> KERNBASE then Ret (-1) s
        else if new < addr then Ret addr s
        else case grants s of
          True # gs \<Rightarrow> Ret addr (s\<lparr>usz := new, grants := gs\<rparr>)
        | _ \<Rightarrow> Ret (-1) (s\<lparr>grants := tl (grants s)\<rparr>)
      else if sint n < 0 \<and> new < addr then (if new = 0 then Ret (-1) s else Ret addr (s\<lparr>usz := new\<rparr>))
      else Ret addr s)"

text \<open>The search of \<open>free\<close> for the place of \<open>bp\<close> in the ring; the flag tells that it has been found.\<close>

definition free_step :: "uint \<Rightarrow> uint \<times> bool \<Rightarrow> (umem_state, uint \<times> bool) kern" where
  "free_step bp = (\<lambda>(p, _).
     bnd (get_ptr p) (\<lambda>n.
     if bp > p \<and> bp < n then ret (p, True)
     else if p \<ge> n \<and> (bp > p \<or> bp < n) then ret (p, True)
     else ret (n, False)))"

definition free :: "uint \<Rightarrow> (umem_state, unit) kern" where
  "free ap =
     (let bp = ap - 8 in
      bnd (gets freep) (\<lambda>fp.
      bnd (kwhile (\<lambda>(_, found) _. \<not> found) (free_step bp) (fp, False)) (\<lambda>(p, _).
      bnd (get_size bp) (\<lambda>bsize.
      bnd (get_ptr p) (\<lambda>n.
      bnd (if bp + 8 * bsize = n then
             bnd (get_size n) (\<lambda>nsize.
             bnd (set_size bp (bsize + nsize)) (\<lambda>_.
             bnd (get_ptr n) (\<lambda>nn.
             set_ptr bp nn)))
           else set_ptr bp n) (\<lambda>_.
      bnd (get_size p) (\<lambda>psize.
      bnd (if p + 8 * psize = bp then
             bnd (get_size bp) (\<lambda>bsize.
             bnd (set_size p (psize + bsize)) (\<lambda>_.
             bnd (get_ptr bp) (\<lambda>bn.
             set_ptr p bn)))
           else set_ptr p bp) (\<lambda>_.
      modify (\<lambda>s. s\<lparr>freep := p\<rparr>)))))))))"

definition morecore :: "uint \<Rightarrow> (umem_state, uint) kern" where
  "morecore nu0 =
     (let nu = (if nu0 < 4096 then 4096 else nu0) in
      bnd (sbrk (nu * 8)) (\<lambda>p.
      if p = -1 then ret 0
      else
        bnd (set_size p nu) (\<lambda>_.
        bnd (free (p + 8)) (\<lambda>_.
        gets freep))))"

text \<open>One turn of \<open>malloc\<close>'s loop; the third component is what it returns.\<close>

definition malloc_step :: "uint \<Rightarrow> uint \<times> uint \<times> uint option \<Rightarrow> (umem_state, uint \<times> uint \<times> uint option) kern" where
  "malloc_step nunits = (\<lambda>(prevp, p, _).
     bnd (get_size p) (\<lambda>size.
     if size \<ge> nunits then
       bnd (if size = nunits then
              bnd (get_ptr p) (\<lambda>n.
              bnd (set_ptr prevp n) (\<lambda>_. ret p))
            else
              bnd (set_size p (size - nunits)) (\<lambda>_.
              let p' = p + 8 * (size - nunits) in
              bnd (set_size p' nunits) (\<lambda>_. ret p'))) (\<lambda>p.
       bnd (modify (\<lambda>s. s\<lparr>freep := prevp\<rparr>)) (\<lambda>_.
       ret (prevp, p, Some (p + 8))))
     else
       bnd (gets freep) (\<lambda>fp.
       bnd (if p = fp then bnd (morecore nunits) (\<lambda>p. ret (p, p = 0)) else ret (p, False)) (\<lambda>(p, failed).
       if failed then ret (prevp, p, Some 0)
       else bnd (get_ptr p) (\<lambda>n. ret (p, n, None))))))"

definition malloc :: "uint \<Rightarrow> (umem_state, uint) kern" where
  "malloc nbytes =
     (let nunits = (nbytes + 8 - 1) div 8 + 1 in
      bnd (gets freep) (\<lambda>fp.
      bnd (if fp = 0 then
             bnd (gets ubase) (\<lambda>b. block [
               modify (\<lambda>s. s\<lparr>freep := b\<rparr>),
               set_ptr b b,
               set_size b 0])
           else skip) (\<lambda>_.
      bnd (gets freep) (\<lambda>prevp.
      bnd (get_ptr prevp) (\<lambda>p.
      bnd (kwhile (\<lambda>(_, _, r) _. r = None) (malloc_step nunits) (prevp, p, None)) (\<lambda>(_, _, r).
      ret (the r)))))))"

section \<open>Headers in memory\<close>

lemma of_nat_add4: "of_nat a + 4 = (of_nat (a + 4) :: uint)" and of_nat_add8: "of_nat a + 8 = (of_nat (a + 8) :: uint)"
  by simp_all

lemma unat_of_nat32: "a < 2 ^ 32 \<Longrightarrow> unat (of_nat a :: uint) = a"
  by (simp add: unat_of_nat)

lemma of_nat_eq32: "a < 2 ^ 32 \<Longrightarrow> b < 2 ^ 32 \<Longrightarrow> (of_nat a :: uint) = of_nat b \<longleftrightarrow> a = b"
  by (metis unat_of_nat32)

lemma of_nat_less32: "a < 2 ^ 32 \<Longrightarrow> b < 2 ^ 32 \<Longrightarrow> (of_nat a :: uint) < of_nat b \<longleftrightarrow> a < b"
  by (simp add: word_less_nat_alt unat_of_nat32)

lemma store32_byte:
  assumes "x + 4 \<le> 2 ^ 32" and "y < 2 ^ 32" and "y < x \<or> x + 4 \<le> y"
  shows "store32 m (of_nat x) v (of_nat y) = m (of_nat y)"
proof (rule store32_other)
  have ne: "(of_nat y :: uint) \<noteq> of_nat (x + i)" if "i < 4" for i
    using of_nat_eq32 [of y "x + i"] assms that by auto
  show "(of_nat y :: uint) \<noteq> of_nat x" "(of_nat y :: uint) \<noteq> of_nat x + 1" "(of_nat y :: uint) \<noteq> of_nat x + 2"
      "(of_nat y :: uint) \<noteq> of_nat x + 3"
    using ne [of 0] ne [of 1] ne [of 2] ne [of 3] by (simp_all add: add.commute)
qed

lemma load32_store32_apart:
  assumes "x + 4 \<le> 2 ^ 32" and "y + 4 \<le> 2 ^ 32" and "y + 4 \<le> x \<or> x + 4 \<le> y"
  shows "load32 (store32 m (of_nat x) v) (of_nat y) = load32 m (of_nat y)"
proof (rule load32_cong)
  have b: "store32 m (of_nat x) v (of_nat (y + i)) = m (of_nat (y + i))" if "i < 4" for i
    using assms that by (intro store32_byte) auto
  show "store32 m (of_nat x) v (of_nat y) = m (of_nat y)" "store32 m (of_nat x) v (of_nat y + 1) = m (of_nat y + 1)"
      "store32 m (of_nat x) v (of_nat y + 2) = m (of_nat y + 2)" "store32 m (of_nat x) v (of_nat y + 3) = m (of_nat y + 3)"
    using b [of 0] b [of 1] b [of 2] b [of 3] by (simp_all add: add.commute)
qed

text \<open>A block: its address and its size in units of eight bytes, header included. \<open>seg m xs e\<close>: the headers of \<open>xs\<close> hold
  their sizes and point each to the next, the last one to \<open>e\<close>.\<close>

type_synonym hblock = "nat \<times> nat"

definition head_or :: "hblock list \<Rightarrow> nat \<Rightarrow> nat" where
  "head_or xs e = (case xs of [] \<Rightarrow> e | x # _ \<Rightarrow> fst x)"

fun seg :: "memory \<Rightarrow> hblock list \<Rightarrow> nat \<Rightarrow> bool" where
  "seg m [] e \<longleftrightarrow> True"
| "seg m ((a, n) # xs) e \<longleftrightarrow> load32 m (of_nat a) = of_nat (head_or xs e) \<and> load32 m (of_nat (a + 4)) = of_nat n \<and> seg m xs e"

lemma head_or_simps [simp]: "head_or [] e = e" "head_or (x # xs) e = fst x"
  by (simp_all add: head_or_def)

lemma seg_append: "seg m (xs @ ys) e \<longleftrightarrow> seg m xs (head_or ys e) \<and> seg m ys e"
proof (induction xs)
  case (Cons x xs)
  then show ?case by (cases x; cases xs) auto
qed simp

lemma seg_nth:
  assumes "seg m xs e" and "j < length xs"
  shows "load32 m (of_nat (fst (xs ! j))) = of_nat (if Suc j < length xs then fst (xs ! Suc j) else e)"
    and "load32 m (of_nat (fst (xs ! j) + 4)) = of_nat (snd (xs ! j))"
proof -
  have xs: "xs = take j xs @ xs ! j # drop (Suc j) xs" using assms(2) by (rule id_take_nth_drop)
  have "seg m (xs ! j # drop (Suc j) xs) e" using assms(1) by (subst (asm) xs) (simp add: seg_append)
  moreover have "head_or (drop (Suc j) xs) e = (if Suc j < length xs then fst (xs ! Suc j) else e)"
    by (simp add: Cons_nth_drop_Suc [symmetric])
  ultimately show "load32 m (of_nat (fst (xs ! j))) = of_nat (if Suc j < length xs then fst (xs ! Suc j) else e)"
      "load32 m (of_nat (fst (xs ! j) + 4)) = of_nat (snd (xs ! j))"
    by (cases "xs ! j"; simp)+
qed

text \<open>Blocks below 2GB whose headers do not meet the eight bytes at \<open>x\<close>.\<close>

definition clear_of :: "nat \<Rightarrow> hblock list \<Rightarrow> bool" where
  "clear_of x xs \<longleftrightarrow> x + 8 \<le> 2 ^ 31 \<and> (\<forall>y \<in> set xs. fst y + 8 \<le> 2 ^ 31 \<and> (fst y + 8 \<le> x \<or> x + 8 \<le> fst y))"

lemma clear_of_simps [simp]:
  "clear_of x (y # ys) \<longleftrightarrow> clear_of x ys \<and> fst y + 8 \<le> 2 ^ 31 \<and> (fst y + 8 \<le> x \<or> x + 8 \<le> fst y)"
  "clear_of x (xs @ ys) \<longleftrightarrow> clear_of x xs \<and> clear_of x ys"
  by (auto simp: clear_of_def split: prod.splits)

lemma header_store:
  assumes "x + 8 \<le> 2 ^ 31" and "a + 8 \<le> 2 ^ 31" and "a + 8 \<le> x \<or> x + 8 \<le> a"
  shows "load32 (store32 m (of_nat x) v) (of_nat a) = load32 m (of_nat a)"
    "load32 (store32 m (of_nat x) v) (of_nat (a + 4)) = load32 m (of_nat (a + 4))"
    "load32 (store32 m (of_nat (x + 4)) v) (of_nat a) = load32 m (of_nat a)"
    "load32 (store32 m (of_nat (x + 4)) v) (of_nat (a + 4)) = load32 m (of_nat (a + 4))"
  using assms by (auto intro!: load32_store32_apart simp del: of_nat_add)

lemma seg_store:
  assumes "clear_of x xs"
  shows "seg (store32 m (of_nat x) v) xs e \<longleftrightarrow> seg m xs e" "seg (store32 m (of_nat (x + 4)) v) xs e \<longleftrightarrow> seg m xs e"
proof -
  have x: "x + 8 \<le> 2 ^ 31" using assms by (simp add: clear_of_def)
  show "seg (store32 m (of_nat x) v) xs e \<longleftrightarrow> seg m xs e" "seg (store32 m (of_nat (x + 4)) v) xs e \<longleftrightarrow> seg m xs e"
    using assms header_store [OF x] by (induction xs) (auto simp del: of_nat_add)
qed

lemma seg_set_ptr:
  assumes "clear_of p xs"
  shows "seg (store32 m (of_nat p) (of_nat e')) (xs @ [(p, k)]) e' \<longleftrightarrow> seg m xs p \<and> load32 m (of_nat (p + 4)) = of_nat k"
  using assms by (simp add: seg_append seg_store load32_store32_apart clear_of_def del: of_nat_add)

section \<open>The layout of the heap\<close>

definition block_bytes :: "hblock \<Rightarrow> nat set" where
  "block_bytes x = {fst x ..< fst x + 8 * snd x}"

definition free_bytes :: "hblock list \<Rightarrow> nat set" where
  "free_bytes R = (\<Union>x \<in> set R. block_bytes x)"

lemma free_bytes_simps [simp]: "free_bytes [] = {}" "free_bytes (x # R) = block_bytes x \<union> free_bytes R"
    "free_bytes (R @ R') = free_bytes R \<union> free_bytes R'"
  by (auto simp: free_bytes_def)

text \<open>Sorted by address, and no two neighbours touch: they would have been merged.\<close>

fun spaced :: "hblock list \<Rightarrow> bool" where
  "spaced (x # y # xs) \<longleftrightarrow> fst x + 8 * snd x < fst y \<and> spaced (y # xs)"
| "spaced _ \<longleftrightarrow> True"

lemma spaced_append:
  "spaced (xs @ ys) \<longleftrightarrow> spaced xs \<and> spaced ys \<and> (xs \<noteq> [] \<longrightarrow> ys \<noteq> [] \<longrightarrow> fst (last xs) + 8 * snd (last xs) < fst (hd ys))"
proof (induction xs)
  case (Cons x xs)
  then show ?case by (cases xs; cases ys) auto
qed simp

lemma spaced_Cons: "spaced (x # ys) \<longleftrightarrow> spaced ys \<and> (ys \<noteq> [] \<longrightarrow> fst x + 8 * snd x < fst (hd ys))"
  by (cases ys) auto

lemma spaced_nth: "spaced xs \<Longrightarrow> i < j \<Longrightarrow> j < length xs \<Longrightarrow> fst (xs ! i) + 8 * snd (xs ! i) < fst (xs ! j)"
proof (induction j)
  case (Suc j)
  have s: "fst (xs ! j) + 8 * snd (xs ! j) < fst (xs ! Suc j)" using Suc.prems(1,3)
  proof (induction xs arbitrary: j rule: spaced.induct)
    case (1 x y xs)
    then show ?case by (cases j) auto
  qed auto
  show ?case
  proof (cases "i = j")
    case False
    then have "fst (xs ! i) + 8 * snd (xs ! i) < fst (xs ! j)" using Suc by simp
    then show ?thesis using s by simp
  qed (use s in simp)
qed simp

text \<open>The free blocks \<open>R\<close>, the empty block \<open>base\<close> first, and the allocated ones \<open>A\<close>: all inside the process's memory, apart
  from each other.\<close>

definition layout :: "nat \<Rightarrow> nat \<Rightarrow> hblock list \<Rightarrow> hblock set \<Rightarrow> bool" where
  "layout b lim R A \<longleftrightarrow> R \<noteq> [] \<and> hd R = (b, 0) \<and>
     (\<forall>x \<in> set (tl R) \<union> A. 0 < snd x \<and> b + 8 \<le> fst x \<and> fst x + 8 * snd x \<le> lim) \<and> spaced R \<and>
     (\<forall>x \<in> A. \<forall>y \<in> A. x \<noteq> y \<longrightarrow> block_bytes x \<inter> block_bytes y = {}) \<and> (\<forall>x \<in> A. block_bytes x \<inter> free_bytes R = {})"

lemma layoutD:
  assumes "layout b lim R A" and "x \<in> set (tl R) \<union> A"
  shows "0 < snd x \<and> b + 8 \<le> fst x \<and> fst x + 8 * snd x \<le> lim"
  using assms unfolding layout_def by blast

lemma layout_split:
  assumes "layout b lim (L @ (p, k) # T) A" and "(a, n) \<in> A"
  shows "b < a" and "p < a \<Longrightarrow> p + 8 * k \<le> a" and "T \<noteq> [] \<Longrightarrow> a < fst (hd T) \<Longrightarrow> a + 8 * n \<le> fst (hd T)"
    and "L = [] \<Longrightarrow> p = b \<and> k = 0" and "L \<noteq> [] \<Longrightarrow> hd L = (b, 0)" and "0 < n" and "a + 8 * n \<le> lim"
proof -
  note l = assms(1) [unfolded layout_def]
  have an: "0 < n" "b + 8 \<le> a" "a + 8 * n \<le> lim" "block_bytes (a, n) \<inter> free_bytes (L @ (p, k) # T) = {}"
    using l assms(2) layoutD [OF assms(1), of "(a, n)"] by (simp, simp, simp, blast)
  show "b < a" "0 < n" "a + 8 * n \<le> lim" using an by simp_all
  show "p + 8 * k \<le> a" if "p < a"
  proof (rule ccontr)
    assume "\<not> p + 8 * k \<le> a"
    then have "a \<in> block_bytes (a, n)" "a \<in> block_bytes (p, k)" using that an by (auto simp: block_bytes_def)
    then show False using an(4) by auto
  qed
  show "a + 8 * n \<le> fst (hd T)" if t: "T \<noteq> []" "a < fst (hd T)"
  proof (rule ccontr)
    assume c: "\<not> a + 8 * n \<le> fst (hd T)"
    have h: "hd T \<in> set (tl (L @ (p, k) # T))" using t(1) by (cases L) auto
    have "0 < snd (hd T)" using layoutD [OF assms(1)] h by blast
    then have "fst (hd T) \<in> block_bytes (a, n)" "fst (hd T) \<in> block_bytes (hd T)" using t c by (auto simp: block_bytes_def)
    then show False using an(4) t(1) by (cases T) auto
  qed
  show "L = [] \<Longrightarrow> p = b \<and> k = 0" "L \<noteq> [] \<Longrightarrow> hd L = (b, 0)" using l by (cases L; auto)+
qed

text \<open>Giving a block back merges it with the blocks that end where it begins and begin where it ends.\<close>

definition merge_up :: "hblock \<Rightarrow> hblock list \<Rightarrow> nat \<times> hblock list" where
  "merge_up x T = (if T \<noteq> [] \<and> fst x + 8 * snd x = fst (hd T) then (snd x + snd (hd T), tl T) else (snd x, T))"

definition give_back :: "hblock list \<Rightarrow> hblock \<Rightarrow> hblock \<Rightarrow> hblock list \<Rightarrow> hblock list" where
  "give_back L p x T = (case merge_up x T of (n, T') \<Rightarrow>
     if fst p + 8 * snd p = fst x then L @ (fst p, snd p + n) # T' else L @ p # (fst x, n) # T')"

lemma give_back_layout:
  assumes l: "layout b lim (L @ (p, k) # T) A" and x: "(a, n) \<in> A" and pa: "p < a" and at: "T \<noteq> [] \<Longrightarrow> a < fst (hd T)"
  shows "layout b lim (give_back L (p, k) (a, n) T) (A - {(a, n)})"
    and "free_bytes (give_back L (p, k) (a, n) T) = free_bytes (L @ (p, k) # T) \<union> block_bytes (a, n)"
proof -
  note f = layout_split [OF l x]
  obtain n' T' where m: "merge_up (a, n) T = (n', T')" by (cases "merge_up (a, n) T")
  have sp: "spaced L" "spaced T" "T \<noteq> [] \<Longrightarrow> p + 8 * k < fst (hd T)" "L \<noteq> [] \<Longrightarrow> fst (last L) + 8 * snd (last L) < p"
    using l by (auto simp: layout_def spaced_append spaced_Cons)
  have inT: "0 < snd y \<and> b + 8 \<le> fst y \<and> fst y + 8 * snd y \<le> lim" if "y \<in> set T" for y
    using layoutD [OF l, of y] that by (cases L) auto
  have up: "block_bytes (a, n') \<union> free_bytes T' = block_bytes (a, n) \<union> free_bytes T \<and> n \<le> n' \<and> set T' \<subseteq> set T \<and>
    (T' \<noteq> [] \<longrightarrow> a + 8 * n' < fst (hd T')) \<and> spaced T' \<and> a + 8 * n' \<le> lim"
  proof (cases "T \<noteq> [] \<and> a + 8 * n = fst (hd T)")
    case True
    then obtain q T2 where T: "T = q # T2" "fst q = a + 8 * n" by (cases T) auto
    then have "n' = n + snd q" "T' = T2" using m by (auto simp: merge_up_def)
    then show ?thesis using sp(2) inT [of q] T by (auto simp: block_bytes_def spaced_Cons)
  next
    case False
    then have "n' = n" "T' = T" using m by (auto simp: merge_up_def)
    then show ?thesis using f at sp(2) False by (auto simp: le_less)
  qed
  show fb: "free_bytes (give_back L (p, k) (a, n) T) = free_bytes (L @ (p, k) # T) \<union> block_bytes (a, n)"
  proof (cases "p + 8 * k = a")
    case True
    then have "block_bytes (p, k + n') = block_bytes (p, k) \<union> block_bytes (a, n')" by (auto simp: block_bytes_def)
    then show ?thesis using up m True by (auto simp: give_back_def)
  qed (use up m in \<open>auto simp: give_back_def\<close>)
  have ne: "L \<noteq> []" if "p + 8 * k = a" using f that pa by auto
  have hd': "give_back L (p, k) (a, n) T \<noteq> [] \<and> hd (give_back L (p, k) (a, n) T) = (b, 0)"
    using f(4,5) m ne by (cases L) (auto simp: give_back_def)
  have sp': "spaced (give_back L (p, k) (a, n) T)"
    using up sp m f(2) pa by (auto simp: give_back_def spaced_append spaced_Cons)
  have in': "0 < snd y \<and> b + 8 \<le> fst y \<and> fst y + 8 * snd y \<le> lim" if y: "y \<in> set (tl (give_back L (p, k) (a, n) T))" for y
  proof -
    have old: "0 < snd z \<and> b + 8 \<le> fst z \<and> fst z + 8 * snd z \<le> lim" if "z \<in> set (tl (L @ (p, k) # T)) \<union> A" for z
      using layoutD [OF l that] .
    show ?thesis
      using y up m f(6) ne old [of y] old [of "(a, n)"] old [of "(p, k)"] x inT [of y]
      by (cases L) (auto simp: give_back_def split: if_splits)
  qed
  have "block_bytes y \<inter> block_bytes z = {}" if "y \<in> A" "z \<in> A" "y \<noteq> z" for y z
    using l that unfolding layout_def by blast
  moreover have "block_bytes y \<inter> free_bytes (L @ (p, k) # T) = {}" if "y \<in> A" for y
    using l that unfolding layout_def by blast
  ultimately show "layout b lim (give_back L (p, k) (a, n) T) (A - {(a, n)})"
    unfolding layout_def fb using hd' sp' in' layoutD [OF l] x by (simp add: Int_Un_distrib ball_Un)
qed

section \<open>The invariant\<close>

definition heap_inv :: "umem_state \<Rightarrow> hblock list \<Rightarrow> hblock set \<Rightarrow> bool" where
  "heap_inv s R A \<longleftrightarrow> layout (unat (ubase s)) (unat (usz s)) R A \<and> 0 < unat (ubase s) \<and>
     unat (ubase s) + 8 \<le> unat (usz s) \<and> unat (usz s) < 2 ^ 31 \<and>
     seg (umem s) R (unat (ubase s)) \<and> (\<exists>x \<in> set R. freep s = of_nat (fst x)) \<and>
     (\<forall>x \<in> A. load32 (umem s) (of_nat (fst x + 4)) = of_nat (snd x))"

lemma header_access:
  assumes "a + 8 \<le> unat (usz s)" and "unat (usz s) < 2 ^ 31"
  shows "get_ptr (of_nat a) s = Ret (load32 (umem s) (of_nat a)) s"
    and "get_size (of_nat a) s = Ret (load32 (umem s) (of_nat (a + 4))) s"
    and "set_ptr (of_nat a) v s = Ret () (s\<lparr>umem := store32 (umem s) (of_nat a) v\<rparr>)"
    and "set_size (of_nat a) v s = Ret () (s\<lparr>umem := store32 (umem s) (of_nat (a + 4)) v\<rparr>)"
proof -
  have "unat (usz s) \<le> unat (PGROUNDUP (usz s))" using assms by (intro PGROUNDUP_bounds) simp
  then have "accessible s (of_nat a)" "accessible s (of_nat (a + 4))"
    using assms unfolding accessible_def by (simp_all add: unat_of_nat32 del: of_nat_add)
  then show "get_ptr (of_nat a) s = Ret (load32 (umem s) (of_nat a)) s"
      "get_size (of_nat a) s = Ret (load32 (umem s) (of_nat (a + 4))) s"
      "set_ptr (of_nat a) v s = Ret () (s\<lparr>umem := store32 (umem s) (of_nat a) v\<rparr>)"
      "set_size (of_nat a) v s = Ret () (s\<lparr>umem := store32 (umem s) (of_nat (a + 4)) v\<rparr>)"
    by (simp_all add: get_ptr_def get_size_def set_ptr_def set_size_def uload_def ustore_def of_nat_add4 del: of_nat_add)
qed

lemma heap_ring:
  assumes h: "heap_inv s R A" and x: "x \<in> set R"
  shows "fst x + 8 \<le> unat (usz s)" and "x = (unat (ubase s), 0) \<or> x \<in> set (tl R)"
proof -
  have l: "layout (unat (ubase s)) (unat (usz s)) R A" "unat (ubase s) + 8 \<le> unat (usz s)" using h by (simp_all add: heap_inv_def)
  show y: "x = (unat (ubase s), 0) \<or> x \<in> set (tl R)" using l(1) x by (cases R) (auto simp: layout_def)
  then show "fst x + 8 \<le> unat (usz s)" using layoutD [OF l(1), of x] l(2) by auto
qed

lemma place_ex:
  fixes R :: "hblock list"
  shows "R \<noteq> [] \<Longrightarrow> fst (hd R) < a \<Longrightarrow> \<forall>x \<in> set R. fst x \<noteq> a \<Longrightarrow>
   \<exists>i < length R. fst (R ! i) < a \<and> (Suc i < length R \<longrightarrow> a < fst (R ! Suc i))"
proof (induction R rule: spaced.induct)
  case (1 x y xs)
  show ?case
  proof (cases "a < fst y")
    case True
    then show ?thesis using 1(3) by (intro exI [of _ 0]) simp
  next
    case False
    then have "fst (hd (y # xs)) < a" using 1(4) by (auto simp: not_less le_less)
    then obtain i where "i < length (y # xs)" "fst ((y # xs) ! i) < a" "Suc i < length (y # xs) \<longrightarrow> a < fst ((y # xs) ! Suc i)"
      using 1(1,4) by auto
    then show ?thesis by (intro exI [of _ "Suc i"]) simp
  qed
qed auto

text \<open>The search finds the place of a block, from wherever in the ring it starts.\<close>

lemma find_place:
  assumes h: "heap_inv s R A" and x: "(a, n) \<in> A" and i: "i < length R" "fst (R ! i) < a" "Suc i < length R \<Longrightarrow> a < fst (R ! Suc i)"
  shows "wp (kwhile (\<lambda>(_, found) _. \<not> found) (free_step (of_nat a)) (freep s, False)) (\<lambda>(p, _) t. p = of_nat (fst (R ! i)) \<and> t = s) s"
proof -
  let ?N = "length R" and ?ad = "\<lambda>j. fst (R ! j)"
  have l: "layout (unat (ubase s)) (unat (usz s)) R A" and sz: "unat (usz s) < 2 ^ 31" and sg: "seg (umem s) R (unat (ubase s))"
    using h by (simp_all add: heap_inv_def)
  have a: "unat (ubase s) < a" "a < 2 ^ 31" using layoutD [OF l, of "(a, n)"] x sz by auto
  have hd: "?ad 0 = unat (ubase s)" using l i(1) by (cases R) (auto simp: layout_def)
  have lt: "?ad j < ?ad j'" if "j < j'" "j' < ?N" for j j' using spaced_nth [OF _ that] l by (fastforce simp: layout_def)
  have bd: "?ad j < 2 ^ 31" "?ad j + 8 \<le> unat (usz s)" if "j < ?N" for j using heap_ring(1) [OF h nth_mem [OF that]] sz by simp_all
  have cmp: "(of_nat u :: uint) < of_nat v \<longleftrightarrow> u < v" "(of_nat u :: uint) \<le> of_nat v \<longleftrightarrow> u \<le> v" if "u < 2 ^ 31" "v < 2 ^ 31" for u v
    using that by (simp_all add: of_nat_less32 not_less [symmetric] del: not_less)
  have ub: "unat (ubase s) < 2 ^ 31" using hd bd(1) [of 0] i(1) by (cases R) auto
  have step: "free_step (of_nat a) (of_nat (?ad j), f) s =
      Ret (if j = i then (of_nat (?ad j), True) else (of_nat (?ad (if Suc j < ?N then Suc j else 0)), False)) s" if j: "j < ?N" for j f
  proof -
    define nx where "nx = (if Suc j < ?N then ?ad (Suc j) else ?ad 0)"
    have nx: "nx = ?ad (if Suc j < ?N then Suc j else 0)" "nx < 2 ^ 31" using bd(1) [of "Suc j"] hd ub by (simp_all add: nx_def)
    have g: "get_ptr (of_nat (?ad j)) s = Ret (of_nat nx) s"
      using seg_nth(1) [OF sg j] header_access(1) [OF bd(2) [OF j] sz] by (simp add: nx_def hd)
    have b0: "?ad 0 \<le> ?ad j" using lt [of 0 j] j by (cases j) auto
    have run: "free_step (of_nat a) (of_nat (?ad j), f) s = Ret (if a > ?ad j \<and> a < nx \<or> ?ad j \<ge> nx \<and> (a > ?ad j \<or> a < nx)
        then (of_nat (?ad j), True) else (of_nat nx, False)) s"
      using g bd(1) [OF j] nx(2) a(2) by (auto simp: free_step_def bnd_def cmp)
    consider "j = i" | "j < i" | "i < j" by linarith
    then have "(a > ?ad j \<and> a < nx \<or> ?ad j \<ge> nx \<and> (a > ?ad j \<or> a < nx)) \<longleftrightarrow> j = i"
    proof cases
      case 1
      then show ?thesis using i b0 by (auto simp: nx_def)
    next
      case 2
      then have "?ad j < ?ad (Suc j)" "?ad (Suc j) \<le> ?ad i" "Suc j < ?N" using lt [of j "Suc j"] lt [of "Suc j" i] i(1) by (cases "Suc j = i"; simp)+
      then show ?thesis using 2 i(2) by (auto simp: nx_def)
    next
      case 3
      then have "a < ?ad j" using i(3) lt [of "Suc i" j] j by (cases "Suc i = j") auto
      then show ?thesis using 3 a(1) lt [of j "Suc j"] hd by (auto simp: nx_def)
    qed
    then show ?thesis unfolding run nx(1) by simp
  qed
  obtain j0 where j0: "j0 < ?N" "freep s = of_nat (?ad j0)" using h by (auto simp: heap_inv_def in_set_conv_nth)
  have "wp (kwhile (\<lambda>(_, found) _. \<not> found) (free_step (of_nat a)) (of_nat (?ad j), False)) (\<lambda>(p, _) t. p = of_nat (?ad i) \<and> t = s) s"
    if "j < ?N" for j
    using that
  proof (induction "if j \<le> i then i - j else ?N - j + i" arbitrary: j rule: less_induct)
    case less
    show ?case
    proof (cases "j = i")
      case True
      then show ?thesis using step [OF less.prems] by (subst wp_def, subst kwhile_unfold) (simp add: bnd_def, subst kwhile_unfold, simp)
    next
      case False
      then have "wp (kwhile (\<lambda>(_, found) _. \<not> found) (free_step (of_nat a)) (of_nat (?ad (if Suc j < ?N then Suc j else 0)), False))
          (\<lambda>(p, _) t. p = of_nat (?ad i) \<and> t = s) s"
        using less.prems i(1) by (intro less.hyps) (auto split: if_splits)
      then show ?thesis using step [OF less.prems] False by (subst wp_def, subst kwhile_unfold) (simp add: bnd_def wp_def)
    qed
  qed
  then show ?thesis using j0 by simp
qed

section \<open>Freeing\<close>

lemma block_apart:
  assumes "block_bytes x \<inter> block_bytes y = {}" and "0 < snd x" and "0 < snd y"
  shows "fst x + 8 * snd x \<le> fst y \<or> fst y + 8 * snd y \<le> fst x"
proof (rule ccontr)
  assume "\<not> ?thesis"
  then have "max (fst x) (fst y) \<in> block_bytes x \<inter> block_bytes y" using assms(2,3) by (auto simp: block_bytes_def)
  then show False using assms(1) by blast
qed

lemma heap_clear:
  assumes h: "heap_inv s (L @ (p, k) # T) A"
  shows "clear_of p L" and "clear_of p T" and "(a, n) \<in> A \<Longrightarrow> clear_of a (L @ (p, k) # T)"
proof -
  let ?R = "L @ (p, k) # T" and ?b = "unat (ubase s)"
  have l: "layout ?b (unat (usz s)) ?R A" and sz: "unat (usz s) < 2 ^ 31" using h by (simp_all add: heap_inv_def)
  have bd: "fst x + 8 \<le> 2 ^ 31" if "x \<in> set ?R" for x using heap_ring(1) [OF h that] sz by simp
  have ap: "fst (?R ! i) + 8 \<le> fst (?R ! j)" if "i < j" "j < length ?R" for i j
  proof (cases i)
    case 0
    have "?R ! j \<in> set (tl ?R)" using that nth_mem [of "j - 1" "tl ?R"] by (cases j) (auto simp: nth_tl)
    then have "?b + 8 \<le> fst (?R ! j)" using layoutD [OF l] by blast
    moreover have "?R ! 0 = (?b, 0)" using l hd_conv_nth [of ?R] by (simp add: layout_def)
    ultimately show ?thesis using 0 by simp
  next
    case (Suc i')
    then have "?R ! i \<in> set (tl ?R)" using that nth_mem [of i' "tl ?R"] by (auto simp: nth_tl)
    then have "0 < snd (?R ! i)" using layoutD [OF l] by blast
    then show ?thesis using spaced_nth [OF _ that] l by (fastforce simp: layout_def)
  qed
  have "fst x + 8 \<le> p" if "x \<in> set L" for x
    using that ap [of _ "length L"] by (fastforce simp: in_set_conv_nth nth_append)
  then show "clear_of p L" using bd bd [of "(p, k)"] unfolding clear_of_def by simp
  have "p + 8 \<le> fst x" if x: "x \<in> set T" for x
  proof -
    obtain i where "i < length T" "x = T ! i" using x by (auto simp: in_set_conv_nth)
    then show ?thesis using ap [of "length L" "Suc (length L + i)"] by (simp add: nth_append)
  qed
  then show "clear_of p T" using bd bd [of "(p, k)"] unfolding clear_of_def by simp
  show "clear_of a ?R" if an: "(a, n) \<in> A"
  proof -
    have n: "0 < n" "?b + 8 \<le> a" "a + 8 * n \<le> unat (usz s)" using layoutD [OF l, of "(a, n)"] an by simp_all
    have "fst x + 8 \<le> a \<or> a + 8 \<le> fst x" if x: "x \<in> set ?R" for x
      using heap_ring(2) [OF h x]
    proof
      assume t: "x \<in> set (tl ?R)"
      have "block_bytes (a, n) \<inter> free_bytes ?R = {}" using l an unfolding layout_def by blast
      then have "block_bytes (a, n) \<inter> block_bytes x = {}" using x unfolding free_bytes_def by blast
      moreover have "0 < snd x" using layoutD [OF l] t by blast
      ultimately show ?thesis using block_apart [of "(a, n)" x] n(1) by auto
    qed (use n in simp)
    then show ?thesis using bd n sz unfolding clear_of_def by simp
  qed
qed

text \<open>The two updates of \<open>free\<close>: the block's header, then that of the block before it.\<close>

lemma link_block:
  assumes c: "clear_of a (L @ (p, k) # T)" and s: "seg m (L @ (p, k) # T) b" and n: "load32 m (of_nat (a + 4)) = of_nat n"
    and mu: "merge_up (a, n) T = (n', T')"
    and m': "m' = (if T \<noteq> [] \<and> a + 8 * n = fst (hd T)
      then store32 (store32 m (of_nat (a + 4)) (of_nat n')) (of_nat a) (of_nat (head_or T' b))
      else store32 m (of_nat a) (of_nat (head_or T b)))"
  shows "seg m' ((a, n') # T') b" and "seg m' L p" and "load32 m' (of_nat (p + 4)) = of_nat k"
proof -
  have a: "a + 8 \<le> 2 ^ 31" using c by (simp add: clear_of_def)
  have c': "clear_of a L" "clear_of a T" "p + 8 \<le> 2 ^ 31" "p + 8 \<le> a \<or> a + 8 \<le> p" using c by simp_all
  have T': "clear_of a T'" "seg m T' b" using mu c' s by (cases T; auto simp: merge_up_def seg_append split: if_splits prod.splits)+
  have s': "seg m L p" "load32 m (of_nat (p + 4)) = of_nat k" using s by (simp_all add: seg_append)
  note st = load32_store32_apart header_store [OF a c'(3,4)]
  show "seg m' ((a, n') # T') b"
    using T' a n mu by (auto simp: m' merge_up_def seg_store st simp del: of_nat_add split: if_splits)
  show "seg m' L p" "load32 m' (of_nat (p + 4)) = of_nat k"
    using s' c' by (auto simp: m' seg_store st simp del: of_nat_add)
qed

lemma link_before:
  assumes c: "clear_of p (L @ (a, n') # T')" and s: "seg m ((a, n') # T') b" "seg m L p" "load32 m (of_nat (p + 4)) = of_nat k"
  shows "seg (store32 (store32 m (of_nat (p + 4)) (of_nat (k + n'))) (of_nat p) (of_nat (head_or T' b))) (L @ (p, k + n') # T') b"
    and "seg (store32 m (of_nat p) (of_nat a)) (L @ (p, k) # (a, n') # T') b"
proof -
  have p: "p + 8 \<le> 2 ^ 31" "a + 8 \<le> 2 ^ 31" "a + 8 \<le> p \<or> p + 8 \<le> a" using c by (simp_all add: clear_of_def)
  note st = load32_store32_apart header_store [OF p]
  show "seg (store32 (store32 m (of_nat (p + 4)) (of_nat (k + n'))) (of_nat p) (of_nat (head_or T' b))) (L @ (p, k + n') # T') b"
      "seg (store32 m (of_nat p) (of_nat a)) (L @ (p, k) # (a, n') # T') b"
    using c p s by (auto simp: seg_append seg_store st simp del: of_nat_add)
qed

text \<open>The bytes of the allocated blocks are the program's: the allocator keeps them.\<close>

definition heap_kept :: "hblock set \<Rightarrow> memory \<Rightarrow> memory \<Rightarrow> bool" where
  "heap_kept A m m' \<longleftrightarrow> (\<forall>z \<in> A. \<forall>y \<in> block_bytes z. m' (of_nat y) = m (of_nat y))"

lemma heap_kept_refl [simp]: "heap_kept A m m"
  by (simp add: heap_kept_def)

lemma heap_kept_trans: "heap_kept A m m' \<Longrightarrow> heap_kept A m' m'' \<Longrightarrow> heap_kept A m m''"
  by (simp add: heap_kept_def)

lemma heap_kept_mono: "heap_kept A m m' \<Longrightarrow> B \<subseteq> A \<Longrightarrow> heap_kept B m m'"
  by (auto simp: heap_kept_def)

lemma heap_kept_size:
  assumes "heap_kept A m m'" and "z \<in> A" and "0 < snd z"
  shows "load32 m' (of_nat (fst z + 4)) = load32 m (of_nat (fst z + 4))"
proof (rule load32_cong)
  have k: "m' (of_nat (fst z + 4 + i)) = m (of_nat (fst z + 4 + i))" if "i < 4" for i
  proof -
    have "fst z + 4 + i \<in> block_bytes z" using assms(3) that by (simp add: block_bytes_def)
    then show ?thesis using assms(1,2) unfolding heap_kept_def by blast
  qed
  show "m' (of_nat (fst z + 4)) = m (of_nat (fst z + 4))" "m' (of_nat (fst z + 4) + 1) = m (of_nat (fst z + 4) + 1)"
      "m' (of_nat (fst z + 4) + 2) = m (of_nat (fst z + 4) + 2)" "m' (of_nat (fst z + 4) + 3) = m (of_nat (fst z + 4) + 3)"
    using k [of 0] k [of 1] k [of 2] k [of 3] by (simp_all add: ac_simps)
qed

lemma heap_kept_store:
  assumes h: "heap_inv s R A" and x: "(\<exists>y \<in> set R. x = fst y) \<or> (\<exists>n. (x, n) \<in> A \<and> (x, n) \<notin> B)" and B: "B \<subseteq> A"
  shows "heap_kept B m (store32 m (of_nat x) v)" and "heap_kept B m (store32 m (of_nat (x + 4)) v)"
proof -
  let ?b = "unat (ubase s)"
  have l: "layout ?b (unat (usz s)) R A" and sz: "unat (usz s) < 2 ^ 31" "?b + 8 \<le> unat (usz s)" using h by (simp_all add: heap_inv_def)
  have A: "block_bytes z \<inter> block_bytes z' = {}" if "z \<in> A" "z' \<in> A" "z \<noteq> z'" for z z' using l that unfolding layout_def by blast
  have F: "block_bytes z \<inter> free_bytes R = {}" if "z \<in> A" for z using l that unfolding layout_def by blast
  have sep: "y < x \<or> x + 8 \<le> y" "y < 2 ^ 31" if z: "z \<in> B" and y: "y \<in> block_bytes z" for z y
  proof -
    have zb: "0 < snd z" "?b + 8 \<le> fst z" "fst z + 8 * snd z \<le> unat (usz s)" using layoutD [OF l, of z] z B by auto
    have yb: "fst z \<le> y" "y < fst z + 8 * snd z" using y by (simp_all add: block_bytes_def)
    show "y < 2 ^ 31" using yb zb sz by simp
    consider (base) "x = ?b" | (blk) w where "fst w = x" "0 < snd w" "block_bytes z \<inter> block_bytes w = {}"
      using x
    proof (elim disjE bexE exE conjE)
      fix w assume w: "w \<in> set R" "x = fst w"
      show thesis
        using heap_ring(2) [OF h w(1)]
      proof
        assume t: "w \<in> set (tl R)"
        have "block_bytes z \<inter> block_bytes w = {}" using F [of z] z B w(1) unfolding free_bytes_def by blast
        then show thesis using blk [of w] layoutD [OF l, of w] t w(2) by auto
      qed (use base w in simp)
    next
      fix n assume n: "(x, n) \<in> A" "(x, n) \<notin> B"
      then show thesis using blk [of "(x, n)"] layoutD [OF l, of "(x, n)"] A [of z "(x, n)"] z B by auto
    qed
    then show "y < x \<or> x + 8 \<le> y"
    proof cases
      case base
      then show ?thesis using yb zb by simp
    next
      case (blk w)
      then show ?thesis using block_apart [of z w] zb(1) yb by auto
    qed
  qed
  have xb: "x + 8 \<le> 2 ^ 31"
    using x
  proof (elim disjE bexE exE conjE)
    fix w assume "w \<in> set R" "x = fst w"
    then show ?thesis using heap_ring(1) [OF h] sz by fastforce
  next
    fix n assume "(x, n) \<in> A"
    then show ?thesis using layoutD [OF l, of "(x, n)"] sz by simp
  qed
  show "heap_kept B m (store32 m (of_nat x) v)" "heap_kept B m (store32 m (of_nat (x + 4)) v)"
    unfolding heap_kept_def using sep xb by (force intro!: store32_byte simp del: of_nat_add)+
qed

text \<open>What \<open>free\<close> does once it has found the block \<open>p\<close> before \<open>bp\<close>.\<close>

definition linked :: "memory \<Rightarrow> nat \<Rightarrow> hblock \<Rightarrow> hblock \<Rightarrow> hblock list \<Rightarrow> memory" where
  "linked m b p x T =
     (let (n', T') = merge_up x T; a = fst x;
          m1 = (if T \<noteq> [] \<and> a + 8 * snd x = fst (hd T)
            then store32 (store32 m (of_nat (a + 4)) (of_nat n')) (of_nat a) (of_nat (head_or T' b))
            else store32 m (of_nat a) (of_nat (head_or T b)))
      in if fst p + 8 * snd p = a
         then store32 (store32 m1 (of_nat (fst p + 4)) (of_nat (snd p + n'))) (of_nat (fst p)) (of_nat (head_or T' b))
         else store32 m1 (of_nat (fst p)) (of_nat a))"

lemma linked_seg:
  assumes h: "heap_inv s (L @ (p, k) # T) A" and x: "(a, n) \<in> A"
  shows "seg (linked (umem s) (unat (ubase s)) (p, k) (a, n) T) (give_back L (p, k) (a, n) T) (unat (ubase s))"
proof -
  obtain n' T' where mu: "merge_up (a, n) T = (n', T')" by (cases "merge_up (a, n) T")
  have sg: "seg (umem s) (L @ (p, k) # T) (unat (ubase s))" and n: "load32 (umem s) (of_nat (a + 4)) = of_nat n"
    using h x by (auto simp: heap_inv_def)
  note c = heap_clear [OF h] heap_clear(3) [OF h x]
  have "set T' \<subseteq> set T" using mu by (auto simp: merge_up_def split: if_splits dest: list.set_sel(2))
  then have "clear_of p T'" using c(2) unfolding clear_of_def by blast
  then have c': "clear_of p (L @ (a, n') # T')" using c(1,4) by (auto simp: clear_of_def)
  note m1 = link_block [OF c(4) sg n mu refl]
  show ?thesis using link_before [OF c' m1] mu by (simp add: linked_def give_back_def Let_def split: if_splits)
qed

lemma linked_heap_kept:
  assumes h: "heap_inv s (L @ (p, k) # T) A" and x: "(a, n) \<in> A"
  shows "heap_kept (A - {(a, n)}) (umem s) (linked (umem s) b (p, k) (a, n) T)"
proof -
  let ?B = "A - {(a, n)}"
  have "heap_kept ?B m' (store32 m' (of_nat a) v)" "heap_kept ?B m' (store32 m' (of_nat (a + 4)) v)"
      "heap_kept ?B m' (store32 m' (of_nat p) v)" "heap_kept ?B m' (store32 m' (of_nat (p + 4)) v)" for m' v
    by (rule heap_kept_store [OF h]; use x in force)+
  then have st: "heap_kept ?B m (store32 m' (of_nat a) v)" "heap_kept ?B m (store32 m' (of_nat (a + 4)) v)"
      "heap_kept ?B m (store32 m' (of_nat p) v)" "heap_kept ?B m (store32 m' (of_nat (p + 4)) v)" if "heap_kept ?B m m'" for m m' v
    using heap_kept_trans that by blast+
  show ?thesis unfolding linked_def Let_def by (simp add: st del: of_nat_add split: prod.split)
qed

lemma free_run:
  assumes h: "heap_inv s (L @ (p, k) # T) A" and x: "(a, n) \<in> A" and pa: "p < a" and at: "T \<noteq> [] \<Longrightarrow> a < fst (hd T)"
  shows "free (of_nat (a + 8)) s = Ret () (s\<lparr>umem := linked (umem s) (unat (ubase s)) (p, k) (a, n) T, freep := of_nat p\<rparr>)"
proof -
  define b where "b = unat (ubase s)"
  let ?R = "L @ (p, k) # T"
  obtain n' T' where mu: "merge_up (a, n) T = (n', T')" by (cases "merge_up (a, n) T")
  have l: "layout b (unat (usz s)) ?R A" and sz: "unat (usz s) < 2 ^ 31" and sg: "seg (umem s) ?R b"
    and n: "load32 (umem s) (of_nat (a + 4)) = of_nat n" using h x by (auto simp: heap_inv_def b_def)
  have an: "a + 8 * n \<le> unat (usz s)" "0 < n" "b + 8 \<le> a" using layoutD [OF l, of "(a, n)"] x by simp_all
  have pb: "p + 8 \<le> unat (usz s)" using heap_ring(1) [OF h, of "(p, k)"] by simp
  have Tb: "fst (hd T) + 8 \<le> unat (usz s)" if "T \<noteq> []" using heap_ring(1) [OF h, of "hd T"] that by simp
  have "wp (kwhile (\<lambda>(_, found) _. \<not> found) (free_step (of_nat a)) (freep s, False)) (\<lambda>(q, _) t. q = of_nat (fst (?R ! length L)) \<and> t = s) s"
    using pa at by (intro find_place [OF h x]) (auto simp: nth_append hd_conv_nth)
  then obtain f where lp: "kwhile (\<lambda>(_, found) _. \<not> found) (free_step (of_nat a)) (freep s, False) s = Ret (of_nat p, f) s"
    by (auto simp: wp_iff)
  have acc: "get_ptr (of_nat q) (s\<lparr>umem := m\<rparr>) = Ret (load32 m (of_nat q)) (s\<lparr>umem := m\<rparr>)"
      "get_size (of_nat q) (s\<lparr>umem := m\<rparr>) = Ret (load32 m (of_nat (q + 4))) (s\<lparr>umem := m\<rparr>)"
      "set_ptr (of_nat q) v (s\<lparr>umem := m\<rparr>) = Ret () (s\<lparr>umem := store32 m (of_nat q) v\<rparr>)"
      "set_size (of_nat q) v (s\<lparr>umem := m\<rparr>) = Ret () (s\<lparr>umem := store32 m (of_nat (q + 4)) v\<rparr>)" if "q + 8 \<le> unat (usz s)" for q m v
    using header_access [of q "s\<lparr>umem := m\<rparr>"] that sz by simp_all
  have acc0: "get_ptr (of_nat q) s = Ret (load32 (umem s) (of_nat q)) s" "get_size (of_nat q) s = Ret (load32 (umem s) (of_nat (q + 4))) s"
      "set_ptr (of_nat q) v s = Ret () (s\<lparr>umem := store32 (umem s) (of_nat q) v\<rparr>)"
      "set_size (of_nat q) v s = Ret () (s\<lparr>umem := store32 (umem s) (of_nat (q + 4)) v\<rparr>)" if "q + 8 \<le> unat (usz s)" for q v
    using header_access [of q s] that sz by simp_all
  define m1 where "m1 = (if T \<noteq> [] \<and> a + 8 * n = fst (hd T)
      then store32 (store32 (umem s) (of_nat (a + 4)) (of_nat n')) (of_nat a) (of_nat (head_or T' b))
      else store32 (umem s) (of_nat a) (of_nat (head_or T b)))"
  note c = heap_clear(3) [OF h x]
  note m1 = link_block [OF c sg n mu m1_def]
  have rd: "load32 (umem s) (of_nat p) = of_nat (head_or T b)" using sg by (simp add: seg_append)
  have hb: "head_or T b < 2 ^ 31" "T = [] \<Longrightarrow> a + 8 * n \<noteq> head_or T b" using Tb an sz by (cases T; simp add: b_def)+
  have eq1: "(of_nat a + 8 * of_nat n :: uint) = of_nat (head_or T b) \<longleftrightarrow> T \<noteq> [] \<and> a + 8 * n = fst (hd T)"
  proof -
    have "(of_nat a + 8 * of_nat n :: uint) = of_nat (a + 8 * n)" by simp
    then show ?thesis using of_nat_eq32 [of "a + 8 * n" "head_or T b"] hb an sz by (cases T) auto
  qed
  have eq2: "(of_nat p + 8 * of_nat k :: uint) = of_nat a \<longleftrightarrow> p + 8 * k = a"
  proof -
    have "p + 8 * k \<le> unat (usz s)" using heap_ring(2) [OF h, of "(p, k)"] layoutD [OF l, of "(p, k)"] an by (auto simp: b_def)
    moreover have "(of_nat p + 8 * of_nat k :: uint) = of_nat (p + 8 * k)" by simp
    ultimately show ?thesis using of_nat_eq32 [of "p + 8 * k" a] an sz by auto
  qed
  have ap: "p + 8 \<le> 2 ^ 31" "a + 8 \<le> 2 ^ 31" "a + 8 \<le> p \<or> p + 8 \<le> a" using c an sz by (auto simp: clear_of_def)
  have st1: "(if of_nat a + 8 * of_nat n = (of_nat (head_or T b) :: uint)
      then bnd (get_size (of_nat (head_or T b))) (\<lambda>nsize. bnd (set_size (of_nat a) (of_nat n + nsize)) (\<lambda>_.
           bnd (get_ptr (of_nat (head_or T b))) (\<lambda>nn. set_ptr (of_nat a) nn)))
      else set_ptr (of_nat a) (of_nat (head_or T b))) s = Ret () (s\<lparr>umem := m1\<rparr>)"
  proof (cases "T \<noteq> [] \<and> a + 8 * n = fst (hd T)")
    case True
    then obtain q j T2 where T: "T = (q, j) # T2" "q = a + 8 * n" by (cases T) auto
    then have q: "n' = n + j" "T' = T2" using mu by (auto simp: merge_up_def)
    have "load32 (umem s) (of_nat (q + 4)) = of_nat j" "load32 (umem s) (of_nat q) = of_nat (head_or T2 b)" using sg T by (simp_all add: seg_append)
    moreover have "load32 (store32 (umem s) (of_nat (a + 4)) v) (of_nat q) = load32 (umem s) (of_nat q)" for v
      using c T by (intro header_store) (auto simp: clear_of_def)
    ultimately show ?thesis unfolding eq1 using True Tb an acc0 [of q] acc0 [of a] acc [of q] acc [of a] T(1) q
      by (simp add: bnd_def m1_def del: of_nat_add) simp
  next
    case False
    then show ?thesis unfolding eq1 using acc0 [of a] an by (auto simp: m1_def)
  qed
  have st2: "(if of_nat p + 8 * of_nat k = (of_nat a :: uint)
      then bnd (get_size (of_nat a)) (\<lambda>bsize. bnd (set_size (of_nat p) (of_nat k + bsize)) (\<lambda>_.
           bnd (get_ptr (of_nat a)) (\<lambda>bn. set_ptr (of_nat p) bn)))
      else set_ptr (of_nat p) (of_nat a)) (s\<lparr>umem := m1\<rparr>) = Ret () (s\<lparr>umem := linked (umem s) b (p, k) (a, n) T\<rparr>)"
  proof -
    have lk: "linked (umem s) b (p, k) (a, n) T = (if p + 8 * k = a
        then store32 (store32 m1 (of_nat (p + 4)) (of_nat (k + n'))) (of_nat p) (of_nat (head_or T' b)) else store32 m1 (of_nat p) (of_nat a))"
      by (simp add: linked_def mu m1_def)
    show ?thesis unfolding eq2 lk using m1(1) acc [of a] acc [of p] pb an header_store [OF ap] by (simp add: bnd_def)
  qed
  have sub: "(of_nat (a + 8) - 8 :: uint) = of_nat a" by simp
  show ?thesis
    unfolding free_def Let_def sub
    using lp n rd st1 st2 m1(3) acc0 [of p] acc0 [of a] acc [of p] pb an
    by (simp add: bnd_def b_def [symmetric])
qed

lemma merge_up_facts: "snd x \<le> fst (merge_up x T)" "length (snd (merge_up x T)) \<le> length T"
  by (simp_all add: merge_up_def)

lemma give_back_facts:
  shows "length (give_back L p x T) \<le> Suc (length (L @ p # T))" and "\<exists>y \<in> set (give_back L p x T). snd x \<le> snd y"
    and "\<exists>y \<in> set (give_back L p x T). fst y = fst p"
  using merge_up_facts [of x T] unfolding give_back_def case_prod_beta by auto

lemma free_spec:
  assumes h: "heap_inv s R A" and x: "(a, n) \<in> A"
  shows "wp (free (of_nat (a + 8))) (\<lambda>_ t. \<exists>R'. heap_inv t R' (A - {(a, n)}) \<and> free_bytes R' = free_bytes R \<union> block_bytes (a, n) \<and>
    heap_kept (A - {(a, n)}) (umem s) (umem t) \<and> length R' \<le> Suc (length R) \<and> (\<exists>y \<in> set R'. n \<le> snd y) \<and>
    t = s\<lparr>umem := umem t, freep := freep t\<rparr>) s"
proof -
  have l: "layout (unat (ubase s)) (unat (usz s)) R A" using h by (simp add: heap_inv_def)
  obtain b0 R0 where R0: "R = [] @ (b0, 0) # R0" "b0 = unat (ubase s)" using l by (cases R) (auto simp: layout_def)
  have "clear_of a R" using heap_clear(3) [OF h [unfolded R0(1)] x] R0(1) by simp
  then have "\<forall>y \<in> set R. fst y \<noteq> a" by (auto simp: clear_of_def)
  moreover have "b0 < a" using layoutD [OF l, of "(a, n)"] x R0(2) by simp
  ultimately obtain i where i: "i < length R" "fst (R ! i) < a" "Suc i < length R \<Longrightarrow> a < fst (R ! Suc i)"
    using place_ex [of R a] R0(1) by auto
  obtain p k where pk: "R ! i = (p, k)" by (cases "R ! i")
  define L T where "L = take i R" and "T = drop (Suc i) R"
  have R: "R = L @ (p, k) # T" using id_take_nth_drop [OF i(1)] pk by (simp add: L_def T_def)
  have pa: "p < a" "T \<noteq> [] \<Longrightarrow> a < fst (hd T)" using i pk by (auto simp: T_def hd_drop_conv_nth)
  let ?R' = "give_back L (p, k) (a, n) T" and ?t = "s\<lparr>umem := linked (umem s) (unat (ubase s)) (p, k) (a, n) T, freep := of_nat p\<rparr>"
  note g = give_back_layout [OF l [unfolded R] x pa]
  have kp: "heap_kept (A - {(a, n)}) (umem s) (umem ?t)" using linked_heap_kept [OF h [unfolded R] x] by simp
  have "heap_inv ?t ?R' (A - {(a, n)})"
  proof -
    have "load32 (umem ?t) (of_nat (fst z + 4)) = of_nat (snd z)" if "z \<in> A - {(a, n)}" for z
      using heap_kept_size [OF kp that] layoutD [OF l, of z] h that by (simp add: heap_inv_def)
    then show ?thesis using h g(1) linked_seg [OF h [unfolded R] x] give_back_facts(3) [of L "(p, k)" "(a, n)" T] by (auto simp: heap_inv_def)
  qed
  then show ?thesis using free_run [OF h [unfolded R] x pa] g(2) kp give_back_facts(1,2) [of L "(p, k)" "(a, n)" T] R
    by (auto simp: wp_def intro!: exI [of _ ?R'])
qed

section \<open>Allocating\<close>

lemma spaced_disjoint:
  assumes "spaced (L @ x # T)"
  shows "block_bytes x \<inter> free_bytes (L @ T) = {}"
proof -
  have "block_bytes x \<inter> block_bytes y = {}" if y: "y \<in> set L" for y
  proof -
    obtain i where "i < length L" "y = L ! i" using y by (auto simp: in_set_conv_nth)
    then show ?thesis using spaced_nth [OF assms, of i "length L"] by (auto simp: nth_append block_bytes_def)
  qed
  moreover have "block_bytes x \<inter> block_bytes y = {}" if y: "y \<in> set T" for y
  proof -
    obtain i where "i < length T" "y = T ! i" using y by (auto simp: in_set_conv_nth)
    then show ?thesis using spaced_nth [OF assms, of "length L" "Suc (length L + i)"] by (auto simp: nth_append block_bytes_def)
  qed
  ultimately show ?thesis unfolding free_bytes_def set_append by blast
qed

text \<open>A block is handed out whole, or its upper end is.\<close>

lemma layout_take:
  assumes l: "layout b lim (L @ (p, n) # T) A" and L: "L \<noteq> []" and u: "0 < u" "u \<le> n"
    and R': "R' = (if u = n then L @ T else L @ (p, n - u) # T)" and q: "q = p + 8 * (n - u)"
  shows "layout b lim R' (insert (q, u) A)" and "(q, u) \<notin> A" and "block_bytes (q, u) \<subseteq> block_bytes (p, n)"
    and "free_bytes (L @ (p, n) # T) = free_bytes R' \<union> block_bytes (q, u)" and "block_bytes (q, u) \<inter> free_bytes R' = {}"
proof -
  let ?R = "L @ (p, n) # T"
  show sub: "block_bytes (q, u) \<subseteq> block_bytes (p, n)" using u q by (auto simp: block_bytes_def)
  have pn: "(p, n) \<in> set (tl ?R)" using L by (cases L) auto
  have sp: "spaced ?R" and hd: "hd ?R = (b, 0)" using l by (simp_all add: layout_def)
  have tl: "b + 8 \<le> p" "p + 8 * n \<le> lim" using layoutD [OF l, of "(p, n)"] pn by simp_all
  have split: "block_bytes (p, n) = block_bytes (p, n - u) \<union> block_bytes (q, u)" "block_bytes (p, n - u) \<inter> block_bytes (q, u) = {}"
    using u q by (auto simp: block_bytes_def)
  show fb: "free_bytes ?R = free_bytes R' \<union> block_bytes (q, u)"
  proof (cases "u = n")
    case True
    then show ?thesis by (simp add: R' q Un_ac)
  next
    case False
    then have "free_bytes R' = free_bytes L \<union> (block_bytes (p, n - u) \<union> free_bytes T)" by (simp add: R')
    then show ?thesis unfolding free_bytes_simps split(1) by blast
  qed
  show dj: "block_bytes (q, u) \<inter> free_bytes R' = {}"
  proof -
    have "block_bytes (q, u) \<inter> free_bytes (L @ T) = {}" using spaced_disjoint [OF sp] sub by blast
    moreover have "free_bytes R' \<subseteq> free_bytes (L @ T) \<union> block_bytes (p, n - u)" by (cases "u = n") (auto simp: R')
    ultimately show ?thesis using split(2) by blast
  qed
  have A: "block_bytes z \<inter> free_bytes ?R = {}" if "z \<in> A" for z using l that unfolding layout_def by blast
  have AA: "block_bytes z \<inter> block_bytes z' = {}" if "z \<in> A" "z' \<in> A" "z \<noteq> z'" for z z' using l that unfolding layout_def by blast
  have ne: "block_bytes (q, u) \<noteq> {}" using u by (simp add: block_bytes_def)
  show "(q, u) \<notin> A" using A [of "(q, u)"] ne fb by blast
  have sp': "spaced R'" using sp L u by (cases T) (auto simp: R' spaced_append spaced_Cons)
  have hd': "R' \<noteq> []" "hd R' = (b, 0)" using L hd by (simp_all add: R')
  have tl': "0 < snd z \<and> b + 8 \<le> fst z \<and> fst z + 8 * snd z \<le> lim" if "z \<in> set (tl R') \<union> insert (q, u) A" for z
  proof -
    have "z \<in> set (tl ?R) \<union> A \<or> z = (q, u) \<or> z = (p, n - u) \<and> u < n" using that L u by (auto simp: R' split: if_splits)
    then show ?thesis using layoutD [OF l, of z] tl u q by auto
  qed
  show "layout b lim R' (insert (q, u) A)"
    unfolding layout_def
  proof (intro conjI ballI impI)
    show "block_bytes z \<inter> block_bytes z' = {}" if "z \<in> insert (q, u) A" "z' \<in> insert (q, u) A" "z \<noteq> z'" for z z'
      using that AA [of z z'] A [of z] A [of z'] fb by blast
    show "block_bytes z \<inter> free_bytes R' = {}" if "z \<in> insert (q, u) A" for z using that A [of z] dj fb by blast
  qed (use hd' sp' tl' in blast)+
qed

lemma heap_kept_free:
  assumes h: "heap_inv s R A" and x: "{x ..< x + 4} \<subseteq> free_bytes R" "x + 4 \<le> 2 ^ 31"
  shows "heap_kept A m (store32 m (of_nat x) v)"
  unfolding heap_kept_def
proof (intro ballI)
  fix z y assume z: "z \<in> A" and y: "y \<in> block_bytes z"
  have l: "layout (unat (ubase s)) (unat (usz s)) R A" and sz: "unat (usz s) < 2 ^ 31" using h by (simp_all add: heap_inv_def)
  have "block_bytes z \<inter> free_bytes R = {}" using l z unfolding layout_def by blast
  then have "y \<notin> {x ..< x + 4}" using x(1) y by blast
  moreover have "y < 2 ^ 31" using layoutD [OF l, of z] z y sz by (auto simp: block_bytes_def)
  ultimately show "store32 m (of_nat x) v (of_nat y) = m (of_nat y)" using x(2) by (intro store32_byte) auto
qed

lemma take_block:
  assumes h: "heap_inv s (L @ (pr, j) # (p, n) # T) A" and u: "0 < u" "u \<le> n"
  defines "q \<equiv> p + 8 * (n - u)" and "R' \<equiv> (if u = n then L @ (pr, j) # T else L @ (pr, j) # (p, n - u) # T)"
  shows "wp (malloc_step (of_nat u) (of_nat pr, of_nat p, r)) (\<lambda>(_, _, r') t. r' = Some (of_nat (q + 8)) \<and>
    heap_inv t R' (insert (q, u) A) \<and> (q, u) \<notin> A \<and> heap_kept A (umem s) (umem t)) s"
proof -
  let ?b = "unat (ubase s)" and ?R = "L @ (pr, j) # (p, n) # T"
  have l: "layout ?b (unat (usz s)) ?R A" and sz: "unat (usz s) < 2 ^ 31" and sg: "seg (umem s) ?R ?b"
    using h by (auto simp: heap_inv_def)
  have R: "?R = (L @ [(pr, j)]) @ (p, n) # T" by simp
  have R'2: "R' = (if u = n then (L @ [(pr, j)]) @ T else (L @ [(pr, j)]) @ (p, n - u) # T)" by (simp add: R'_def)
  note lt = layout_take [OF l [unfolded R] _ u R'2 q_def [THEN meta_eq_to_obj_eq], simplified]
  have pn: "p + 8 * n \<le> unat (usz s)" "0 < n" using layoutD [OF l, of "(p, n)"] by (cases L; simp)+
  have pb: "p + 8 \<le> unat (usz s)" "pr + 8 \<le> unat (usz s)" using heap_ring(1) [OF h, of "(p, n)"] heap_ring(1) [OF h, of "(pr, j)"] by simp_all
  have rd: "load32 (umem s) (of_nat p) = of_nat (head_or T ?b)" "load32 (umem s) (of_nat (p + 4)) = of_nat n" using sg by (simp_all add: seg_append)
  note c = heap_clear [OF h [unfolded R]] heap_clear [OF h]
  define m where "m = (if u = n then store32 (umem s) (of_nat pr) (of_nat (head_or T ?b))
    else store32 (store32 (umem s) (of_nat (p + 4)) (of_nat (n - u))) (of_nat (q + 4)) (of_nat u))"
  have le: "(of_nat u :: uint) \<le> of_nat n" "(of_nat n :: uint) = of_nat u \<longleftrightarrow> u = n"
    using u pn sz of_nat_less32 [of n u] of_nat_eq32 [of n u] by (auto simp: not_less [symmetric] simp del: not_less)
  have sub: "(of_nat n - of_nat u :: uint) = of_nat (n - u)" using u by simp
  have q: "(of_nat p + 8 * of_nat (n - u) :: uint) = of_nat q" "q + 8 \<le> unat (usz s)" using u pn by (simp_all add: q_def)
  have run: "malloc_step (of_nat u) (of_nat pr, of_nat p, r) s = Ret (of_nat pr, of_nat q, Some (of_nat (q + 8))) (s\<lparr>umem := m, freep := of_nat pr\<rparr>)"
  proof (cases "u = n")
    case True
    then show ?thesis using le rd pb sz by (simp add: malloc_step_def bnd_def header_access m_def q_def)
  next
    case False
    then show ?thesis using le rd pb sz q
      by (simp add: malloc_step_def bnd_def header_access m_def Let_def sub del: of_nat_diff)
  qed
  have kp: "heap_kept A (umem s) m"
  proof (cases "u = n")
    case True
    then show ?thesis using heap_kept_store(1) [OF h, of pr A] by (simp add: m_def)
  next
    case False
    have "{q + 4 ..< q + 4 + 4} \<subseteq> block_bytes (p, n)" using u by (auto simp: block_bytes_def q_def)
    then have "heap_kept A m' (store32 m' (of_nat (q + 4)) v)" for m' v using q(2) sz by (intro heap_kept_free [OF h]) auto
    moreover have "heap_kept A (umem s) (store32 (umem s) (of_nat (p + 4)) v)" for v by (rule heap_kept_store [OF h]) auto
    ultimately show ?thesis unfolding m_def using False heap_kept_trans by (simp del: of_nat_add) blast
  qed
  have ap: "p + 8 \<le> 2 ^ 31" "pr + 8 \<le> 2 ^ 31" "pr + 8 \<le> p \<or> p + 8 \<le> pr" "clear_of pr T" "clear_of p L" "clear_of p T" using c by simp_all
  have sgs: "seg (umem s) L pr" "load32 (umem s) (of_nat pr) = of_nat p" "load32 (umem s) (of_nat (pr + 4)) = of_nat j" "seg (umem s) T ?b"
    using sg by (simp_all add: seg_append)
  have cq: "clear_of q (L @ (pr, j) # (p, n - u) # T)" if un: "u < n"
  proof -
    have qq: "p + 8 \<le> q" "q + 8 \<le> p + 8 * n" using un u by (simp_all add: q_def)
    have "fst y + 8 \<le> q \<or> q + 8 \<le> fst y" if y: "y \<in> set (L @ (pr, j) # T)" for y
    proof -
      have yR: "y \<in> set ?R" using y by auto
      show ?thesis
        using heap_ring(2) [OF h yR]
      proof
        assume "y = (?b, 0)"
        moreover have "?b + 8 \<le> p" using layoutD [OF l, of "(p, n)"] by (cases L) auto
        ultimately show ?thesis using qq by simp
      next
        assume "y \<in> set (tl ?R)"
        then have "0 < snd y" using layoutD [OF l] by blast
        moreover have "spaced ((L @ [(pr, j)]) @ (p, n) # T)" using l by (simp add: layout_def)
        then have "block_bytes (p, n) \<inter> block_bytes y = {}"
          using spaced_disjoint [of "L @ [(pr, j)]" "(p, n)" T] y unfolding free_bytes_def by auto
        ultimately show ?thesis using block_apart [of "(p, n)" y] pn qq by auto
      qed
    qed
    moreover have "fst y + 8 \<le> 2 ^ 31" if y: "y \<in> set (L @ (pr, j) # T)" for y
    proof -
      have "y \<in> set ?R" using y by auto
      then show ?thesis using heap_ring(1) [OF h] sz by fastforce
    qed
    ultimately have "clear_of q (L @ (pr, j) # T)" using q(2) sz unfolding clear_of_def by simp
    then show ?thesis using qq ap(1) by simp
  qed
  have sg': "seg m R' ?b"
  proof (cases "u = n")
    case True
    then show ?thesis using ap sgs c by (simp add: m_def R'_def seg_append seg_store load32_store32_apart del: of_nat_add)
  next
    case False
    then have "seg (store32 (umem s) (of_nat (p + 4)) (of_nat (n - u))) R' ?b"
      using ap sgs rd header_store [OF ap(1,2,3)] by (simp add: R'_def seg_append seg_store load32_store32_apart del: of_nat_add of_nat_diff)
    then show ?thesis using cq False u by (simp add: m_def R'_def seg_store del: of_nat_add of_nat_diff)
  qed
  have "load32 m (of_nat (q + 4)) = of_nat u"
    using rd header_store [OF ap(2,1)] ap by (auto simp: m_def q_def simp del: of_nat_add)
  moreover have "load32 m (of_nat (fst z + 4)) = of_nat (snd z)" if "z \<in> A" for z
    using heap_kept_size [OF kp that] layoutD [OF l, of z] h that by (simp add: heap_inv_def)
  ultimately have "heap_inv (s\<lparr>umem := m, freep := of_nat pr\<rparr>) R' (insert (q, u) A)"
    using h lt sg' by (auto simp: heap_inv_def R'_def)
  then show ?thesis using run kp lt(2) by (simp add: wp_def)
qed

text \<open>More memory from the kernel is a new block above all others, which \<open>free\<close> puts in the ring.\<close>

lemma heap_grow:
  assumes h: "heap_inv s R A" and n: "0 < n" "unat (usz s) + 8 * n < 2 ^ 31"
    and t: "t = s\<lparr>usz := usz s + 8 * of_nat n, grants := gs, umem := store32 (umem s) (usz s + 4) (of_nat n)\<rparr>"
  shows "heap_inv t R (insert (unat (usz s), n) A)" and "heap_kept A (umem s) (umem t)" and "(unat (usz s), n) \<notin> A"
proof -
  let ?z = "unat (usz s)" and ?b = "unat (ubase s)"
  have l: "layout ?b ?z R A" and b: "0 < ?b" "?b + 8 \<le> ?z" and sg: "seg (umem s) R ?b"
    and fp: "\<exists>x \<in> set R. freep s = of_nat (fst x)" and A: "\<forall>x \<in> A. load32 (umem s) (of_nat (fst x + 4)) = of_nat (snd x)"
    using h by (simp_all add: heap_inv_def)
  have z: "usz s + 4 = of_nat (?z + 4)" "umem t = store32 (umem s) (of_nat (?z + 4)) (of_nat n)" "ubase t = ubase s" "freep t = freep s"
    by (simp_all add: t)
  have uz: "unat (usz t) = ?z + 8 * n"
  proof -
    have "usz t = of_nat (?z + 8 * n)" by (simp add: t)
    then show ?thesis using n by (simp add: unat_of_nat32 del: of_nat_add of_nat_mult)
  qed
  have lo: "fst x + 8 * snd x \<le> ?z" if "x \<in> set R \<union> A" for x
    using that heap_ring(2) [OF h, of x] layoutD [OF l, of x] b by auto
  have dj: "block_bytes x \<inter> block_bytes (?z, n) = {}" if "x \<in> set R \<union> A" for x using lo [OF that] by (auto simp: block_bytes_def)
  show new: "(?z, n) \<notin> A" using lo [of "(?z, n)"] n by auto
  show kp: "heap_kept A (umem s) (umem t)"
    unfolding heap_kept_def z(2)
  proof (intro ballI)
    fix x y assume "x \<in> A" "y \<in> block_bytes x"
    then have "y < ?z" using lo [of x] by (auto simp: block_bytes_def)
    then show "store32 (umem s) (of_nat (?z + 4)) (of_nat n) (of_nat y) = umem s (of_nat y)" using n by (intro store32_byte) auto
  qed
  have "clear_of ?z R" unfolding clear_of_def using heap_ring(1) [OF h] n by fastforce
  then have sg': "seg (umem t) R ?b" using sg seg_store(2) unfolding z(2) by blast
  have A': "load32 (umem t) (of_nat (fst x + 4)) = of_nat (snd x)" if "x \<in> insert (?z, n) A" for x
  proof (cases "x = (?z, n)")
    case True
    then show ?thesis by (simp add: z(2))
  next
    case False
    then show ?thesis using heap_kept_size [OF kp, of x] A that layoutD [OF l, of x] by simp
  qed
  have "layout ?b (unat (usz t)) R (insert (?z, n) A)"
    unfolding layout_def uz
  proof (intro conjI)
    show "\<forall>x \<in> set (tl R) \<union> insert (?z, n) A. 0 < snd x \<and> ?b + 8 \<le> fst x \<and> fst x + 8 * snd x \<le> ?z + 8 * n"
      using layoutD [OF l] n b by fastforce
    show "\<forall>x \<in> insert (?z, n) A. \<forall>y \<in> insert (?z, n) A. x \<noteq> y \<longrightarrow> block_bytes x \<inter> block_bytes y = {}"
      using l dj unfolding layout_def by blast
    have "block_bytes (?z, n) \<inter> free_bytes R = {}" using dj unfolding free_bytes_def by blast
    then show "\<forall>x \<in> insert (?z, n) A. block_bytes x \<inter> free_bytes R = {}" using l unfolding layout_def by blast
  qed (use l in \<open>simp_all add: layout_def\<close>)
  then show "heap_inv t R (insert (?z, n) A)" unfolding heap_inv_def z(3,4) using b sg' fp A' uz n by simp
qed

lemma heap_freep:
  assumes h: "heap_inv s R A"
  shows "freep s \<noteq> 0"
proof -
  obtain x where x: "x \<in> set R" "freep s = of_nat (fst x)" using h by (auto simp: heap_inv_def)
  have "0 < unat (ubase s)" and l: "layout (unat (ubase s)) (unat (usz s)) R A" "unat (usz s) < 2 ^ 31" using h by (simp_all add: heap_inv_def)
  then have "0 < fst x" using heap_ring(2) [OF h x(1)] layoutD [OF l(1), of x] by auto
  then show ?thesis using of_nat_eq32 [of "fst x" 0] heap_ring(1) [OF h x(1)] l(2) x(2) by simp
qed

lemma morecore_spec:
  assumes h: "heap_inv s R A" and u: "0 < u" "8 * u < 2 ^ 31"
  shows "wp (morecore (of_nat u)) (\<lambda>p t. (p = 0 \<and> \<not> (unat (usz s) + 8 * max 4096 u < 2 ^ 31 \<and> (\<exists>gs. grants s = True # gs)) \<and> heap_inv t R A \<and> umem t = umem s) \<or>
    (p \<noteq> 0 \<and> p = freep t \<and> (\<exists>R'. heap_inv t R' A \<and> heap_kept A (umem s) (umem t) \<and> (\<exists>y \<in> set R'. u \<le> snd y)))) s"
proof -
  let ?z = "unat (usz s)"
  define n where "n = max 4096 u"
  have nu: "(if (of_nat u :: uint) < 4096 then 4096 else of_nat u) = (of_nat n :: uint)"
    using of_nat_less32 [of u 4096] u by (auto simp: n_def max_def)
  have n8: "8 * n < 2 ^ 31" "0 < n" "u \<le> n" using u by (auto simp: n_def)
  have w: "(of_nat n * 8 :: uint) = of_nat (8 * n)" by (simp add: mult.commute)
  have un: "unat (of_nat n * 8 :: uint) = 8 * n" unfolding w using n8 by (simp add: unat_of_nat32 del: of_nat_mult)
  have pos: "0 < sint (of_nat n * 8 :: uint)"
    using sint_nat_small [of "of_nat n * 8"] un n8 by simp
  have z: "?z < 2 ^ 31" using h by (simp add: heap_inv_def)
  have un': "unat (usz s + of_nat n * 8) = ?z + 8 * n" using un z n8 by (simp add: unat_word_ariths)
  have big: "usz s + of_nat n * 8 \<ge> KERNBASE \<longleftrightarrow> 2 ^ 31 \<le> ?z + 8 * n" "\<not> usz s + of_nat n * 8 < usz s"
    using un' by (simp_all add: word_le_nat_alt word_less_nat_alt KERNBASE_def)
  show ?thesis
  proof (cases "?z + 8 * n < 2 ^ 31 \<and> (\<exists>gs. grants s = True # gs)")
    case False
    have "\<exists>gs. sbrk (of_nat n * 8) s = Ret (-1) (s\<lparr>grants := gs\<rparr>)"
    proof (cases "2 ^ 31 \<le> ?z + 8 * n")
      case True
      then show ?thesis using big pos by (intro exI [of _ "grants s"]) (simp add: sbrk_def Let_def)
    next
      case f: False
      then show ?thesis using False big pos by (auto simp: sbrk_def Let_def split: list.split bool.split)
    qed
    then obtain gs where "sbrk (of_nat n * 8) s = Ret (-1) (s\<lparr>grants := gs\<rparr>)" by blast
    then show ?thesis using h False by (simp add: morecore_def nu Let_def bnd_def wp_def heap_inv_def n_def)
  next
    case True
    then obtain gs where gs: "grants s = True # gs" and lt: "?z + 8 * n < 2 ^ 31" by blast
    let ?s1 = "s\<lparr>usz := usz s + 8 * of_nat n, grants := gs\<rparr>"
    let ?t = "s\<lparr>usz := usz s + 8 * of_nat n, grants := gs, umem := store32 (umem s) (usz s + 4) (of_nat n)\<rparr>"
    have sb: "sbrk (of_nat n * 8) s = Ret (usz s) ?s1" using gs big pos lt by (simp add: sbrk_def Let_def mult.commute)
    note g = heap_grow [OF h n8(2) lt, where gs = gs, OF refl]
    have "set_size (of_nat ?z) (of_nat n) ?s1 = Ret () (?s1\<lparr>umem := store32 (umem ?s1) (of_nat (?z + 4)) (of_nat n)\<rparr>)"
      using un' lt n8 by (intro header_access) (simp_all add: mult.commute)
    then have "set_size (usz s) (of_nat n) ?s1 = Ret () ?t" by simp
    moreover have "usz s \<noteq> -1"
    proof
      have "unat (usz s + 1) = ?z + 1" using z by (simp add: unat_word_ariths)
      moreover assume "usz s = -1"
      then have "usz s + 1 = 0" by simp
      ultimately show False by simp
    qed
    moreover obtain R' t where "free (of_nat (?z + 8)) ?t = Ret () t" "heap_inv t R' A" "heap_kept A (umem ?t) (umem t)" "\<exists>y \<in> set R'. n \<le> snd y"
      using free_spec [OF g(1), of ?z n] g(3) by (auto simp: wp_unit)
    moreover have "freep t \<noteq> 0" using calculation(4) by (rule heap_freep)
    ultimately show ?thesis using g(2) heap_kept_trans n8(3)
      by (simp add: morecore_def nu Let_def bnd_def wp_def sb) (meson le_trans)
  qed
qed

text \<open>What \<open>malloc\<close> returns for \<open>u\<close> units: a block that was not allocated before, or, when it may fail, null.\<close>

definition malloced :: "nat \<Rightarrow> hblock set \<Rightarrow> memory \<Rightarrow> bool \<Rightarrow> uint \<Rightarrow> umem_state \<Rightarrow> bool" where
  "malloced u A m may_fail v t \<longleftrightarrow> heap_kept A m (umem t) \<and>
     ((v = 0 \<and> may_fail \<and> (\<exists>R. heap_inv t R A)) \<or>
      (v \<noteq> 0 \<and> (\<exists>q R. v = of_nat (q + 8) \<and> heap_inv t R (insert (q, u) A) \<and> (q, u) \<notin> A)))"

abbreviation malloc_loop :: "nat \<Rightarrow> uint \<times> uint \<times> uint option \<Rightarrow> (umem_state, uint \<times> uint \<times> uint option) kern" where
  "malloc_loop u \<equiv> kwhile (\<lambda>(_, _, r) _. r = None) (malloc_step (of_nat u))"

lemma malloc_loop_step:
  "wp (malloc_loop u (pv, p, None)) Q s \<longleftrightarrow> wp (malloc_step (of_nat u) (pv, p, None)) (\<lambda>x. wp (malloc_loop u x) Q) s"
  by (subst wp_bnd [symmetric]) (simp add: wp_def, subst kwhile_unfold, simp)

lemma malloc_loop_done: "wp (malloc_loop u (pv, p, Some v)) Q s \<longleftrightarrow> Q (pv, p, Some v) s"
  by (simp add: wp_def kwhile_unfold [of _ _ "(pv, p, Some v)"])

lemma ring_next:
  assumes h: "heap_inv s R A" and i: "i < length R"
  shows "get_ptr (of_nat (fst (R ! i))) s = Ret (of_nat (fst (R ! (Suc i mod length R)))) s"
    and "get_size (of_nat (fst (R ! i))) s = Ret (of_nat (snd (R ! i))) s"
proof -
  have sz: "unat (usz s) < 2 ^ 31" and sg: "seg (umem s) R (unat (ubase s))" and hd: "R ! 0 = (unat (ubase s), 0)"
    using h i hd_conv_nth [of R] by (auto simp: heap_inv_def layout_def)
  have "Suc i mod length R = (if Suc i < length R then Suc i else 0)" using i by (simp add: mod_Suc)
  then show "get_ptr (of_nat (fst (R ! i))) s = Ret (of_nat (fst (R ! (Suc i mod length R)))) s"
      "get_size (of_nat (fst (R ! i))) s = Ret (of_nat (snd (R ! i))) s"
    using seg_nth [OF sg i] header_access(1,2) [OF heap_ring(1) [OF h nth_mem [OF i]] sz] hd by simp_all
qed

lemma ring_distinct:
  assumes h: "heap_inv s R A" and i: "i < length R" "j < length R"
  shows "(of_nat (fst (R ! i)) :: uint) = of_nat (fst (R ! j)) \<longleftrightarrow> i = j"
proof -
  have sz: "unat (usz s) < 2 ^ 31" and sp: "spaced R" using h by (simp_all add: heap_inv_def layout_def)
  have "fst (R ! i) < 2 ^ 32" "fst (R ! j) < 2 ^ 32" using heap_ring(1) [OF h nth_mem [OF i(1)]] heap_ring(1) [OF h nth_mem [OF i(2)]] sz by simp_all
  then show ?thesis using of_nat_eq32 spaced_nth [OF sp, of i j] spaced_nth [OF sp, of j i] i by (metis add_leD1 less_irrefl less_le nat_neq_iff not_le)
qed

text \<open>The loop of \<open>malloc\<close>, \<open>c\<close> blocks after \<open>freep\<close>, having passed only blocks that are too small.\<close>

lemma ring_walk:
  assumes h: "heap_inv s R A" and u: "0 < u" "8 * u < 2 ^ 31" and f: "f < length R" "freep s = of_nat (fst (R ! f))"
    and c: "c < length R" "\<forall>i < c. snd (R ! ((f + Suc i) mod length R)) < u"
    and grow: "\<forall>y \<in> set R. snd y < u \<Longrightarrow> wp (malloc_loop u (of_nat (fst (R ! ((f + length R - 1) mod length R))), freep s, None))
      (\<lambda>(_, _, r) t. \<exists>v. r = Some v \<and> malloced u A (umem s) g v t) s"
  shows "wp (malloc_loop u (of_nat (fst (R ! ((f + c) mod length R))), of_nat (fst (R ! ((f + Suc c) mod length R))), None))
    (\<lambda>(_, _, r) t. \<exists>v. r = Some v \<and> malloced u A (umem s) g v t) s"
  using c
proof (induction "length R - c" arbitrary: c rule: less_induct)
  case less
  let ?N = "length R"
  define i where "i = (f + Suc c) mod ?N"
  have N: "0 < ?N" using f(1) by linarith
  have i: "i < ?N" "i = Suc ((f + c) mod ?N) mod ?N" using N by (simp_all add: i_def mod_Suc_eq)
  have l: "layout (unat (ubase s)) (unat (usz s)) R A" and sz: "unat (usz s) < 2 ^ 31" using h by (simp_all add: heap_inv_def)
  have b0: "R ! 0 = (unat (ubase s), 0)" using l hd_conv_nth [of R] N by (auto simp: layout_def)
  have sn: "snd (R ! i) < 2 ^ 31" using heap_ring(2) [OF h nth_mem [OF i(1)]] layoutD [OF l, of "R ! i"] sz by auto
  show ?case
  proof (cases "u \<le> snd (R ! i)")
    case True
    then have "i \<noteq> 0" using b0 u by (cases i) auto
    then have i': "(f + c) mod ?N = i - 1" using i N by (auto simp: mod_Suc split: if_splits)
    obtain p n where pn: "R ! i = (p, n)" by (cases "R ! i")
    obtain pr j where pr: "R ! (i - 1) = (pr, j)" by (cases "R ! (i - 1)")
    define L T where "L = take (i - 1) R" and "T = drop (Suc i) R"
    have R: "R = L @ (pr, j) # (p, n) # T"
      using id_take_nth_drop [of "i - 1" R] Cons_nth_drop_Suc [of i R] i(1) \<open>i \<noteq> 0\<close> pn pr by (simp add: L_def T_def)
    have un: "u \<le> n" using True pn by simp
    note tb = take_block [OF h [unfolded R] u(1) un, of None]
    let ?q = "p + 8 * (n - u)"
    show ?thesis
      unfolding malloc_loop_step i_def [symmetric] i' pn pr fst_conv
    proof (rule wp_mono [OF tb])
      fix x :: "uint \<times> uint \<times> uint option" and t
      assume P: "(case x of (_, _, r') \<Rightarrow> \<lambda>t. r' = Some (of_nat (?q + 8)) \<and> heap_inv t (if u = n then L @ (pr, j) # T
          else L @ (pr, j) # (p, n - u) # T) (insert (?q, u) A) \<and> (?q, u) \<notin> A \<and> heap_kept A (umem s) (umem t)) t"
      obtain y z where x: "x = (y, z, Some (of_nat (?q + 8)))" using P by (cases x) auto
      have hi: "\<exists>R. heap_inv t R (insert (?q, u) A)" "(?q, u) \<notin> A" "heap_kept A (umem s) (umem t)" using P by (auto simp: x)
      moreover have "(of_nat (?q + 8) :: uint) \<noteq> 0"
      proof -
        have "(?q, u) \<in> insert (?q, u) A" by simp
        then have "?q + 8 * u \<le> unat (usz t)" "unat (usz t) < 2 ^ 31" using hi(1) layoutD by (fastforce simp: heap_inv_def)+
        then show ?thesis using of_nat_eq32 [of "?q + 8" 0] u(1) by simp
      qed
      ultimately show "wp (malloc_loop u x) (\<lambda>(_, _, r) t. \<exists>v. r = Some v \<and> malloced u A (umem s) g v t) t"
        unfolding x malloc_loop_done malloced_def prod.case by blast
    qed
  next
    case False
    show ?thesis
    proof (cases "Suc c = ?N")
      case True
      have "snd y < u" if y: "y \<in> set R" for y
      proof -
        obtain k where k: "k < ?N" "y = R ! k" using y by (auto simp: in_set_conv_nth)
        define m where "m = (if f < k then k - f - 1 else k + ?N - f - 1)"
        have "f + Suc m = (if f < k then k else k + ?N)" "m < ?N" using k(1) f(1) unfolding m_def by (cases "f < k"; simp; linarith)+
        then have m: "m \<le> c" "(f + Suc m) mod ?N = k" using k True by (simp_all split: if_splits)
        then show ?thesis using less.prems(2) False k(2) by (cases "m = c") (auto simp: i_def)
      qed
      moreover have "f + c = f + ?N - 1" using True by simp
      moreover have "i = f" using f(1) unfolding i_def True by simp
      ultimately show ?thesis using grow f(2) unfolding i_def [symmetric] by simp
    next
      case c': False
      then have "Suc c < ?N" using less.prems by simp
      then have ne: "i \<noteq> f" using f(1) unfolding i_def by (cases "f + Suc c < ?N") (simp_all add: le_mod_geq)
      have "\<not> (of_nat u :: uint) \<le> of_nat (snd (R ! i))" using of_nat_less32 [of "snd (R ! i)" u] False sn u by (simp add: not_le)
      then have st: "malloc_step (of_nat u) (of_nat (fst (R ! ((f + c) mod ?N))), of_nat (fst (R ! i)), None) s =
          Ret (of_nat (fst (R ! i)), of_nat (fst (R ! (Suc i mod ?N))), None) s"
        using ring_next [OF h i(1)] ring_distinct [OF h i(1) f(1)] ne f(2) by (simp add: malloc_step_def bnd_def)
      have "\<forall>k < Suc c. snd (R ! ((f + Suc k) mod ?N)) < u" using less.prems(2) False by (auto simp: less_Suc_eq i_def)
      from less.hyps [OF _ \<open>Suc c < ?N\<close> this]
      have nx: "wp (malloc_loop u (of_nat (fst (R ! i)), of_nat (fst (R ! (Suc i mod ?N))), None))
          (\<lambda>(_, _, r) t. \<exists>v. r = Some v \<and> malloced u A (umem s) g v t) s"
        using less.prems(1) by (simp add: i_def mod_Suc_eq)
      show ?thesis unfolding malloc_loop_step i_def [symmetric] by (subst wp_def) (simp add: st nx)
    qed
  qed
qed

definition can_grow :: "umem_state \<Rightarrow> nat \<Rightarrow> bool" where
  "can_grow s u \<longleftrightarrow> unat (usz s) + 8 * max 4096 u < 2 ^ 31 \<and> (\<exists>gs. grants s = True # gs)"

lemma malloc_loop_spec:
  assumes h: "heap_inv s R A" and u: "0 < u" "8 * u < 2 ^ 31" and f: "f < length R" "freep s = of_nat (fst (R ! f))"
  shows "wp (malloc_loop u (of_nat (fst (R ! f)), of_nat (fst (R ! (Suc f mod length R))), None))
    (\<lambda>(_, _, r) t. \<exists>v. r = Some v \<and> malloced u A (umem s) (\<not> can_grow s u) v t) s"
proof -
  let ?Q = "\<lambda>s g. \<lambda>(_, _, r) t. \<exists>v. r = Some v \<and> malloced u A (umem s) g v t"
  have fit: "wp (malloc_loop u (of_nat (fst (R' ! f')), of_nat (fst (R' ! (Suc f' mod length R'))), None)) (?Q t False) t"
    if "heap_inv t R' A" "f' < length R'" "freep t = of_nat (fst (R' ! f'))" "\<exists>y \<in> set R'. u \<le> snd y" for t R' f'
    using ring_walk [OF that(1) u that(2,3), of 0 False] that by force
  have grow: "wp (malloc_loop u (pv, freep s, None)) (?Q s (\<not> can_grow s u)) s" if small: "\<forall>y \<in> set R. snd y < u" for pv
  proof -
    have sz: "get_size (freep s) s = Ret (of_nat (snd (R ! f))) s" using ring_next(2) [OF h f(1)] f(2) by simp
    have "snd (R ! f) < u" using small f(1) by simp
    then have lt: "\<not> (of_nat u :: uint) \<le> of_nat (snd (R ! f))" using of_nat_less32 [of "snd (R ! f)" u] u by (simp add: not_le)
    obtain p t where mc: "morecore (of_nat u) s = Ret p t" and P: "(p = 0 \<and> \<not> can_grow s u \<and> heap_inv t R A \<and> umem t = umem s) \<or>
        (p \<noteq> 0 \<and> p = freep t \<and> (\<exists>R'. heap_inv t R' A \<and> heap_kept A (umem s) (umem t) \<and> (\<exists>y \<in> set R'. u \<le> snd y)))"
      using morecore_spec [OF h u] unfolding wp_iff can_grow_def by blast
    show ?thesis
    proof (cases "p = 0")
      case True
      then have "malloc_step (of_nat u) (pv, freep s, None) s = Ret (pv, 0, Some 0) t" using sz lt mc by (simp add: malloc_step_def bnd_def)
      moreover have "malloced u A (umem s) (\<not> can_grow s u) 0 t" using P True by (auto simp: malloced_def)
      ultimately show ?thesis unfolding malloc_loop_step by (subst wp_def) (simp add: malloc_loop_done)
    next
      case False
      then obtain R' where R': "p = freep t" "heap_inv t R' A" "heap_kept A (umem s) (umem t)" "\<exists>y \<in> set R'. u \<le> snd y" using P by blast
      obtain f' where f': "f' < length R'" "freep t = of_nat (fst (R' ! f'))" using R'(2) by (auto simp: heap_inv_def in_set_conv_nth)
      have st: "malloc_step (of_nat u) (pv, freep s, None) s = Ret (of_nat (fst (R' ! f')), of_nat (fst (R' ! (Suc f' mod length R'))), None) t"
        using sz lt mc False R'(1) f'(2) ring_next(1) [OF R'(2) f'(1)] by (simp add: malloc_step_def bnd_def)
      have nx: "wp (malloc_loop u (of_nat (fst (R' ! f')), of_nat (fst (R' ! (Suc f' mod length R'))), None)) (?Q s (\<not> can_grow s u)) t"
        using fit [OF R'(2) f' R'(4)] by (rule wp_mono) (use heap_kept_trans [OF R'(3)] in \<open>auto simp: malloced_def\<close>)
      show ?thesis unfolding malloc_loop_step by (subst wp_def) (simp add: st nx)
    qed
  qed
  have "0 < length R" using f(1) by linarith
  then show ?thesis using ring_walk [OF h u f, of 0, OF _ _ grow] f(1) by simp
qed

text \<open>Before the first call there is no ring: \<open>freep\<close> is null and \<open>base\<close> is in the process's memory.\<close>

definition heap_start :: "umem_state \<Rightarrow> bool" where
  "heap_start s \<longleftrightarrow> freep s = 0 \<and> 0 < unat (ubase s) \<and> unat (ubase s) + 8 \<le> unat (usz s) \<and> unat (usz s) < 2 ^ 31"

lemma malloc_first:
  assumes s: "heap_start s"
  obtains m where "bnd (gets ubase) (\<lambda>b. block [modify (\<lambda>s. s\<lparr>freep := b\<rparr>), set_ptr b b, set_size b 0]) s = Ret () (s\<lparr>freep := ubase s, umem := m\<rparr>)"
    and "heap_inv (s\<lparr>freep := ubase s, umem := m\<rparr>) [(unat (ubase s), 0)] {}"
proof -
  let ?b = "unat (ubase s)"
  define m where "m = store32 (store32 (umem s) (of_nat ?b) (ubase s)) (of_nat (?b + 4)) 0"
  have b: "?b + 8 \<le> unat (usz s)" "unat (usz s) < 2 ^ 31" using s by (simp_all add: heap_start_def)
  have eq: "set_ptr (ubase s) v t = Ret () (t\<lparr>umem := store32 (umem t) (of_nat ?b) v\<rparr>)"
      "set_size (ubase s) v t = Ret () (t\<lparr>umem := store32 (umem t) (of_nat (?b + 4)) v\<rparr>)" if "usz t = usz s" for t v
    using header_access(3,4) [of ?b t v] b that by simp_all
  have "bnd (gets ubase) (\<lambda>b. block [modify (\<lambda>s. s\<lparr>freep := b\<rparr>), set_ptr b b, set_size b 0]) s = Ret () (s\<lparr>freep := ubase s, umem := m\<rparr>)"
    by (simp add: bnd_def eq m_def)
  moreover have "seg m [(?b, 0)] ?b" using b load32_store32_apart [of "?b + 4" ?b] by (simp add: m_def)
  then have "heap_inv (s\<lparr>freep := ubase s, umem := m\<rparr>) [(?b, 0)] {}" using s by (simp add: heap_inv_def heap_start_def layout_def)
  ultimately show thesis by (rule that)
qed

lemma malloc_spec:
  assumes h: "heap_inv s R A \<or> heap_start s \<and> A = {}" and u: "u = unat ((nbytes + 8 - 1) div 8 + 1 :: uint)" "0 < u" "8 * u < 2 ^ 31"
  shows "wp (malloc nbytes) (malloced u A (umem s) (\<not> can_grow s u)) s"
proof -
  have nu: "(nbytes + 8 - 1) div 8 + 1 = (of_nat u :: uint)" unfolding u(1) by simp
  have main: "wp (bnd (gets freep) (\<lambda>prevp. bnd (get_ptr prevp) (\<lambda>p. bnd (malloc_loop u (prevp, p, None)) (\<lambda>(_, _, r). ret (the r)))))
      (malloced u A (umem t) (\<not> can_grow t u)) t" if t: "heap_inv t R A" for t R
  proof -
    obtain f where f: "f < length R" "freep t = of_nat (fst (R ! f))" using t by (auto simp: heap_inv_def in_set_conv_nth)
    show ?thesis
      using malloc_loop_spec [OF t u(2,3) f] ring_next(1) [OF t f(1)] f(2) by (auto simp: bnd_def wp_iff)
  qed
  show ?thesis
    using h
  proof
    assume h: "heap_inv s R A"
    then show ?thesis using main [OF h] heap_freep [OF h] unfolding malloc_def Let_def nu by (simp add: bnd_def wp_def)
  next
    assume st: "heap_start s \<and> A = {}"
    then have hs: "heap_start s" and A: "A = {}" by simp_all
    obtain m where m: "bnd (gets ubase) (\<lambda>b. block [modify (\<lambda>s. s\<lparr>freep := b\<rparr>), set_ptr b b, set_size b 0]) s =
        Ret () (s\<lparr>freep := ubase s, umem := m\<rparr>)" "heap_inv (s\<lparr>freep := ubase s, umem := m\<rparr>) [(unat (ubase s), 0)] {}"
      by (rule malloc_first [OF hs])
    let ?t = "s\<lparr>freep := ubase s, umem := m\<rparr>"
    have "wp (malloc nbytes) (malloced u A m (\<not> can_grow s u)) s"
      using main [OF m(2) [folded A]] m(1) hs unfolding malloc_def Let_def nu by (simp add: bnd_def wp_def heap_start_def can_grow_def)
    then show ?thesis by (rule wp_mono) (simp add: A malloced_def heap_kept_def)
  qed
qed

section \<open>Correctness\<close>

text \<open>C22. \<open>malloc\<close> always returns, from its first call on. It returns a block of enough bytes that overlaps no allocated and no
  free block, or null when no free block is large enough and the kernel refuses to grow the process. The bytes of the blocks
  allocated before are unchanged, and the ring of free blocks stays sorted, disjoint from them and without neighbours to merge.\<close>

theorem malloc_allocates:
  assumes "heap_inv s R A \<or> heap_start s \<and> A = {}" and "unat nbytes + 32 \<le> 2 ^ 31"
  shows "wp (malloc nbytes) (\<lambda>v t. heap_kept A (umem s) (umem t) \<and> (let u = (unat nbytes + 7) div 8 + 1 in unat nbytes \<le> 8 * u - 8 \<and>
    (if v = 0 then \<not> can_grow s u \<and> (\<exists>R'. heap_inv t R' A)
     else \<exists>q R'. v = of_nat (q + 8) \<and> (q, u) \<notin> A \<and> heap_inv t R' (insert (q, u) A)))) s"
proof -
  define u where "u = (unat nbytes + 7) div 8 + 1"
  have "unat (nbytes + 7) = unat nbytes + 7" using assms(2) by (simp add: unat_word_ariths)
  then have d: "unat ((nbytes + 7) div 8) = (unat nbytes + 7) div 8" by (simp add: unat_div_distrib)
  have suc: "unat (w + 1) = unat w + 1" if "unat w < 2 ^ 31" for w :: uint using that by (simp add: unat_word_ariths)
  have "(unat nbytes + 7) div 8 < 2 ^ 31" using assms(2) by linarith
  then have "unat ((nbytes + 7) div 8 + 1) = u" using suc [of "(nbytes + 7) div 8"] unfolding d u_def by blast
  moreover have "nbytes + 8 - 1 = nbytes + 7" by simp
  ultimately have eq: "u = unat ((nbytes + 8 - 1) div 8 + 1)" by (simp only:)
  have "8 * ((x + 7) div 8) \<le> x + 7 \<and> x \<le> 8 * ((x + 7) div 8)" for x :: nat by presburger
  from this [of "unat nbytes"] have b: "0 < u" "8 * u < 2 ^ 31" "unat nbytes \<le> 8 * u - 8" using assms(2) unfolding u_def by simp_all
  show ?thesis unfolding u_def [symmetric] Let_def
    by (rule wp_mono [OF malloc_spec [OF assms(1) eq b(1,2)]]) (use b(3) in \<open>auto simp: malloced_def simp del: of_nat_add\<close>)
qed

text \<open>C23. \<open>free\<close> of an allocated block always returns, wherever \<open>freep\<close> is. The block's bytes are then free, together with those
  that were, merged with their neighbours; the other allocated blocks and their bytes are as before.\<close>

theorem free_merges:
  assumes "heap_inv s R A" and "(a, n) \<in> A"
  shows "wp (free (of_nat (a + 8))) (\<lambda>_ t. heap_kept (A - {(a, n)}) (umem s) (umem t) \<and>
    (\<exists>R'. heap_inv t R' (A - {(a, n)}) \<and> free_bytes R' = free_bytes R \<union> block_bytes (a, n))) s"
  by (rule wp_mono [OF free_spec [OF assms]]) blast

text \<open>C35. The size computation of \<open>malloc\<close> wraps around: for a request of 4GB less one byte it hands out a block of one unit, its
  header, which has no byte for the caller, instead of null.\<close>

theorem malloc_overflow:
  assumes "heap_inv s R A \<or> heap_start s \<and> A = {}" and "can_grow s 1"
  shows "wp (malloc 0xFFFFFFFF) (\<lambda>v t. \<exists>q R'. v = of_nat (q + 8) \<and> v \<noteq> 0 \<and> heap_inv t R' (insert (q, 1) A)) s"
proof -
  have "1 = unat (((0xFFFFFFFF :: uint) + 8 - 1) div 8 + 1)" by simp
  from malloc_spec [OF assms(1) this] have "wp (malloc 0xFFFFFFFF) (malloced 1 A (umem s) (\<not> can_grow s 1)) s" by simp
  then show ?thesis by (rule wp_mono) (use assms(2) in \<open>auto simp: malloced_def simp del: of_nat_add One_nat_def\<close>)
qed

definition heap_demo :: umem_state where
  "heap_demo = \<lparr>umem = (\<lambda>_. 0), usz = 0x3000, ubase = 0x1000, freep = 0, grants = [True]\<rparr>"

lemma heap_demo: "heap_start heap_demo" "can_grow heap_demo u \<longleftrightarrow> 0x3000 + 8 * max 4096 u < 2 ^ 31" "can_grow heap_demo 1"
  by (simp_all add: heap_demo_def heap_start_def can_grow_def)

theorem malloc_allocates_witness:
  "\<exists>q t R. malloc 100 heap_demo = Ret (of_nat (q + 8)) t \<and> heap_inv t R {(q, 14)}"
proof -
  have "heap_inv heap_demo [] {} \<or> heap_start heap_demo \<and> {} = {}" by (simp add: heap_demo)
  from malloc_allocates [OF this, of 100] show ?thesis by (auto simp: wp_iff heap_demo(2) simp del: of_nat_add split: if_splits)
qed

theorem free_merges_witness:
  "\<exists>v t t' R. malloc 100 heap_demo = Ret v t \<and> v \<noteq> 0 \<and> free v t = Ret () t' \<and> heap_inv t' R {}"
proof -
  have "wp (malloc 100) (malloced 14 {} (umem heap_demo) (\<not> can_grow heap_demo 14)) heap_demo"
    by (rule malloc_spec [of _ "[]"]) (simp_all add: heap_demo)
  then obtain q t R where t: "malloc 100 heap_demo = Ret (of_nat (q + 8)) t" "of_nat (q + 8) \<noteq> (0 :: uint)" "heap_inv t R {(q, 14)}"
    unfolding wp_iff malloced_def heap_demo(2) by auto
  have "(q, 14) \<in> {(q, 14)}" by simp
  from free_merges [OF t(3) this] t(1,2) show ?thesis unfolding wp_unit by auto
qed

theorem malloc_overflow_witness:
  "\<exists>q t R. malloc 0xFFFFFFFF heap_demo = Ret (of_nat (q + 8)) t \<and> heap_inv t R {(q, 1)}"
proof -
  have "heap_inv heap_demo [] {} \<or> heap_start heap_demo \<and> {} = {}" by (simp add: heap_demo)
  from malloc_overflow [OF this heap_demo(3)] show ?thesis by (auto simp: wp_iff simp del: of_nat_add)
qed

end
