(* ===== verification/Spec2Isabelle.thy ===== *)
theory Spec2Isabelle
  imports Trap Kvm Fileio Grep Sh_Run Uprogs Umalloc
begin

text \<open>
  A verification development for xv6, revision 9 (\<open>src/xv6-public-xv6-rev9\<close>): a Unix kernel for several x86 processors,
  and the user programs that come with it.

  \<^bold>\<open>The program.\<close> The kernel hands out physical pages (\<open>kalloc.c\<close>), builds page tables from them (\<open>vm.c\<close>) and runs processes
  in the address spaces these describe (\<open>proc.c\<close>, \<open>exec.c\<close>). Processes enter it by traps (\<open>trap.c\<close>), which lead to the
  timer, the devices (\<open>console.c\<close>, \<open>kbd.c\<close>, \<open>uart.c\<close>, \<open>memide.c\<close>) and the system calls (\<open>syscall.c\<close>, \<open>sysproc.c\<close>,
  \<open>sysfile.c\<close>). Files are layers: descriptors and pipes (\<open>file.c\<close>, \<open>pipe.c\<close>), inodes, directories and paths (\<open>fs.c\<close>),
  transactions (\<open>log.c\<close>), cached blocks (\<open>bio.c\<close>) and the disk. Spin locks (\<open>spinlock.c\<close>) and \<open>sleep\<close> and \<open>wakeup\<close> order
  what processors and processes do. User programs (\<open>sh.c\<close>, \<open>grep.c\<close>, \<open>wc.c\<close> and others) use the library \<open>ulib.c\<close>,
  \<open>printf.c\<close> and \<open>umalloc.c\<close>.

  \<^bold>\<open>How the code is modelled.\<close> \<open>Xv6_Prelude\<close> has the C types (\<open>uint\<close> is a 32-bit word and wraps, \<open>byte\<close> an 8-bit one) and
  the kernel call: a function from the kernel's state to \<open>Ret\<close> (a result and the new state), \<open>Panic\<close> (with the message of
  the code), \<open>Switch\<close> (the process gave up its CPU inside \<open>sched\<close>; the state is the one others then see), \<open>Spin\<close> (a lock is
  taken) or \<open>Hang\<close> (the loop does not end). \<open>bnd\<close> is the sequencing of C, \<open>kwhile\<close> a loop, run by \<open>while_option\<close>,
  so that a loop that runs forever is \<open>Hang\<close> and \<open>wp\<close>, the predicate transformer all specifications use, includes that
  the call returns. A call that can wait is cut at \<open>sleep\<close>; what it does when it runs again is its \<open>_resume\<close> definition.
  The state is a chain of records, each component adding its own variables to that of the components it calls: \<open>machine\<close>
  (locks and CPU), \<open>kmem_state\<close>, \<open>vm_state\<close>, \<open>sched_state\<close>, \<open>bio_state\<close>, \<open>log_state\<close>, \<open>icache_state\<close>, \<open>cons_state\<close>,
  \<open>file_state\<close>, \<open>proc_state\<close>. Memory is a function from addresses to bytes, and page tables, free list, trap frames and
  kernel stacks live in it as in the code; pointers into static arrays are indices. Blocks are byte lists, and on-disk
  structures are read and written at their byte offsets.

  \<^bold>\<open>The theories and the code.\<close>
  \<^item> \<open>Spinlock\<close> (\<open>spinlock.c\<close>): \<open>acquire\<close>, \<open>release\<close>, \<open>pushcli\<close>, \<open>popcli\<close>; an \<open>inductive\<close> relation interleaves several
    processors, and no two hold a lock.
  \<^item> \<open>Xstring\<close> (\<open>string.c\<close>) and \<open>Digits\<close> (the digit loop of \<open>printint\<close>, \<open>atoi\<close>): overlapping moves, the word-wise fill, numbers
    printed and read back, the size of \<open>printint\<close>'s buffer.
  \<^item> \<open>Mmu\<close> (\<open>mmu.h\<close>, \<open>memlayout.h\<close>) and \<open>Kalloc\<close> (\<open>kalloc.c\<close>): the free list in the pages themselves; the locale \<open>page_pool\<close>
    is what clients rely on, interpreted on \<open>kalloc\<close> and \<open>kfree\<close>. No page is lost or handed out twice, from boot on.
  \<^item> \<open>Vm\<close> (\<open>vm.c\<close>), with \<open>Pagetable\<close> (\<open>walkpgdir\<close> and \<open>mappages\<close>: the two levels stand for one function from addresses to
    entries), \<open>Uvm\<close> (the invariant of a user address space; growing, shrinking and freeing it) and \<open>Kvm\<close> (the kernel's
    half, and \<open>fork\<close>'s copy).
  \<^item> \<open>Sched\<close> (\<open>proc.c\<close>: slots, \<open>sleep\<close>, \<open>wakeup\<close>, \<open>kill\<close>, the scheduler) and \<open>Sched_Safety\<close>, the table under any number of
    processors, one critical section a step: a process runs on one processor at most and wakeups are not lost.
  \<^item> \<open>Bio\<close> (\<open>bio.c\<close>, \<open>memide.c\<close>): the ring of buffers as pointers; the locale \<open>block_cache\<close>, interpreted on it, is an array of
    blocks to its clients.
  \<^item> \<open>Log\<close> (\<open>log.c\<close>): commit and recovery, with a crash after any number of disk writes.
  \<^item> \<open>Inode\<close> (\<open>fs.c\<close> up to \<open>stati\<close>), \<open>Fsio\<close> (the rest of \<open>fs.c\<close>) and \<open>Fileio\<close>: the block allocator, inodes, and files as
    sequences of bytes spread over direct and indirect blocks; directory lookup.
  \<^item> \<open>Console\<close> (\<open>console.c\<close>, \<open>kbd.c\<close>, \<open>uart.c\<close>, \<open>procdump\<close>), \<open>Pipe\<close> (\<open>pipe.c\<close>; the locale \<open>bounded_queue\<close> on its ring), \<open>File\<close>
    (\<open>file.c\<close>).
  \<^item> \<open>Proc\<close> (\<open>fork\<close>, \<open>exit\<close>, \<open>wait\<close>, \<open>growproc\<close>), \<open>Sysarg\<close> (\<open>syscall.c\<close>, \<open>sysproc.c\<close>), \<open>Exec\<close> (\<open>exec.c\<close>), \<open>Sysfile\<close>
    (\<open>sysfile.c\<close>) and \<open>Trap\<close> (\<open>syscall\<close>, \<open>trap.c\<close>): the calls of the lower layers composed as in the code.
  \<^item> \<open>Ulib\<close> (\<open>ulib.c\<close>), \<open>Grep\<close> (\<open>grep.c\<close>: the matcher decides the language of its pattern), \<open>Sh\<close> and \<open>Sh_Run\<close> (\<open>sh.c\<close>: the
    parser ends and yields well-formed commands; a command line is wired as it says), \<open>Uprogs\<close> (\<open>printf.c\<close>, \<open>wc.c\<close>,
    \<open>cat.c\<close>, \<open>echo.c\<close>, \<open>ls.c\<close>).
  \<^item> \<open>Umalloc\<close> (\<open>umalloc.c\<close>): \<open>malloc\<close> and \<open>free\<close> on the ring of free blocks in the memory of a process; blocks never overlap,
    freed blocks are merged, and both always return.

  \<^bold>\<open>Hypotheses.\<close> Theorems on a kernel call assume its invariant and that the locks it takes are free (\<open>idle\<close>), as they are
  for a processor that is not spinning; concurrency is in the interleavings of \<open>Spinlock\<close>, \<open>Sched\<close> and \<open>Sched_Safety\<close>.
  \<open>Kvm\<close> to \<open>Uvm\<close> assume what \<open>main\<close> establishes before them; each theorem with hypotheses has a witness, a closed theorem
  that reaches a state satisfying them by running the initialisers of the model.

  \<^bold>\<open>Bounds and fuel.\<close> The recursive descent of the shell's parser gets a depth of four times the length of the line plus
  four; \<open>parsecmd_terminates\<close> shows this is enough for every line. The loops of \<open>printf\<close>'s and \<open>strcpy\<close>'s strings are
  \<open>partial_function\<close>s, \<open>None\<close> for a string without end. The other functions terminate by their termination proofs.

  \<^bold>\<open>Not modelled.\<close> Assembly (\<open>bootasm.S\<close>, \<open>entry.S\<close>, \<open>swtch.S\<close>, \<open>trapasm.S\<close>, \<open>usys.S\<close>) and the boot loader; programming of
  devices whose only effect is on the hardware (\<open>mp.c\<close>, \<open>lapic.c\<close>, \<open>ioapic.c\<close>, \<open>picirq.c\<close>, \<open>timer.c\<close>, \<open>uartinit\<close>, \<open>seginit\<close>,
  \<open>tvinit\<close>); \<open>ide.c\<close>, whose place \<open>memide.c\<close> takes; \<open>mkfs.c\<close>, a program of the host; \<open>getcallerpcs\<close>, which walks the stack for a diagnosis; the test programs; user programs that only make system
  calls in a row.
\<close>

end
